(* ===== verification/Prelude.thy ===== *)
theory Prelude
  imports Main "HOL-Library.Word" "HOL-Library.Multiset"
begin

text \<open>
  Shared vocabulary of the development: the machine integers of the kernel, the ways a piece of
  kernel code ends without returning, the loop combinators that the source's \<^verbatim>\<open>for\<close> loops
  become, and the generic lemmas the component theories build on.

  The kernel image is the release build (see \<^verbatim>\<open>Makefile\<close>), so its integer arithmetic wraps and
  is modelled on words. \<^verbatim>\<open>dprintln!\<close> and \<^verbatim>\<open>mprintln!\<close> are no-ops: both switches
  (\<^verbatim>\<open>DEBUG_PRINTS_ENABLED\<close>, \<^verbatim>\<open>DEBUG_PRINTS_ENABLED_MMU\<close> in \<^verbatim>\<open>main.rs\<close>) are false and never set.
\<close>

unbundle bit_operations_syntax

type_synonym u8 = "8 word"
type_synonym u16 = "16 word"
type_synonym u32 = "32 word"
type_synonym u64 = "64 word"

section \<open>Abnormal ends and results\<close>

text \<open>
  A kernel function that does not return ends in one of four ways: the panic handler (which prints
  the message and spins), the endless loop of \<^verbatim>\<open>unhandled_exception!\<close>, the endless loop of
  \<^verbatim>\<open>the_end\<close>, or a wait loop whose condition has not come true within the readings of the
  hardware supplied to the model. Functions that can do so return \<open>halt + 'a\<close>.
\<close>

datatype halt = Panic string | Unhandled_Exception | The_End | Spin

definition kbind :: "halt + 'a \<Rightarrow> ('a \<Rightarrow> halt + 'b) \<Rightarrow> halt + 'b" where
  "kbind r f = (case r of Inl h \<Rightarrow> Inl h | Inr x \<Rightarrow> f x)"

lemma kbind_simps [simp]:
  "kbind (Inl h) f = Inl h"
  "kbind (Inr x) f = f x"
  by (simp_all add: kbind_def)

lemma kbind_cong [fundef_cong]:
  "r = r' \<Longrightarrow> (\<And>x. r' = Inr x \<Longrightarrow> f x = f' x) \<Longrightarrow> kbind r f = kbind r' f'"
  by (cases r') simp_all

lemma kbind_eq_Inr [simp]: "kbind r f = Inr y \<longleftrightarrow> (\<exists>x. r = Inr x \<and> f x = Inr y)"
  by (cases r) simp_all

section \<open>Loops\<close>

text \<open>
  \<^verbatim>\<open>for i in xs { body }\<close>: over a body that can halt, and over a body that can leave the enclosing
  function with an \<^verbatim>\<open>Err\<close> (the \<^verbatim>\<open>?\<close> operator). A loop that returns at the first element
  satisfying a condition is \<open>find_index\<close>.
\<close>

primrec for_halt :: "('i \<Rightarrow> 's \<Rightarrow> halt + 's) \<Rightarrow> 'i list \<Rightarrow> 's \<Rightarrow> halt + 's" where
  "for_halt f [] s = Inr s"
| "for_halt f (i # is) s = kbind (f i s) (for_halt f is)"

primrec for_result :: "('i \<Rightarrow> 's \<Rightarrow> ('e + unit) \<times> 's) \<Rightarrow> 'i list \<Rightarrow> 's \<Rightarrow> ('e + unit) \<times> 's" where
  "for_result f [] s = (Inr (), s)"
| "for_result f (i # is) s =
     (case f i s of (Inl e, s') \<Rightarrow> (Inl e, s') | (Inr _, s') \<Rightarrow> for_result f is s')"

lemma for_halt_append: "for_halt f (xs @ ys) s = kbind (for_halt f xs s) (for_halt f ys)"
  by (induction xs arbitrary: s) (auto simp: kbind_def split: sum.splits)

lemma for_halt_id: "(\<And>i. i \<in> set is \<Longrightarrow> f i s = Inr s) \<Longrightarrow> for_halt f is s = Inr s"
  by (induction "is") auto

primrec find_index :: "('a \<Rightarrow> bool) \<Rightarrow> 'a list \<Rightarrow> nat option" where
  "find_index P [] = None"
| "find_index P (x # xs) = (if P x then Some 0 else map_option Suc (find_index P xs))"

lemma find_index_None: "find_index P xs = None \<longleftrightarrow> (\<forall>x \<in> set xs. \<not> P x)"
  by (induction xs) auto

lemma find_index_Some:
  "find_index P xs = Some i \<longleftrightarrow> i < length xs \<and> P (xs ! i) \<and> (\<forall>j < i. \<not> P (xs ! j))"
proof (induction xs arbitrary: i)
  case Nil
  then show ?case by simp
next
  case (Cons x xs)
  show ?case
  proof (cases i)
    case 0
    then show ?thesis by auto
  next
    case (Suc k)
    then show ?thesis using Cons.IH [of k] by (auto simp: All_less_Suc2)
  qed
qed

end
