(* ===== verification/Memory.thy ===== *)
theory Memory
  imports Prelude
begin

text \<open>
  Byte-addressed RAM as the kernel sees it through its linear map: \<open>ram\<close> maps an address of the
  TTBR1 space (\<^verbatim>\<open>0xffffff80_00000000 + physical address\<close>) to the byte stored there. Loads and stores of
  \<^verbatim>\<open>u64\<close> are little endian. \<open>ttbr1_to_va\<close> and \<open>ttbr1_to_pa\<close> are the macros at the end of
  \<^verbatim>\<open>src/src/kernel/paging.rs\<close>. The lemmas say which bytes an access can touch: everything the page-table
  proofs need is that distinct slots of page-aligned frames do not overlap.
\<close>

type_synonym ram = "u64 \<Rightarrow> u8"

primrec from_le :: "u8 list \<Rightarrow> 'a::len word" where
  "from_le [] = 0"
| "from_le (b # bs) = ucast b OR push_bit 8 (from_le bs)"

primrec to_le :: "nat \<Rightarrow> 'a::len word \<Rightarrow> u8 list" where
  "to_le 0 w = []"
| "to_le (Suc n) w = ucast w # to_le n (drop_bit 8 w)"

lemma length_to_le [simp]: "length (to_le n w) = n"
  by (induction n arbitrary: w) auto

lemma from_to_le: "from_le (to_le n w) = take_bit (8 * n) (w :: 'a::len word)"
proof (induction n arbitrary: w)
  case 0
  then show ?case by simp
next
  case (Suc n)
  show ?case
    by (rule bit_word_eqI) (auto simp: Suc.IH bit_simps)
qed

definition ld64 :: "ram \<Rightarrow> u64 \<Rightarrow> u64" where
  "ld64 m a = from_le (map (\<lambda>k. m (a + of_nat k)) [0..<8])"

definition st64 :: "ram \<Rightarrow> u64 \<Rightarrow> u64 \<Rightarrow> ram" where
  "st64 m a v = (\<lambda>x. if x - a < 8 then to_le 8 v ! unat (x - a) else m x)"

definition write_bytes :: "ram \<Rightarrow> u64 \<Rightarrow> u8 \<Rightarrow> u64 \<Rightarrow> ram" where
  "write_bytes m a b n = (\<lambda>x. if x - a < n then b else m x)"

definition copy_bytes :: "ram \<Rightarrow> u64 \<Rightarrow> u64 \<Rightarrow> u64 \<Rightarrow> ram" where
  "copy_bytes m src dst n = (\<lambda>x. if x - dst < n then m (src + (x - dst)) else m x)"

lemma ld64_cong: "(\<And>k. k < 8 \<Longrightarrow> m (a + of_nat k) = m' (a + of_nat k)) \<Longrightarrow> ld64 m a = ld64 m' a"
  unfolding ld64_def by (rule arg_cong [where f = from_le]) simp

lemma unat_bound: "unat (a :: u64) < 2 ^ 64"
  using unsigned_less [of a] by simp

lemma unat_small: "k < 2 ^ 64 \<Longrightarrow> unat (of_nat k :: u64) = k"
  by (simp add: unat_of_nat)

lemma of_nat_less_word: "k < unat w \<Longrightarrow> of_nat k < (w :: u64)"
proof -
  have "unat (of_nat k :: u64) \<le> k" by (simp add: unat_of_nat)
  then show "k < unat w \<Longrightarrow> ?thesis" by (simp add: word_less_nat_alt)
qed

lemma ld64_st64_same [simp]: "ld64 (st64 m a v) a = v"
proof -
  have "map (\<lambda>k. st64 m a v (a + of_nat k)) [0..<8] = to_le 8 v"
    by (rule nth_equalityI) (simp_all add: st64_def of_nat_less_word unat_small)
  then show ?thesis
    by (simp add: ld64_def from_to_le take_bit_word_eq_self)
qed

definition frame_of :: "u64 \<Rightarrow> u64" where
  "frame_of a = a AND NOT 0xFFF"

definition page_aligned :: "u64 \<Rightarrow> bool" where
  "page_aligned a \<longleftrightarrow> a AND 0xFFF = 0"

lemma mask12: "(0xFFF :: u64) = mask 12" by (simp add: mask_eq_exp_minus_1)

lemma unat_and_fff: "unat (a AND 0xFFF :: u64) = unat a mod 4096"
  by (simp add: mask12 flip: take_bit_eq_mask) (simp add: take_bit_eq_mod unat_mod_distrib)

lemma page_aligned_mod: "page_aligned a \<longleftrightarrow> unat a mod 4096 = 0"
  unfolding page_aligned_def by (metis unat_and_fff unat_eq_zero)

lemma frame_of_drop: "frame_of a = push_bit 12 (drop_bit 12 a)"
  unfolding frame_of_def mask12 by (rule bit_word_eqI) (auto simp: bit_simps)

lemma unat_frame_of: "unat (frame_of a) = 4096 * (unat a div 4096)"
proof -
  have b: "unat a < 2 ^ 64" using unsigned_less [of a] by simp
  have d: "unat (drop_bit 12 a) = unat a div 4096"
    by (simp add: drop_bit_eq_div unat_div)
  have "unat (push_bit 12 (drop_bit 12 a)) = (unat (drop_bit 12 a) * 4096) mod 2 ^ 64"
    by (simp add: push_bit_eq_mult unat_word_ariths)
  also have "\<dots> = 4096 * (unat a div 4096)"
    using b by (simp add: d mult.commute)
  finally show ?thesis by (simp add: frame_of_drop)
qed

lemma unat_page_add:
  assumes "page_aligned f" "n < 4096"
  shows "unat (f + of_nat n) = unat f + n"
proof -
  have b: "unat f < 2 ^ 64" using unsigned_less [of f] by simp
  from assms(1) obtain q where q: "unat f = 4096 * q"
    by (auto simp: page_aligned_mod)
  with b have "4096 * q < 4096 * 2 ^ 52" by simp
  then have "q < 2 ^ 52" by simp
  with q assms(2) have "unat f + n < 2 ^ 64" by simp
  then show ?thesis
    by (simp add: unat_word_ariths unat_of_nat)
qed

lemma frame_of_add [simp]:
  assumes "page_aligned f" "n < 4096"
  shows "frame_of (f + of_nat n) = f"
proof -
  from assms(1) obtain q where q: "unat f = 4096 * q"
    by (auto simp: page_aligned_mod)
  have "unat (frame_of (f + of_nat n)) = unat f"
    using assms q by (simp add: unat_frame_of unat_page_add)
  then show ?thesis by (simp add: word_unat_eq_iff)
qed

lemma frame_of_aligned [simp]: "page_aligned f \<Longrightarrow> frame_of f = f"
  using frame_of_add [of f 0] by simp

lemma page_aligned_frame_of [simp]: "page_aligned (frame_of a)"
  by (simp add: page_aligned_mod unat_frame_of)

lemma frame_of_iff:
  assumes "page_aligned f"
  shows "a - f < 4096 \<longleftrightarrow> frame_of a = f"
proof
  assume "a - f < 4096"
  then have n: "unat (a - f) < 4096" by (simp add: word_less_nat_alt)
  have "a = f + of_nat (unat (a - f))" by simp
  then show "frame_of a = f" using frame_of_add [OF assms n] by simp
next
  assume "frame_of a = f"
  then have "unat f = 4096 * (unat a div 4096)" using unat_frame_of [of a] by simp
  then have "unat f \<le> unat a" "unat a - unat f = unat a mod 4096"
    by (simp_all add: minus_mult_div_eq_mod)
  then have "unat (a - f) = unat a mod 4096"
    by (simp add: unat_sub word_le_nat_alt)
  then show "a - f < 4096" by (simp add: word_less_nat_alt)
qed

section \<open>The slots of a frame\<close>

definition slot :: "u64 \<Rightarrow> nat \<Rightarrow> u64" where
  "slot f i = f + 8 * of_nat i"

lemma slot_add: "slot f i + of_nat k = f + of_nat (8 * i + k)"
  by (simp add: slot_def)

lemma frame_of_slot [simp]: "page_aligned f \<Longrightarrow> i < 512 \<Longrightarrow> k < 8 \<Longrightarrow> frame_of (slot f i + of_nat k) = f"
  unfolding slot_add by (rule frame_of_add) simp_all

lemma page_offset_inj:
  assumes "page_aligned f" "n < 4096" "k < 4096"
  shows "f + of_nat n = f + (of_nat k :: u64) \<longleftrightarrow> n = k"
  using unat_page_add [OF assms(1,2)] unat_page_add [OF assms(1,3)] by (metis add_left_imp_eq)

lemma in_slot_iff:
  assumes "page_aligned f" "i < 512"
  shows "x - slot f i < 8 \<longleftrightarrow> (\<exists>k < 8. x = slot f i + of_nat k)"
proof
  assume "x - slot f i < 8"
  then have "unat (x - slot f i) < 8" by (simp add: word_less_nat_alt)
  moreover have "x = slot f i + of_nat (unat (x - slot f i))" by simp
  ultimately show "\<exists>k < 8. x = slot f i + of_nat k" by blast
qed (auto simp: of_nat_less_word)

lemma st64_outside [simp]:
  assumes "page_aligned f" "i < 512" "frame_of x \<noteq> f"
  shows "st64 m (slot f i) v x = m x"
  using assms by (auto simp: st64_def in_slot_iff)

lemma ld64_st64_other:
  assumes "page_aligned f" "page_aligned g" "i < 512" "j < 512" "(f, i) \<noteq> (g, j)"
  shows "ld64 (st64 m (slot f i) v) (slot g j) = ld64 m (slot g j)"
proof (rule ld64_cong)
  fix k :: nat
  assume k: "k < 8"
  show "st64 m (slot f i) v (slot g j + of_nat k) = m (slot g j + of_nat k)"
  proof (cases "f = g")
    case False
    then show ?thesis using assms k by simp
  next
    case True
    have "\<not> slot g j + of_nat k - slot f i < 8"
    proof
      assume "slot g j + of_nat k - slot f i < 8"
      then obtain l where l: "l < 8" "slot g j + of_nat k = slot f i + of_nat l"
        using assms(1,3) by (auto simp: in_slot_iff)
      then have "8 * j + k = 8 * i + l"
        using True assms k page_offset_inj [of f "8 * j + k" "8 * i + l"] unfolding slot_add by simp
      with l k have "i = j" by presburger
      with True assms(5) show False by simp
    qed
    then show ?thesis by (simp add: st64_def)
  qed
qed

definition same_frame :: "ram \<Rightarrow> ram \<Rightarrow> u64 \<Rightarrow> bool" where
  "same_frame m m' f \<longleftrightarrow> (\<forall>x. frame_of x = f \<longrightarrow> m x = m' x)"

lemma same_frame_ld64:
  "same_frame m m' f \<Longrightarrow> page_aligned f \<Longrightarrow> i < 512 \<Longrightarrow> ld64 m (slot f i) = ld64 m' (slot f i)"
  by (rule ld64_cong) (simp add: same_frame_def)

lemma same_frame_refl [simp]: "same_frame m m f"
  by (simp add: same_frame_def)

lemma same_frame_sym: "same_frame m m' f \<Longrightarrow> same_frame m' m f"
  by (simp add: same_frame_def)

lemma same_frame_trans: "same_frame m m' f \<Longrightarrow> same_frame m' m'' f \<Longrightarrow> same_frame m m'' f"
  by (simp add: same_frame_def)

lemma same_frame_st64 [simp]:
  "page_aligned f \<Longrightarrow> i < 512 \<Longrightarrow> f \<noteq> g \<Longrightarrow> same_frame m (st64 m (slot f i) v) g"
  by (simp add: same_frame_def)

lemma same_frame_write_bytes [simp]:
  "page_aligned f \<Longrightarrow> f \<noteq> g \<Longrightarrow> same_frame m (write_bytes m f b 4096) g"
  by (simp add: same_frame_def write_bytes_def frame_of_iff)

lemma same_frame_copy_bytes [simp]:
  "page_aligned f \<Longrightarrow> f \<noteq> g \<Longrightarrow> same_frame m (copy_bytes m src f 4096) g"
  by (simp add: same_frame_def copy_bytes_def frame_of_iff)

lemma from_le_zeros [simp]: "from_le (replicate n 0) = 0"
  by (induction n) simp_all

lemma ld64_write_bytes_zero [simp]:
  assumes "page_aligned f" "i < 512"
  shows "ld64 (write_bytes m f 0 4096) (slot f i) = 0"
proof -
  have "map (\<lambda>k. write_bytes m f 0 4096 (slot f i + of_nat k)) [0..<8] = replicate 8 0"
    using assms by (intro nth_equalityI) (auto simp: write_bytes_def frame_of_iff)
  then show ?thesis by (simp add: ld64_def)
qed

section \<open>The linear map of the kernel\<close>

definition ttbr1_to_va :: "u64 \<Rightarrow> u64" where
  "ttbr1_to_va a = a OR 0xffffff8000000000"

definition ttbr1_to_pa :: "u64 \<Rightarrow> u64" where
  "ttbr1_to_pa a = a AND 0x0000007FFFFFFFFF"

lemma mask39: "(0x0000007FFFFFFFFF :: u64) = mask 39" "(0xffffff8000000000 :: u64) = NOT (mask 39)"
  by (simp_all add: mask_eq_exp_minus_1)

definition is_frame_pa :: "u64 \<Rightarrow> bool" where
  "is_frame_pa p \<longleftrightarrow> page_aligned p \<and> ttbr1_to_pa p = p"

definition is_frame_va :: "u64 \<Rightarrow> bool" where
  "is_frame_va v \<longleftrightarrow> page_aligned v \<and> ttbr1_to_va v = v"

lemma bit_u64_less: "bit (a :: u64) n \<Longrightarrow> n < 64"
  by (drule bit_imp_le_length) simp

lemma bit_12: "page_aligned a \<longleftrightarrow> (\<forall>n < 12. \<not> bit a n)"
proof -
  have "a AND mask 12 = 0 \<longleftrightarrow> (\<forall>n. \<not> bit (a AND mask 12) n)"
    by (simp add: bit_eq_iff) (meson bit_u64_less)
  also have "\<dots> \<longleftrightarrow> (\<forall>n. n < 12 \<longrightarrow> \<not> bit a n)"
    by (auto simp: bit_simps dest: bit_u64_less)
  finally show ?thesis by (simp add: page_aligned_def mask12)
qed

lemma pa_of_va [simp]: "is_frame_pa p \<Longrightarrow> ttbr1_to_pa (ttbr1_to_va p) = p"
  unfolding is_frame_pa_def ttbr1_to_pa_def ttbr1_to_va_def mask39
  by (simp add: bit.conj_disj_distrib2)

lemma va_of_pa [simp]: "is_frame_va v \<Longrightarrow> ttbr1_to_va (ttbr1_to_pa v) = v"
  unfolding is_frame_va_def ttbr1_to_pa_def ttbr1_to_va_def mask39
  by (simp add: bit.disj_conj_distrib2)

lemma frame_va_of_pa [simp]: "page_aligned p \<Longrightarrow> is_frame_va (ttbr1_to_va p)"
  unfolding is_frame_va_def bit_12 ttbr1_to_va_def mask39
  by (auto simp: bit_simps bit_eq_iff)

lemma frame_pa_of_va [simp]: "page_aligned v \<Longrightarrow> is_frame_pa (ttbr1_to_pa v)"
  unfolding is_frame_pa_def bit_12 ttbr1_to_pa_def mask39
  by (auto simp: bit_simps bit_eq_iff)

end
