(* ===== verification/FrameAlloc.thy ===== *)
theory FrameAlloc
  imports Memory
begin

text \<open>
  The physical frame allocator of \<^verbatim>\<open>src/src/kernel/paging.rs\<close>: the statics \<^verbatim>\<open>FREE_FRAME_LIST\<close>,
  \<^verbatim>\<open>FREE_FRAME_COUNT\<close>, \<^verbatim>\<open>TOTAL_FRAME_COUNT\<close> and the RAM they live in, with the operations
  \<^verbatim>\<open>get_free_frame_pa\<close>, \<^verbatim>\<open>zero_frame\<close>, \<^verbatim>\<open>add_free_frame\<close> and \<^verbatim>\<open>init_frames\<close>. A free frame holds the
  link to the next free frame in its own first bytes. \<^verbatim>\<open>FreeFrame\<close> is one field of type
  \<^verbatim>\<open>Option<*mut FreeFrame>\<close>; rustc lays it out as a tag word followed by the pointer word, and
  \<open>read_next\<close> and \<open>write_next\<close> use that layout (storing \<^verbatim>\<open>None\<close> writes the tag only).

  \<open>pool s ps\<close> is the abstraction: the linked list in memory holds exactly the frames with physical
  addresses \<open>ps\<close>, without repetition, and the counter is its length. The locale \<open>frame_pool\<close> is
  what the page-table code relies on.
\<close>

record pgstate =
  ram :: ram
  FREE_FRAME_LIST :: "u64 option"
  FREE_FRAME_COUNT :: u64
  TOTAL_FRAME_COUNT :: u64
  ttbr0_el1 :: u64

definition PAGE_SIZE :: u64 where "PAGE_SIZE = 4096"

definition read_next :: "ram \<Rightarrow> u64 \<Rightarrow> u64 option" where
  "read_next m f = (if ld64 m (slot f 0) = 0 then None else Some (ld64 m (slot f 1)))"

definition write_next :: "ram \<Rightarrow> u64 \<Rightarrow> u64 option \<Rightarrow> ram" where
  "write_next m f n =
     (case n of None \<Rightarrow> st64 m (slot f 0) 0
      | Some p \<Rightarrow> st64 (st64 m (slot f 0) 1) (slot f 1) p)"

definition get_free_frame_pa :: "pgstate \<Rightarrow> u64 option \<times> pgstate" where
  "get_free_frame_pa s =
     (case FREE_FRAME_LIST s of
        Some free_frame \<Rightarrow>
          (Some (ttbr1_to_pa free_frame),
           s\<lparr>FREE_FRAME_LIST := read_next (ram s) free_frame,
             FREE_FRAME_COUNT := FREE_FRAME_COUNT s - 1\<rparr>)
      | None \<Rightarrow> (None, s))"

definition zero_frame :: "u64 \<Rightarrow> pgstate \<Rightarrow> pgstate" where
  "zero_frame frame_va s = s\<lparr>ram := write_bytes (ram s) frame_va 0 PAGE_SIZE\<rparr>"

definition add_free_frame :: "u64 \<Rightarrow> pgstate \<Rightarrow> pgstate" where
  "add_free_frame va_in_frame s =
     (let free_frame = va_in_frame AND NOT (PAGE_SIZE - 1);
          s = zero_frame free_frame s
      in s\<lparr>ram := write_next (ram s) free_frame (FREE_FRAME_LIST s),
           FREE_FRAME_LIST := Some free_frame,
           FREE_FRAME_COUNT := FREE_FRAME_COUNT s + 1\<rparr>)"

definition step_by_page :: "u64 \<Rightarrow> u64 \<Rightarrow> u64 list" where
  "step_by_page a b = map (\<lambda>k. a + PAGE_SIZE * of_nat k) [0..<(unat b - unat a + 4095) div 4096]"

definition init_frames :: "u64 \<Rightarrow> u64 \<Rightarrow> pgstate \<Rightarrow> pgstate" where
  "init_frames first_free_frame_va last_frame_va_limit s =
     (let s = fold add_free_frame (step_by_page first_free_frame_va last_frame_va_limit) s
      in s\<lparr>TOTAL_FRAME_COUNT := FREE_FRAME_COUNT s\<rparr>)"

definition available_memory :: "pgstate \<Rightarrow> u64" where
  "available_memory s = FREE_FRAME_COUNT s * PAGE_SIZE"

definition total_memory :: "pgstate \<Rightarrow> u64" where
  "total_memory s = TOTAL_FRAME_COUNT s * PAGE_SIZE"

section \<open>The list in memory\<close>

primrec free_list :: "ram \<Rightarrow> u64 option \<Rightarrow> u64 list \<Rightarrow> bool" where
  "free_list m h [] \<longleftrightarrow> h = None"
| "free_list m h (f # fs) \<longleftrightarrow> h = Some f \<and> free_list m (read_next m f) fs"

definition pool :: "pgstate \<Rightarrow> u64 list \<Rightarrow> bool" where
  "pool s ps \<longleftrightarrow>
     free_list (ram s) (FREE_FRAME_LIST s) (map ttbr1_to_va ps) \<and> distinct ps
     \<and> (\<forall>p \<in> set ps. is_frame_pa p) \<and> FREE_FRAME_COUNT s = of_nat (length ps)"

lemma frame_paD: "is_frame_pa p \<Longrightarrow> page_aligned p"
  by (simp add: is_frame_pa_def)

lemma frame_va_aligned: "is_frame_pa p \<Longrightarrow> page_aligned (ttbr1_to_va p)"
  using frame_va_of_pa [of p] by (simp add: is_frame_pa_def is_frame_va_def)

lemma ttbr1_to_va_inj [simp]: "is_frame_pa p \<Longrightarrow> is_frame_pa q \<Longrightarrow> ttbr1_to_va p = ttbr1_to_va q \<longleftrightarrow> p = q"
  by (metis pa_of_va)

lemma read_next_cong: "same_frame m m' f \<Longrightarrow> page_aligned f \<Longrightarrow> read_next m f = read_next m' f"
  by (simp add: read_next_def same_frame_ld64)

lemma read_write_next [simp]: "page_aligned f \<Longrightarrow> read_next (write_next m f n) f = n"
  by (cases n) (simp_all add: read_next_def write_next_def ld64_st64_other)

lemma same_frame_write_next [simp]: "page_aligned f \<Longrightarrow> f \<noteq> g \<Longrightarrow> same_frame m (write_next m f n) g"
  by (cases n) (auto simp: write_next_def intro: same_frame_trans [OF same_frame_st64 same_frame_st64])

lemma free_list_cong:
  "(\<And>f. f \<in> set fs \<Longrightarrow> same_frame m m' f \<and> page_aligned f) \<Longrightarrow> free_list m h fs = free_list m' h fs"
proof (induction fs arbitrary: h)
  case Nil
  then show ?case by simp
next
  case (Cons f fs)
  have "read_next m f = read_next m' f"
    using Cons.prems [of f] by (simp add: read_next_cong)
  then show ?case using Cons by simp
qed

lemma pool_cong:
  assumes "pool s ps" "\<And>p. p \<in> set ps \<Longrightarrow> same_frame (ram s) (ram s') (ttbr1_to_va p)"
    "FREE_FRAME_LIST s' = FREE_FRAME_LIST s" "FREE_FRAME_COUNT s' = FREE_FRAME_COUNT s"
  shows "pool s' ps"
proof -
  have "free_list (ram s) (FREE_FRAME_LIST s) (map ttbr1_to_va ps)
      = free_list (ram s') (FREE_FRAME_LIST s) (map ttbr1_to_va ps)"
    using assms by (intro free_list_cong) (auto simp: pool_def frame_va_aligned)
  then show ?thesis using assms by (simp add: pool_def)
qed

lemma get_free_frame_pa_empty: "pool s [] \<Longrightarrow> get_free_frame_pa s = (None, s)"
  by (simp add: pool_def get_free_frame_pa_def)

lemma get_free_frame_pa_Cons:
  assumes "pool s (p # ps)"
  obtains s' where "get_free_frame_pa s = (Some p, s')" "pool s' ps" "ram s' = ram s"
    "ttbr0_el1 s' = ttbr0_el1 s" "TOTAL_FRAME_COUNT s' = TOTAL_FRAME_COUNT s"
proof
  let ?s' = "s\<lparr>FREE_FRAME_LIST := read_next (ram s) (ttbr1_to_va p), FREE_FRAME_COUNT := FREE_FRAME_COUNT s - 1\<rparr>"
  show "get_free_frame_pa s = (Some p, ?s')"
    using assms by (simp add: get_free_frame_pa_def pool_def)
  show "pool ?s' ps" using assms by (simp add: pool_def)
qed simp_all

lemma add_free_frame_fields:
  assumes "page_aligned f"
  shows "ram (add_free_frame f s) = write_next (write_bytes (ram s) f 0 4096) f (FREE_FRAME_LIST s)"
    and "FREE_FRAME_LIST (add_free_frame f s) = Some f"
    and "FREE_FRAME_COUNT (add_free_frame f s) = FREE_FRAME_COUNT s + 1"
    and "TOTAL_FRAME_COUNT (add_free_frame f s) = TOTAL_FRAME_COUNT s"
    and "ttbr0_el1 (add_free_frame f s) = ttbr0_el1 s"
proof -
  have "f AND NOT (PAGE_SIZE - 1) = f"
    using frame_of_aligned [OF assms] by (simp add: frame_of_def PAGE_SIZE_def)
  then show "ram (add_free_frame f s) = write_next (write_bytes (ram s) f 0 4096) f (FREE_FRAME_LIST s)"
    "FREE_FRAME_LIST (add_free_frame f s) = Some f"
    "FREE_FRAME_COUNT (add_free_frame f s) = FREE_FRAME_COUNT s + 1"
    "TOTAL_FRAME_COUNT (add_free_frame f s) = TOTAL_FRAME_COUNT s"
    "ttbr0_el1 (add_free_frame f s) = ttbr0_el1 s"
    by (simp_all only: add_free_frame_def Let_def zero_frame_def) (simp_all add: PAGE_SIZE_def)
qed

lemma add_free_frame_other:
  "page_aligned f \<Longrightarrow> g \<noteq> f \<Longrightarrow> same_frame (ram s) (ram (add_free_frame f s)) g"
  by (simp add: add_free_frame_fields)
    (rule same_frame_trans [OF same_frame_write_bytes same_frame_write_next], auto)

lemma add_free_frame_pool:
  assumes "pool s ps" "is_frame_pa p" "p \<notin> set ps"
  shows "pool (add_free_frame (ttbr1_to_va p) s) (p # ps)"
proof -
  let ?f = "ttbr1_to_va p" and ?s' = "add_free_frame (ttbr1_to_va p) s"
  have al: "page_aligned ?f" using assms(2) by (rule frame_va_aligned)
  have "same_frame (ram s) (ram ?s') (ttbr1_to_va q) \<and> page_aligned (ttbr1_to_va q)" if "q \<in> set ps" for q
    using that assms al
    by (intro conjI add_free_frame_other) (auto simp: pool_def frame_va_aligned)
  then have "free_list (ram s) (FREE_FRAME_LIST s) (map ttbr1_to_va ps)
      = free_list (ram ?s') (FREE_FRAME_LIST s) (map ttbr1_to_va ps)"
    by (intro free_list_cong) auto
  then show ?thesis
    using assms al by (simp add: pool_def add_free_frame_fields)
qed

section \<open>The interface of the allocator\<close>

locale frame_pool =
  fixes pop :: "'s \<Rightarrow> 'f option \<times> 's"
    and push :: "'f \<Rightarrow> 's \<Rightarrow> 's"
    and holds :: "'s \<Rightarrow> 'f list \<Rightarrow> bool"
    and ok :: "'f \<Rightarrow> bool"
  assumes pop_empty: "holds s [] \<Longrightarrow> pop s = (None, s)"
    and pop_Cons: "holds s (f # fs) \<Longrightarrow> \<exists>s'. pop s = (Some f, s') \<and> holds s' fs"
    and push_Cons: "holds s fs \<Longrightarrow> ok f \<Longrightarrow> f \<notin> set fs \<Longrightarrow> holds (push f s) (f # fs)"
    and holds_ok: "holds s fs \<Longrightarrow> distinct fs \<and> (\<forall>f \<in> set fs. ok f)"
begin

lemma push_all:
  "holds s fs \<Longrightarrow> distinct (xs @ fs) \<Longrightarrow> (\<forall>x \<in> set xs. ok x) \<Longrightarrow> holds (fold push xs s) (rev xs @ fs)"
proof (induction xs arbitrary: s fs)
  case Nil
  then show ?case by simp
next
  case (Cons x xs)
  then have "holds (push x s) (x # fs)" by (simp add: push_Cons)
  moreover have "distinct (xs @ x # fs)" using Cons.prems(2) by auto
  ultimately show ?case using Cons.IH [of "push x s" "x # fs"] Cons.prems(3) by simp
qed

lemma pop_push:
  assumes "holds s (f # fs)" "pop s = (Some f, s')"
  shows "holds (push f s') (f # fs)"
proof -
  from assms have "holds s' fs" using pop_Cons [OF assms(1)] by auto
  with holds_ok [OF assms(1)] show ?thesis by (simp add: push_Cons)
qed

primrec pops :: "nat \<Rightarrow> 's \<Rightarrow> 'f list \<times> 's" where
  "pops 0 s = ([], s)"
| "pops (Suc n) s =
     (case pop s of (None, s') \<Rightarrow> ([], s') | (Some f, s') \<Rightarrow> (let (fs, s'') = pops n s' in (f # fs, s'')))"

lemma pops_take: "holds s fs \<Longrightarrow> \<exists>s'. pops n s = (take n fs, s') \<and> holds s' (drop n fs)"
proof (induction n arbitrary: s fs)
  case 0
  then show ?case by simp
next
  case (Suc n)
  show ?case
  proof (cases fs)
    case Nil
    with Suc.prems show ?thesis by (simp add: pop_empty)
  next
    case (Cons f gs)
    with Suc.prems obtain s1 where s1: "pop s = (Some f, s1)" "holds s1 gs"
      using pop_Cons by blast
    from Suc.IH [OF s1(2)] obtain s2 where "pops n s1 = (take n gs, s2)" "holds s2 (drop n gs)"
      by blast
    with s1 Cons show ?thesis by simp
  qed
qed

end

interpretation fp: frame_pool get_free_frame_pa "\<lambda>p. add_free_frame (ttbr1_to_va p)" pool is_frame_pa
proof unfold_locales
  show "\<exists>s'. get_free_frame_pa s = (Some f, s') \<and> pool s' fs" if "pool s (f # fs)" for s f fs
    using get_free_frame_pa_Cons [OF that] by metis
qed (auto simp: get_free_frame_pa_empty add_free_frame_pool, simp_all add: pool_def)

lemma ceil_bound: "k < (x + 4095) div 4096 \<Longrightarrow> 4096 * k < (x :: nat)"
  by linarith
lemma unat_add_pages:
  assumes "unat a + 4096 * k < 2 ^ 64"
  shows "unat (a + PAGE_SIZE * of_nat k) = unat a + 4096 * k"
proof -
  have "PAGE_SIZE * of_nat k = of_nat (4096 * k)" by (simp add: PAGE_SIZE_def)
  moreover have "unat (of_nat (4096 * k) :: u64) = 4096 * k" using assms by (intro unat_small) linarith
  ultimately show ?thesis using assms by (simp only: unat_word_ariths) (simp add: mod_less)
qed

lemma ttbr1_to_va_ge:
  assumes "0xffffff8000000000 \<le> v"
  shows "ttbr1_to_va v = v"
proof -
  define r where "r = v - 0xffffff8000000000"
  have "unat r = unat v - 0xffffff8000000000"
    using assms by (simp add: r_def unat_sub word_le_nat_alt)
  moreover have "unat v < 2 ^ 64" using unsigned_less [of v] by simp
  ultimately have "r < 2 ^ 39" by (simp add: word_less_nat_alt)
  then have "r AND mask 39 = r" by (simp add: less_mask_eq)
  then have "NOT (mask 39) AND r = 0"
    by (metis (no_types) bit.conj_cancel_left bit.conj_zero_right and.assoc and.commute)
  then have "NOT (mask 39) + r = NOT (mask 39) OR r"
    by (rule disjunctive_add_eq_or)
  moreover have "v = NOT (mask 39) + r" by (simp add: r_def flip: mask39)
  ultimately have "v = NOT (mask 39) OR r" by simp
  then show ?thesis by (simp add: ttbr1_to_va_def mask39 or.assoc or.commute or.left_commute)
qed


lemma step_by_page_frames:
  assumes "page_aligned a" "0xffffff8000000000 \<le> a" "a \<le> b"
  shows "distinct (step_by_page a b)" "f \<in> set (step_by_page a b) \<Longrightarrow> is_frame_va f \<and> a \<le> f \<and> f < b"
proof -
  let ?n = "(unat b - unat a + 4095) div 4096"
  have b: "unat b < 2 ^ 64" using unsigned_less [of b] by simp
  have u: "unat (a + PAGE_SIZE * of_nat k) = unat a + 4096 * k" "unat a + 4096 * k < unat b" if "k < ?n" for k
  proof -
    from ceil_bound [OF that] show l: "unat a + 4096 * k < unat b" by linarith
    then show "unat (a + PAGE_SIZE * of_nat k) = unat a + 4096 * k"
      using b by (intro unat_add_pages) linarith
  qed
  show "distinct (step_by_page a b)"
    unfolding step_by_page_def distinct_map
  proof (intro conjI inj_onI)
    fix k l
    assume kl: "k \<in> set [0..<?n]" "l \<in> set [0..<?n]"
      and eq: "a + PAGE_SIZE * of_nat k = a + PAGE_SIZE * of_nat l"
    have "unat a + 4096 * k = unat (a + PAGE_SIZE * of_nat k)" using kl by (intro u(1) [symmetric]) simp
    also have "\<dots> = unat (a + PAGE_SIZE * of_nat l)" by (simp only: eq)
    also have "\<dots> = unat a + 4096 * l" using kl by (intro u(1)) simp
    finally show "k = l" by simp
  qed simp
  assume "f \<in> set (step_by_page a b)"
  then obtain k where "k \<in> set [0..<?n]" and f: "f = a + PAGE_SIZE * of_nat k"
    unfolding step_by_page_def set_map by blast
  then have k: "k < ?n" by (simp only: set_upt atLeastLessThan_iff)
  then have "unat f = unat a + 4096 * k" "unat f < unat b"
    unfolding f by (simp_all only: u)
  with assms(1) have "page_aligned f" "a \<le> f" "f < b"
    by (auto simp: page_aligned_mod word_le_nat_alt word_less_nat_alt)
  with assms(2) show "is_frame_va f \<and> a \<le> f \<and> f < b"
    by (auto simp: is_frame_va_def intro: ttbr1_to_va_ge order_trans)
qed

lemma step_by_page_covers:
  assumes "page_aligned a" "a \<le> b" "page_aligned f" "a \<le> f" "f < b"
  shows "f \<in> set (step_by_page a b)"
proof -
  from assms(1,3) obtain q r where q: "unat a = 4096 * q" "unat f = 4096 * r"
    by (auto simp: page_aligned_mod elim!: dvdE)
  define k where "k = r - q"
  have le: "unat a \<le> unat f" "unat f < unat b"
    using assms(4,5) by (simp_all add: word_le_nat_alt word_less_nat_alt)
  then have f: "unat f = unat a + 4096 * k" using q by (simp add: k_def)
  have "unat (a + PAGE_SIZE * of_nat k) = unat f"
    using f unat_bound [of f] by (subst unat_add_pages) simp_all
  then have "f = a + PAGE_SIZE * of_nat k" by (simp add: word_unat_eq_iff)
  moreover have "k < (unat b - unat a + 4095) div 4096"
    using f le by linarith
  ultimately show ?thesis unfolding step_by_page_def by (auto simp del: diff_add_assoc2)
qed

lemma init_frames_pool:
  assumes "page_aligned a" "0xffffff8000000000 \<le> a" "a \<le> b"
    and "FREE_FRAME_LIST s = None" "FREE_FRAME_COUNT s = 0"
  shows "pool (init_frames a b s) (rev (map ttbr1_to_pa (step_by_page a b)))"
proof -
  let ?vs = "step_by_page a b" and ?add = "\<lambda>p. add_free_frame (ttbr1_to_va p)"
  let ?ps = "map ttbr1_to_pa ?vs"
  have vs: "map ttbr1_to_va ?ps = ?vs"
    using step_by_page_frames(2) [OF assms(1-3)] by (simp add: map_idI)
  have "distinct ?ps"
    using step_by_page_frames(1) [OF assms(1-3)] vs by (metis distinct_map)
  moreover have "\<forall>p \<in> set ?ps. is_frame_pa p"
    using step_by_page_frames(2) [OF assms(1-3)] by (auto simp: is_frame_va_def)
  moreover have "pool s []" using assms(4,5) by (simp add: pool_def)
  ultimately have "pool (fold ?add ?ps s) (rev ?ps)"
    using fp.push_all [of s "[]" ?ps] by simp
  moreover have "fold ?add ?ps = fold add_free_frame ?vs"
    using fold_map [of add_free_frame ttbr1_to_va ?ps] by (simp only: vs comp_def)
  ultimately show ?thesis by (simp add: init_frames_def Let_def pool_def)
qed

section \<open>Properties\<close>

text \<open>At boot \<open>init_frames\<close> builds, on an empty allocator, a free list that holds every frame of the
  region from the first to the last address and no other, each once; both counters are its length.\<close>

lemma init_frames_correct:
  assumes "page_aligned a" "0xffffff8000000000 \<le> a" "a \<le> b"
    and "FREE_FRAME_LIST s = None" "FREE_FRAME_COUNT s = 0"
  shows "\<exists>ps. pool (init_frames a b s) ps
      \<and> set (map ttbr1_to_va ps) = {f. page_aligned f \<and> a \<le> f \<and> f < b}
      \<and> FREE_FRAME_COUNT (init_frames a b s) = of_nat (length ps)
      \<and> TOTAL_FRAME_COUNT (init_frames a b s) = of_nat (length ps)
      \<and> available_memory (init_frames a b s) = total_memory (init_frames a b s)"
proof (intro exI conjI)
  let ?ps = "rev (map ttbr1_to_pa (step_by_page a b))"
  show p: "pool (init_frames a b s) ?ps" using assms by (rule init_frames_pool)
  have "map ttbr1_to_va (map ttbr1_to_pa (step_by_page a b)) = step_by_page a b"
    using step_by_page_frames(2) [OF assms(1-3)] by (simp add: map_idI)
  then have "set (map ttbr1_to_va ?ps) = set (step_by_page a b)" by (metis rev_map set_rev)
  also have "\<dots> = {f. page_aligned f \<and> a \<le> f \<and> f < b}"
    using step_by_page_frames(2) [OF assms(1-3)] step_by_page_covers [OF assms(1,3)]
    by (auto simp: is_frame_va_def)
  finally show "set (map ttbr1_to_va ?ps) = {f. page_aligned f \<and> a \<le> f \<and> f < b}" .
  show c: "FREE_FRAME_COUNT (init_frames a b s) = of_nat (length ?ps)" using p by (simp add: pool_def)
  show "TOTAL_FRAME_COUNT (init_frames a b s) = of_nat (length ?ps)"
    "available_memory (init_frames a b s) = total_memory (init_frames a b s)"
    using c by (simp_all add: init_frames_def Let_def available_memory_def total_memory_def)
qed

definition boot_pg :: pgstate where
  "boot_pg = \<lparr>ram = (\<lambda>_. 0), FREE_FRAME_LIST = None, FREE_FRAME_COUNT = 0,
     TOTAL_FRAME_COUNT = 0, ttbr0_el1 = 0\<rparr>"

lemma init_frames_correct_example:
  "\<exists>ps. pool (init_frames 0xffffff8000100000 0xffffff8000104000 boot_pg) ps
      \<and> set (map ttbr1_to_va ps) = {f. page_aligned f \<and> 0xffffff8000100000 \<le> f \<and> f < 0xffffff8000104000}"
proof -
  have "page_aligned 0xffffff8000100000" by (simp add: page_aligned_def)
  moreover have "FREE_FRAME_LIST boot_pg = None" "FREE_FRAME_COUNT boot_pg = 0"
    by (simp_all add: boot_pg_def)
  ultimately show ?thesis
    using init_frames_correct [where a = "0xffffff8000100000" and b = "0xffffff8000104000" and s = boot_pg]
    by auto
qed

text \<open>C10. Taking a frame pops the head of the abstract list without touching memory (or reports that
  there is none and changes nothing), and returning a frame that is not free pushes it.\<close>

theorem frame_allocator_refines_stack:
  assumes "pool s ps"
  shows "(case ps of [] \<Rightarrow> get_free_frame_pa s = (None, s)
     | p # qs \<Rightarrow> (\<exists>s'. get_free_frame_pa s = (Some p, s') \<and> pool s' qs \<and> ram s' = ram s))
    \<and> (\<forall>q. is_frame_pa q \<and> q \<notin> set ps \<longrightarrow> pool (add_free_frame (ttbr1_to_va q) s) (q # ps))"
  using assms
  by (cases ps) (auto simp: fp.pop_empty fp.push_Cons elim: get_free_frame_pa_Cons)

theorem frame_allocator_refines_stack_witness:
  "get_free_frame_pa boot_pg = (None, boot_pg)
   \<and> pool (add_free_frame (ttbr1_to_va 0x100000) boot_pg) [0x100000]"
proof -
  have p: "pool boot_pg []" by (simp add: pool_def boot_pg_def)
  have "is_frame_pa 0x100000" by (simp add: is_frame_pa_def page_aligned_def ttbr1_to_pa_def)
  then show ?thesis
    using frame_allocator_refines_stack [OF p] by simp
qed

end
