(* ===== verification/PageTable.thy ===== *)
theory PageTable
  imports FrameAlloc
begin

text \<open>
  The translation tables of \<^verbatim>\<open>src/src/kernel/paging.rs\<close>: table entries in memory, the three-level walk
  (\<^verbatim>\<open>ttbr0_to_pa\<close>), \<^verbatim>\<open>alloc_page\<close>, \<^verbatim>\<open>free_page\<close>, \<^verbatim>\<open>free_page_table\<close> and \<^verbatim>\<open>duplicate_va_space\<close> with their
  recursive workers. Tables are addressed by physical address and read and written through the kernel's linear map.
  \<^verbatim>\<open>None\<close> for the argument \<^verbatim>\<open>ttbr0_val\<close> means the table in \<^verbatim>\<open>TTBR0_EL1\<close>. The barriers and
  TLB instructions have no counterpart: the model's walk always reads memory.
\<close>

definition PAGE_ENTRIES :: nat where "PAGE_ENTRIES = 512"

definition PA_MASK :: u64 where "PA_MASK = 0x0000FFFFFFFFF000"

definition entry :: "ram \<Rightarrow> u64 \<Rightarrow> nat \<Rightarrow> u64" where
  "entry m table_pa i = ld64 m (slot (ttbr1_to_va table_pa) i)"

definition set_entry :: "u64 \<Rightarrow> nat \<Rightarrow> u64 \<Rightarrow> pgstate \<Rightarrow> pgstate" where
  "set_entry table_pa i e s = s\<lparr>ram := st64 (ram s) (slot (ttbr1_to_va table_pa) i) e\<rparr>"

definition fill_zero :: "u64 \<Rightarrow> pgstate \<Rightarrow> pgstate" where
  "fill_zero table_pa s = s\<lparr>ram := write_bytes (ram s) (ttbr1_to_va table_pa) 0 4096\<rparr>"

definition is_valid :: "u64 \<Rightarrow> bool" where
  "is_valid e \<longleftrightarrow> e AND 0b11 = 0b11"

definition entry_pa :: "u64 \<Rightarrow> u64" where
  "entry_pa e = e AND PA_MASK"

definition l1_i :: "u64 \<Rightarrow> nat" where "l1_i va = unat (drop_bit 30 va AND 0x1FF)"
definition l2_i :: "u64 \<Rightarrow> nat" where "l2_i va = unat (drop_bit 21 va AND 0x1FF)"
definition l3_i :: "u64 \<Rightarrow> nat" where "l3_i va = unat (drop_bit 12 va AND 0x1FF)"

definition translation_table :: "u64 option \<Rightarrow> pgstate \<Rightarrow> u64" where
  "translation_table ttbr0_val s =
     (case ttbr0_val of Some pa \<Rightarrow> pa | None \<Rightarrow> ttbr0_el1 s AND PA_MASK)"

definition ttbr0_to_pa :: "u64 \<Rightarrow> u64 option \<Rightarrow> pgstate \<Rightarrow> u64 option" where
  "ttbr0_to_pa va ttbr0_val s =
     (let e1 = entry (ram s) (translation_table ttbr0_val s) (l1_i va) in
      if \<not> is_valid e1 then None else
      let e2 = entry (ram s) (entry_pa e1) (l2_i va) in
      if \<not> is_valid e2 then None else
      let e3 = entry (ram s) (entry_pa e2) (l3_i va) in
      if \<not> is_valid e3 then None else
      Some (entry_pa e3 + (va AND 0xFFF)))"

definition ttbr0_to_ttbr1 :: "u64 \<Rightarrow> u64 option \<Rightarrow> pgstate \<Rightarrow> u64 option" where
  "ttbr0_to_ttbr1 va ttbr0_val s = map_option ttbr1_to_va (ttbr0_to_pa va ttbr0_val s)"

definition ensure_table :: "u64 \<Rightarrow> nat \<Rightarrow> string \<Rightarrow> pgstate \<Rightarrow> halt + pgstate" where
  "ensure_table table_pa i msg s =
     (if \<not> is_valid (entry (ram s) table_pa i)
      then (case get_free_frame_pa s of
              (Some new_pa, s) \<Rightarrow> Inr (fill_zero new_pa (set_entry table_pa i (new_pa OR 0b11) s))
            | (None, s) \<Rightarrow> Inl (Panic msg))
      else Inr s)"

definition PAGE_FLAGS :: u64 where
  "PAGE_FLAGS = push_bit 0 1 OR push_bit 1 1 OR push_bit 6 0b01 OR push_bit 8 0b11 OR push_bit 10 1
     OR push_bit 53 1 OR push_bit 11 1 OR push_bit 2 1"

definition alloc_page :: "u64 \<Rightarrow> u64 option \<Rightarrow> pgstate \<Rightarrow> halt + (u64 \<times> pgstate)" where
  "alloc_page va ttbr0_val s =
     (let l1 = translation_table ttbr0_val s in
      if ttbr0_to_pa va ttbr0_val s \<noteq> None then Inl (Panic ''Page already allocated at va: '') else
      kbind (ensure_table l1 (l1_i va) ''No free frames available for new L2 page table'' s) (\<lambda>s.
      let l2 = entry_pa (entry (ram s) l1 (l1_i va)) in
      kbind (ensure_table l2 (l2_i va) ''No free frames available for new L3 page table'' s) (\<lambda>s.
      let l3 = entry_pa (entry (ram s) l2 (l2_i va)) in
      if \<not> is_valid (entry (ram s) l3 (l3_i va))
      then (case get_free_frame_pa s of
              (Some frame, s) \<Rightarrow>
                (let s = set_entry l3 (l3_i va) (frame OR PAGE_FLAGS) s
                 in Inr (entry_pa (entry (ram s) l3 (l3_i va)), s))
            | (None, s) \<Rightarrow> Inl (Panic ''No free frames available for new page table entry''))
      else Inl (Panic ''Page already allocated at va: ''))))"

definition free_page :: "u64 \<Rightarrow> u64 option \<Rightarrow> pgstate \<Rightarrow> pgstate" where
  "free_page va_in_page ttbr0_val s =
     (let l1 = translation_table ttbr0_val s;
          e1 = entry (ram s) l1 (l1_i va_in_page) in
      if \<not> is_valid e1 then s else
      let e2 = entry (ram s) (entry_pa e1) (l2_i va_in_page) in
      if \<not> is_valid e2 then s else
      let l3 = entry_pa e2; e3 = entry (ram s) l3 (l3_i va_in_page) in
      if \<not> is_valid e3 then s else
      add_free_frame (ttbr1_to_va (entry_pa e3)) (set_entry l3 (l3_i va_in_page) 0 s))"

function do_free_table_recursive :: "u64 \<Rightarrow> nat \<Rightarrow> pgstate \<Rightarrow> pgstate" where
  "do_free_table_recursive ttpa level s =
     (if level > 3 then s else
      let s = fold (\<lambda>i s.
            let e = entry (ram s) ttpa i in
            if is_valid e then
              (if level < 3 then do_free_table_recursive (entry_pa e) (level + 1) s
               else add_free_frame (ttbr1_to_va (entry_pa e)) (set_entry ttpa i 0 s))
            else s) [0..<PAGE_ENTRIES] s
      in add_free_frame (ttbr1_to_va ttpa) s)"
  by pat_completeness auto
termination
  by (relation "measure (\<lambda>(t, level, s). 4 - level)") auto

definition free_page_table :: "u64 option \<Rightarrow> pgstate \<Rightarrow> pgstate" where
  "free_page_table ttbr0_val s = do_free_table_recursive (translation_table ttbr0_val s) 1 s"

function do_duplicate_table_recursive ::
  "u64 \<Rightarrow> u64 \<Rightarrow> nat \<Rightarrow> pgstate \<Rightarrow> (string + unit) \<times> pgstate" where
  "do_duplicate_table_recursive src_ttpa dst_ttpa level s =
     (if level > 3 then (Inr (), s) else
      for_result (\<lambda>i s.
        let src_entry = entry (ram s) src_ttpa i in
        if is_valid src_entry then
          (let old_pa = entry_pa src_entry; flags = src_entry AND NOT PA_MASK in
           if level < 3 then
             (case get_free_frame_pa s of
                (None, s) \<Rightarrow> (Inl ''Out of memory: failed to allocate intermediate page table'', s)
              | (Some new_table_pa, s) \<Rightarrow>
                  do_duplicate_table_recursive old_pa new_table_pa (level + 1)
                    (set_entry dst_ttpa i (new_table_pa OR flags) (fill_zero new_table_pa s)))
           else
             (case get_free_frame_pa s of
                (None, s) \<Rightarrow> (Inl ''Out of memory: failed to allocate data frame for child process'', s)
              | (Some new_frame_pa, s) \<Rightarrow>
                  (Inr (), set_entry dst_ttpa i (new_frame_pa OR flags)
                     (s\<lparr>ram := copy_bytes (ram s) (ttbr1_to_va old_pa) (ttbr1_to_va new_frame_pa) 4096\<rparr>))))
        else (Inr (), s)) [0..<PAGE_ENTRIES] s)"
  by pat_completeness auto
termination
  by (relation "measure (\<lambda>(a, b, level, s). 4 - level)") auto

definition duplicate_va_space :: "u64 option \<Rightarrow> pgstate \<Rightarrow> (string + u64) \<times> pgstate" where
  "duplicate_va_space ttbr0_val s =
     (let src = translation_table ttbr0_val s in
      case get_free_frame_pa s of
        (None, s) \<Rightarrow> (Inl ''No more memory to allocate new translation table for child process'', s)
      | (Some dst, s) \<Rightarrow>
          (case do_duplicate_table_recursive src dst 1 (fill_zero dst s) of
             (Inl e, s) \<Rightarrow> (Inl e, free_page_table (Some dst) s)
           | (Inr _, s) \<Rightarrow> (Inr dst, s)))"

declare do_free_table_recursive.simps [simp del] do_duplicate_table_recursive.simps [simp del]

end
