(* ===== verification/PageTree.thy ===== *)
theory PageTree
  imports PageTable
begin

text \<open>
  What a translation table reaches: \<open>tree_frames m level f\<close> lists the table frame \<open>f\<close> with every table and data frame below it,
  \<open>tree_tables\<close> only the tables, \<open>node\<close> follows a list of indices, and \<open>wf_tree\<close> says that all frames are distinct and
  page-aligned physical addresses. A tree depends on the memory of its tables only.
\<close>

section \<open>The tree below a translation table\<close>

function tree_frames :: "ram \<Rightarrow> nat \<Rightarrow> u64 \<Rightarrow> u64 list" where
  "tree_frames m level f =
     (if level > 3 then [f]
      else f # concat (map (\<lambda>i. if is_valid (entry m f i)
             then tree_frames m (level + 1) (entry_pa (entry m f i)) else []) [0..<PAGE_ENTRIES]))"
  by pat_completeness auto
termination
  by (relation "measure (\<lambda>(m, level, f). 4 - level)") auto

function tree_tables :: "ram \<Rightarrow> nat \<Rightarrow> u64 \<Rightarrow> u64 list" where
  "tree_tables m level f =
     (if level > 3 then []
      else f # concat (map (\<lambda>i. if is_valid (entry m f i)
             then tree_tables m (level + 1) (entry_pa (entry m f i)) else []) [0..<PAGE_ENTRIES]))"
  by pat_completeness auto
termination
  by (relation "measure (\<lambda>(m, level, f). 4 - level)") auto

declare tree_frames.simps [simp del] tree_tables.simps [simp del]

definition kids :: "ram \<Rightarrow> nat \<Rightarrow> u64 \<Rightarrow> nat \<Rightarrow> u64 list" where
  "kids m level f i = (if is_valid (entry m f i) then tree_frames m (level + 1) (entry_pa (entry m f i)) else [])"

fun node :: "ram \<Rightarrow> u64 \<Rightarrow> nat list \<Rightarrow> u64 option" where
  "node m f [] = Some f"
| "node m f (k # ks) = (if is_valid (entry m f k) then node m (entry_pa (entry m f k)) ks else None)"

lemma tree_frames_leaf [simp]: "level > 3 \<Longrightarrow> tree_frames m level f = [f]"
  by (subst tree_frames.simps) simp

lemma tree_frames_table: "level \<le> 3 \<Longrightarrow> tree_frames m level f = f # concat (map (kids m level f) [0..<512])"
  by (subst tree_frames.simps) (simp add: kids_def [abs_def] PAGE_ENTRIES_def)

lemma tree_tables_leaf [simp]: "level > 3 \<Longrightarrow> tree_tables m level f = []"
  by (subst tree_tables.simps) simp

lemma set_tree_tables:
  "level \<le> 3 \<Longrightarrow> set (tree_tables m level f) =
     insert f (\<Union>i \<in> {i. i < 512 \<and> is_valid (entry m f i)}. set (tree_tables m (level + 1) (entry_pa (entry m f i))))"
  by (subst tree_tables.simps) (auto simp: PAGE_ENTRIES_def split: if_splits)

lemma root_in_tree [simp]: "f \<in> set (tree_frames m level f)"
  by (subst tree_frames.simps) simp

lemma kids_in_tree: "level \<le> 3 \<Longrightarrow> i < 512 \<Longrightarrow> g \<in> set (kids m level f i) \<Longrightarrow> g \<in> set (tree_frames m level f)"
  by (auto simp: tree_frames_table)

lemma kidsD: "g \<in> set (kids m level f i) \<Longrightarrow> is_valid (entry m f i) \<and> g \<in> set (tree_frames m (level + 1) (entry_pa (entry m f i)))"
  by (auto simp: kids_def split: if_splits)

lemma level_induct [case_names leaf table]:
  assumes "\<And>level. level > 3 \<Longrightarrow> P level" "\<And>level. level \<le> 3 \<Longrightarrow> P (level + 1) \<Longrightarrow> P level"
  shows "P (level :: nat)"
proof (induction "4 - level" arbitrary: level)
  case 0
  then show ?case using assms(1) by simp
next
  case (Suc x)
  then have "P (level + 1)" by simp
  with Suc.hyps(2) show ?case using assms(2) by simp
qed

lemma tables_subset: "set (tree_tables m level f) \<subseteq> set (tree_frames m level f)"
proof (induction level arbitrary: f rule: level_induct)
  case (leaf level)
  then show ?case by simp
next
  case (table level)
  then show ?case by (fastforce simp: set_tree_tables tree_frames_table kids_def)
qed

section \<open>Trees in an unchanged part of memory\<close>

lemma entry_cong: "same_frame m m' (ttbr1_to_va f) \<Longrightarrow> is_frame_pa f \<Longrightarrow> i < 512 \<Longrightarrow> entry m' f i = entry m f i"
  unfolding entry_def by (rule same_frame_ld64 [symmetric]) (simp_all add: frame_va_aligned)

lemma tree_cong:
  "(\<And>g. g \<in> set (tree_tables m level f) \<Longrightarrow> same_frame m m' (ttbr1_to_va g) \<and> is_frame_pa g)
   \<Longrightarrow> tree_frames m' level f = tree_frames m level f"
proof (induction level arbitrary: f rule: level_induct)
  case (leaf level)
  then show ?case by simp
next
  case (table level)
  have e: "entry m' f i = entry m f i" if "i < 512" for i
    using table.prems [of f] table.hyps that by (intro entry_cong) (auto simp: set_tree_tables)
  have "kids m' level f i = kids m level f i" if "i < 512" for i
  proof (cases "is_valid (entry m f i)")
    case True
    then have "tree_frames m' (level + 1) (entry_pa (entry m f i)) = tree_frames m (level + 1) (entry_pa (entry m f i))"
      using table.prems table.hyps that by (intro table.IH) (auto simp: set_tree_tables)
    then show ?thesis by (simp add: kids_def e that)
  next
    case False
    then show ?thesis by (simp add: kids_def e that)
  qed
  then have "map (kids m' level f) [0..<512] = map (kids m level f) [0..<512]" by simp
  then show ?case by (simp only: tree_frames_table [OF table.hyps(1)])
qed

lemma node_cong:
  "(\<And>g. g \<in> set (tree_tables m level f) \<Longrightarrow> same_frame m m' (ttbr1_to_va g) \<and> is_frame_pa g)
   \<Longrightarrow> level + length ks \<le> 4 \<Longrightarrow> set ks \<subseteq> {..<512} \<Longrightarrow> node m' f ks = node m f ks"
proof (induction ks arbitrary: f level)
  case Nil
  then show ?case by simp
next
  case (Cons k ks)
  then have l: "level \<le> 3" and k: "k < 512" by auto
  have e: "entry m' f k = entry m f k"
    using Cons.prems(1) [of f] l k by (intro entry_cong) (auto simp: set_tree_tables)
  show ?case
  proof (cases "is_valid (entry m f k)")
    case True
    then have "node m' (entry_pa (entry m f k)) ks = node m (entry_pa (entry m f k)) ks"
      using Cons.prems l k by (intro Cons.IH [of "level + 1"]) (auto simp: set_tree_tables)
    then show ?thesis by (simp add: e)
  next
    case False
    then show ?thesis by (simp add: e)
  qed
qed

lemma node_append: "node m f (ks @ ls) = Option.bind (node m f ks) (\<lambda>g. node m g ls)"
  by (induction ks arbitrary: f) auto

lemma node_in_tree:
  "node m f ks = Some t \<Longrightarrow> level + length ks \<le> 4 \<Longrightarrow> set ks \<subseteq> {..<512} \<Longrightarrow> t \<in> set (tree_frames m level f)"
proof (induction ks arbitrary: f level)
  case Nil
  then show ?case by simp
next
  case (Cons k ks)
  then have "t \<in> set (tree_frames m (level + 1) (entry_pa (entry m f k)))"
    by (intro Cons.IH [of _ "level + 1"]) (auto split: if_splits)
  then have "t \<in> set (kids m level f k)" using Cons.prems(1) by (auto simp: kids_def split: if_splits)
  then show ?case using Cons.prems by (intro kids_in_tree) auto
qed

section \<open>Distinct frames\<close>

definition wf_tree :: "ram \<Rightarrow> nat \<Rightarrow> u64 \<Rightarrow> bool" where
  "wf_tree m level f \<longleftrightarrow> distinct (tree_frames m level f) \<and> (\<forall>g \<in> set (tree_frames m level f). is_frame_pa g)"

lemma distinct_concat_map_nth:
  "distinct (concat (map g [0..<n])) \<Longrightarrow> i < n \<Longrightarrow> j < n \<Longrightarrow> i \<noteq> j \<Longrightarrow> x \<in> set (g i) \<Longrightarrow> x \<notin> set (g j)"
proof (induction n)
  case 0
  then show ?case by simp
next
  case (Suc n)
  then show ?case by (fastforce simp: less_Suc_eq)
qed

lemma distinct_concat_map_elem: "distinct (concat (map g [0..<n])) \<Longrightarrow> i < n \<Longrightarrow> distinct (g i)"
  by (induction n) (auto simp: less_Suc_eq)

lemma wf_tree_parts:
  assumes "wf_tree m level f" "level \<le> 3" "i < 512"
  shows "f \<notin> set (kids m level f i)"
    and "j < 512 \<Longrightarrow> i \<noteq> j \<Longrightarrow> g \<in> set (kids m level f i) \<Longrightarrow> g \<notin> set (kids m level f j)"
    and "is_valid (entry m f i) \<Longrightarrow> wf_tree m (level + 1) (entry_pa (entry m f i))"
    and "is_frame_pa f"
proof -
  from assms have d: "distinct (f # concat (map (kids m level f) [0..<512]))"
    by (simp add: wf_tree_def tree_frames_table)
  show "f \<notin> set (kids m level f i)" using d assms(3) by auto
  show "j < 512 \<Longrightarrow> i \<noteq> j \<Longrightarrow> g \<in> set (kids m level f i) \<Longrightarrow> g \<notin> set (kids m level f j)"
    using d assms(3) distinct_concat_map_nth [of "kids m level f" 512 i j g] by simp
  show "is_frame_pa f" using assms(1) by (simp add: wf_tree_def)
  assume v: "is_valid (entry m f i)"
  have "distinct (kids m level f i)" using d assms(3) distinct_concat_map_elem [of "kids m level f" 512 i] by simp
  moreover have "\<forall>g \<in> set (kids m level f i). is_frame_pa g"
    using assms by (auto simp: wf_tree_def intro: kids_in_tree)
  ultimately show "wf_tree m (level + 1) (entry_pa (entry m f i))" using v by (simp add: wf_tree_def kids_def)
qed

lemma mset_tree_update:
  assumes "level \<le> 3" "k < 512"
    and "\<And>j. j < 512 \<Longrightarrow> j \<noteq> k \<Longrightarrow> kids m' level f j = kids m level f j"
    and "mset (kids m' level f k) + A = mset (kids m level f k) + B"
  shows "mset (tree_frames m' level f) + A = mset (tree_frames m level f) + B"
proof -
  have s: "mset (concat (map (kids x level f) [0..<512])) =
      mset (kids x level f k) + (\<Sum>j \<in> {0..<512} - {k}. mset (kids x level f j))" for x
  proof -
    have "mset (concat (map (kids x level f) [0..<512])) = (\<Sum>j \<in> {0..<512}. mset (kids x level f j))"
      by (simp add: mset_concat comp_def interv_sum_list_conv_sum_set_nat)
    also have "\<dots> = mset (kids x level f k) + (\<Sum>j \<in> {0..<512} - {k}. mset (kids x level f j))"
      using assms(2) by (intro sum.remove) auto
    finally show ?thesis .
  qed
  have "(\<Sum>j \<in> {0..<512} - {k}. mset (kids m' level f j)) = (\<Sum>j \<in> {0..<512} - {k}. mset (kids m level f j))"
    using assms(3) by (intro sum.cong) auto
  then show ?thesis
    using assms(1,4) by (simp add: tree_frames_table s)
qed

end
