(* ===== verification/PageAlloc.thy ===== *)
theory PageAlloc
  imports PageTree
begin

text \<open>
  Frame conditions and local changes. \<open>keeps F m m'\<close> says that every frame outside \<open>F\<close> has the same contents in both
  memories. The lemmas compute what changing one slot of one table does to the whole tree, and how the entries the
  kernel writes are read back.
\<close>

section \<open>Changing one slot of a tree\<close>

definition keeps :: "u64 set \<Rightarrow> ram \<Rightarrow> ram \<Rightarrow> bool" where
  "keeps F m m' \<longleftrightarrow> (\<forall>p. is_frame_pa p \<and> p \<notin> F \<longrightarrow> same_frame m m' (ttbr1_to_va p))"

lemma keeps_refl [simp]: "keeps F m m"
  by (simp add: keeps_def)

lemma keeps_trans: "keeps F m m' \<Longrightarrow> keeps G m' m'' \<Longrightarrow> keeps (F \<union> G) m m''"
  unfolding keeps_def by (blast intro: same_frame_trans)

lemma keeps_mono: "keeps F m m' \<Longrightarrow> F \<subseteq> G \<Longrightarrow> keeps G m m'"
  unfolding keeps_def by blast

lemma keeps_sym: "keeps F m m' \<Longrightarrow> keeps F m' m"
  by (simp add: keeps_def same_frame_sym)

lemma keeps_set_entry: "is_frame_pa t \<Longrightarrow> i < 512 \<Longrightarrow> keeps {t} (ram s) (ram (set_entry t i e s))"
  unfolding keeps_def set_entry_def by (auto simp: frame_va_aligned)

lemma keeps_fill_zero: "is_frame_pa t \<Longrightarrow> keeps {t} (ram s) (ram (fill_zero t s))"
  unfolding keeps_def fill_zero_def by (auto simp: frame_va_aligned)

lemma keeps_add_free_frame: "is_frame_pa t \<Longrightarrow> keeps {t} (ram s) (ram (add_free_frame (ttbr1_to_va t) s))"
  unfolding keeps_def by (simp add: frame_va_aligned add_free_frame_other)

lemma keeps_tree:
  assumes "keeps F m m'" "wf_tree m level f" "F \<inter> set (tree_tables m level f) = {}"
  shows "tree_frames m' level f = tree_frames m level f"
    and "level + length ks \<le> 4 \<Longrightarrow> set ks \<subseteq> {..<512} \<Longrightarrow> node m' f ks = node m f ks"
    and "wf_tree m' level f"
proof -
  have k: "same_frame m m' (ttbr1_to_va g) \<and> is_frame_pa g" if "g \<in> set (tree_tables m level f)" for g
    using that assms tables_subset [of m level f] by (auto simp: keeps_def wf_tree_def)
  then show e: "tree_frames m' level f = tree_frames m level f" by (rule tree_cong)
  then show "wf_tree m' level f" using assms(2) by (simp add: wf_tree_def)
  from k show "level + length ks \<le> 4 \<Longrightarrow> set ks \<subseteq> {..<512} \<Longrightarrow> node m' f ks = node m f ks" by (rule node_cong)
qed

lemma keeps_entry: "keeps F m m' \<Longrightarrow> is_frame_pa f \<Longrightarrow> f \<notin> F \<Longrightarrow> i < 512 \<Longrightarrow> entry m' f i = entry m f i"
  by (simp add: keeps_def entry_cong)

lemma keeps_kids:
  assumes "keeps F m m'" "wf_tree m level f" "level \<le> 3" "j < 512"
    and "entry m' f j = entry m f j" "F \<inter> set (kids m level f j) = {}"
  shows "kids m' level f j = kids m level f j"
proof (cases "is_valid (entry m f j)")
  case True
  then have "tree_frames m' (level + 1) (entry_pa (entry m f j)) = tree_frames m (level + 1) (entry_pa (entry m f j))"
    using assms tables_subset [of m "level + 1" "entry_pa (entry m f j)"]
    by (intro keeps_tree(1) [OF assms(1)] wf_tree_parts(3)) (auto simp: kids_def)
  then show ?thesis by (simp add: kids_def assms(5))
qed (simp add: kids_def assms(5))

lemma node_distinct:
  assumes "wf_tree m level f" "level \<le> 3" "k < 512" "is_valid (entry m f k)"
    and "node m (entry_pa (entry m f k)) ks = Some t" "level + length ks \<le> 3" "set ks \<subseteq> {..<512}"
  shows "t \<in> set (kids m level f k)" "t \<noteq> f" "\<And>j. j < 512 \<Longrightarrow> j \<noteq> k \<Longrightarrow> t \<notin> set (kids m level f j)"
proof -
  show t: "t \<in> set (kids m level f k)"
    using assms node_in_tree [of m "entry_pa (entry m f k)" ks t "level + 1"] by (simp add: kids_def)
  then show "t \<noteq> f" using wf_tree_parts(1) [OF assms(1-3)] by auto
  show "\<And>j. j < 512 \<Longrightarrow> j \<noteq> k \<Longrightarrow> t \<notin> set (kids m level f j)"
    using wf_tree_parts(2) [OF assms(1-3)] t by metis
qed

lemma tree_graft:
  assumes "node m f ks = Some t" "set ks \<subseteq> {..<512}" "level + length ks \<le> 3" "i < 512"
    and "wf_tree m level f" "N \<inter> set (tree_frames m level f) = {}"
    and "keeps (insert t N) m m'"
    and "\<And>j. j < 512 \<Longrightarrow> j \<noteq> i \<Longrightarrow> entry m' t j = entry m t j"
    and "mset (kids m' (level + length ks) t i) + A = mset (kids m (level + length ks) t i) + B"
  shows "mset (tree_frames m' level f) + A = mset (tree_frames m level f) + B"
  using assms
proof (induction ks arbitrary: f level)
  case Nil
  then have t: "t = f" and l: "level \<le> 3" by auto
  show ?case
  proof (rule mset_tree_update [OF l \<open>i < 512\<close>])
    fix j assume j: "j < 512" "j \<noteq> i"
    have "insert t N \<inter> set (kids m level f j) = {}"
      using Nil.prems(5,6) wf_tree_parts(1) [OF Nil.prems(5) l j(1)] kids_in_tree [OF l j(1)] t by auto
    then show "kids m' level f j = kids m level f j"
      using Nil.prems j l t by (intro keeps_kids) auto
  qed (use Nil.prems t in simp)
next
  case (Cons k ks)
  let ?c = "entry_pa (entry m f k)"
  from Cons.prems have l: "level \<le> 3" and k: "k < 512" and v: "is_valid (entry m f k)"
    and c: "node m ?c ks = Some t" and lk: "(level + 1) + length ks \<le> 3" and sk: "set ks \<subseteq> {..<512}"
    by (auto split: if_splits)
  note t = node_distinct [OF Cons.prems(5) l k v c _ sk]
  have e: "entry m' f j = entry m f j" if "j < 512" for j
    using that Cons.prems(5,6) t(2) lk wf_tree_parts(4) [OF Cons.prems(5) l k]
    by (intro keeps_entry [OF Cons.prems(7)]) auto
  have sub: "set (tree_frames m (level + 1) ?c) \<subseteq> set (tree_frames m level f)"
    using kids_in_tree [OF l k] v by (auto simp: kids_def)
  have IH: "mset (tree_frames m' (level + 1) ?c) + A = mset (tree_frames m (level + 1) ?c) + B"
    using Cons.prems sub lk by (intro Cons.IH c sk wf_tree_parts(3) [OF Cons.prems(5) l k v]) auto
  show ?case
  proof (rule mset_tree_update [OF l k])
    fix j assume j: "j < 512" "j \<noteq> k"
    have "insert t N \<inter> set (kids m level f j) = {}"
      using Cons.prems(6) t(3) [OF _ j] lk kids_in_tree [OF l j(1)] by auto
    then show "kids m' level f j = kids m level f j"
      using Cons.prems l j e by (intro keeps_kids) auto
  next
    show "mset (kids m' level f k) + A = mset (kids m level f k) + B"
      using IH v k by (simp add: kids_def e)
  qed
qed

lemma node_graft_other:
  assumes "node m f ks = Some t" "set ks \<subseteq> {..<512}" "level + length ks \<le> 3" "i < 512"
    and "wf_tree m level f" "N \<inter> set (tree_frames m level f) = {}"
    and "keeps (insert t N) m m'"
    and "\<And>j. j < 512 \<Longrightarrow> j \<noteq> i \<Longrightarrow> entry m' t j = entry m t j"
    and "set ls \<subseteq> {..<512}" "level + length ls \<le> 4" "take (Suc (length ks)) ls \<noteq> ks @ [i]"
    and "length ks < length ls"
  shows "node m' f ls = node m f ls"
  using assms
proof (induction ks arbitrary: f level ls)
  case Nil
  then have t: "t = f" and l: "level \<le> 3" by (cases ls; auto)+
  obtain j js where ls: "ls = j # js" and j: "j < 512" "j \<noteq> i"
    using Nil.prems by (cases ls) auto
  have e: "entry m' f j = entry m f j" using Nil.prems(8) j t by simp
  show ?case
  proof (cases "is_valid (entry m f j)")
    case True
    have "insert t N \<inter> set (kids m level f j) = {}"
      using Nil.prems(5,6) wf_tree_parts(1) [OF Nil.prems(5) l j(1)] kids_in_tree [OF l j(1)] t by auto
    then have "node m' (entry_pa (entry m f j)) js = node m (entry_pa (entry m f j)) js"
      using Nil.prems l j True ls tables_subset [of m "level + 1" "entry_pa (entry m f j)"]
      by (intro keeps_tree(2) [OF Nil.prems(7), of "level + 1"] wf_tree_parts(3)) (auto simp: kids_def)
    then show ?thesis by (simp add: ls e)
  qed (simp add: ls e)
next
  case (Cons k ks)
  let ?c = "entry_pa (entry m f k)"
  from Cons.prems have l: "level \<le> 3" and k: "k < 512" and v: "is_valid (entry m f k)"
    and c: "node m ?c ks = Some t" and lk: "(level + 1) + length ks \<le> 3" and sk: "set ks \<subseteq> {..<512}"
    by (auto split: if_splits)
  note t = node_distinct [OF Cons.prems(5) l k v c _ sk]
  have e: "entry m' f j = entry m f j" if "j < 512" for j
    using that Cons.prems(5,6) t(2) lk wf_tree_parts(4) [OF Cons.prems(5) l k]
    by (intro keeps_entry [OF Cons.prems(7)]) auto
  obtain j js where ls: "ls = j # js" and j: "j < 512" using Cons.prems by (cases ls) auto
  show ?case
  proof (cases "is_valid (entry m f j)")
    case False
    then show ?thesis by (simp add: ls e j)
  next
    case True
    have "node m' (entry_pa (entry m f j)) js = node m (entry_pa (entry m f j)) js"
    proof (cases "j = k")
      case True
      have sub: "set (tree_frames m (level + 1) ?c) \<subseteq> set (tree_frames m level f)"
        using kids_in_tree [OF l k] v by (auto simp: kids_def)
      show ?thesis
        unfolding True using Cons.prems sub lk ls True
        by (intro Cons.IH [of _ "level + 1"] c sk wf_tree_parts(3) [OF Cons.prems(5) l k v]) auto
    next
      case False
      have "insert t N \<inter> set (kids m level f j) = {}"
        using Cons.prems(6) t(3) [OF _ j] False lk kids_in_tree [OF l j(1)] by auto
      then show ?thesis
        using Cons.prems l j True ls tables_subset [of m "level + 1" "entry_pa (entry m f j)"]
        by (intro keeps_tree(2) [OF Cons.prems(7), of "level + 1"] wf_tree_parts(3)) (auto simp: kids_def)
    qed
    then show ?thesis by (simp add: ls e j)
  qed
qed

lemma node_prefix_None: "node m f ks = None \<Longrightarrow> take (length ks) ls = ks \<Longrightarrow> node m f ls = None"
  using node_append [of m f ks "drop (length ks) ls"] by (metis append_take_drop_id bind.bind_lzero)

section \<open>Entries written by the allocator\<close>

lemma mask48: "(PA_MASK :: u64) = mask 48 AND NOT (mask 12)"
  by (simp add: PA_MASK_def mask_eq_exp_minus_1)

lemma entry_pa_frame:
  assumes "is_frame_pa p"
  shows "entry_pa p = p"
proof -
  have a: "\<not> bit p n" if "n < 12" for n using assms that by (simp add: is_frame_pa_def bit_12)
  have "p AND mask 39 = p" using assms by (simp add: is_frame_pa_def ttbr1_to_pa_def mask39)
  then have b: "n < 39" if "bit p n" for n by (metis that bit_and_iff bit_mask_iff)
  show ?thesis unfolding entry_pa_def mask48
    using a b by (intro bit_word_eqI) (force simp: bit_simps not_less)
qed

lemma entry_pa_or: "is_frame_pa p \<Longrightarrow> flags AND PA_MASK = 0 \<Longrightarrow> entry_pa (p OR flags) = p"
  using entry_pa_frame [of p] by (simp add: entry_pa_def bit.conj_disj_distrib2)

lemma is_valid_bits: "is_valid e \<longleftrightarrow> bit e 0 \<and> bit e 1"
proof -
  have three: "(3 :: u64) = mask 2" by (simp add: mask_eq_exp_minus_1)
  have "e AND mask 2 = mask 2 \<longleftrightarrow> (\<forall>n < 64. n < 2 \<longrightarrow> bit e n)"
    by (auto simp: bit_eq_iff bit_simps)
  also have "\<dots> \<longleftrightarrow> bit e 0 \<and> bit e 1"
  proof
    assume a: "\<forall>n < 64. n < 2 \<longrightarrow> bit e n"
    show "bit e 0 \<and> bit e 1" using a [rule_format, of 0] a [rule_format, of 1] by simp
  qed (auto simp: numeral_2_eq_2 less_Suc_eq)
  finally show ?thesis by (simp add: is_valid_def three)
qed

lemma is_valid_or: "is_valid flags \<Longrightarrow> is_valid (p OR flags)"
  by (simp add: is_valid_bits bit_simps)

lemma is_valid_flags: "is_valid e \<Longrightarrow> is_valid (p OR (e AND NOT PA_MASK))"
  by (simp add: is_valid_bits bit_simps mask48)

lemma flags_no_pa: "(e AND NOT PA_MASK) AND PA_MASK = 0"
  by (simp add: and.assoc)

lemma page_flags [simp]: "PAGE_FLAGS AND PA_MASK = 0" "is_valid PAGE_FLAGS" "3 AND PA_MASK = 0" "is_valid 3"
  by (simp_all add: PAGE_FLAGS_def PA_MASK_def is_valid_def)

lemma not_valid_0 [simp]: "\<not> is_valid 0"
  by (simp add: is_valid_def)

lemma entry_set_entry [simp]:
  "is_frame_pa t \<Longrightarrow> is_frame_pa u \<Longrightarrow> i < 512 \<Longrightarrow> j < 512 \<Longrightarrow>
   entry (ram (set_entry t i e s)) u j = (if t = u \<and> i = j then e else entry (ram s) u j)"
  by (auto simp: entry_def set_entry_def ld64_st64_other frame_va_aligned)

lemma entry_fill_zero [simp]:
  "is_frame_pa t \<Longrightarrow> is_frame_pa u \<Longrightarrow> j < 512 \<Longrightarrow>
   entry (ram (fill_zero t s)) u j = (if t = u then 0 else entry (ram s) u j)"
  using keeps_entry [OF keeps_fill_zero, of t u j s]
  by (auto simp: entry_def fill_zero_def frame_va_aligned)

lemma fields_set_entry [simp]:
  "FREE_FRAME_LIST (set_entry t i e s) = FREE_FRAME_LIST s"
  "FREE_FRAME_COUNT (set_entry t i e s) = FREE_FRAME_COUNT s"
  "ttbr0_el1 (set_entry t i e s) = ttbr0_el1 s"
  "FREE_FRAME_LIST (fill_zero t s) = FREE_FRAME_LIST s"
  "FREE_FRAME_COUNT (fill_zero t s) = FREE_FRAME_COUNT s"
  "ttbr0_el1 (fill_zero t s) = ttbr0_el1 s"
  by (simp_all add: set_entry_def fill_zero_def)

lemma tree_empty_table:
  assumes "\<And>j. j < 512 \<Longrightarrow> \<not> is_valid (entry m f j)" "level \<le> 3"
  shows "tree_frames m level f = [f]"
  using assms by (simp add: tree_frames_table kids_def)

lemma pool_keeps:
  assumes "pool s ps" "keeps F (ram s) (ram s')" "F \<inter> set ps = {}"
    "FREE_FRAME_LIST s' = FREE_FRAME_LIST s" "FREE_FRAME_COUNT s' = FREE_FRAME_COUNT s"
  shows "pool s' ps"
  using assms by (intro pool_cong [OF assms(1)]) (auto simp: keeps_def pool_def)

end
