(* ===== verification/PageSpec.thy ===== *)
theory PageSpec
  imports PageAlloc
begin

text \<open>
  An address space together with the free list: \<open>owned s root ps\<close> says that the frames below \<open>root\<close> and the free frames
  \<open>ps\<close> are all distinct, and \<open>all_frames\<close> is the collection of both, which the operations conserve. From these come the
  specifications of table creation and of \<^verbatim>\<open>alloc_page\<close>.
\<close>

lemma node_graft_path:
  assumes "node m f ks = Some t" "set ks \<subseteq> {..<512}" "level + length ks \<le> 3"
    and "wf_tree m level f" "N \<inter> set (tree_frames m level f) = {}"
    and "keeps (insert t N) m m'"
  shows "node m' f ks = Some t"
  using assms
proof (induction ks arbitrary: f level)
  case Nil
  then show ?case by simp
next
  case (Cons k ks)
  let ?c = "entry_pa (entry m f k)"
  from Cons.prems have l: "level \<le> 3" and k: "k < 512" and v: "is_valid (entry m f k)"
    and c: "node m ?c ks = Some t" and lk: "(level + 1) + length ks \<le> 3" and sk: "set ks \<subseteq> {..<512}"
    by (auto split: if_splits)
  have e: "entry m' f k = entry m f k"
    using k Cons.prems(4,5) node_distinct(2) [OF Cons.prems(4) l k v c _ sk] lk wf_tree_parts(4) [OF Cons.prems(4) l k]
    by (intro keeps_entry [OF Cons.prems(6)]) auto
  have "set (tree_frames m (level + 1) ?c) \<subseteq> set (tree_frames m level f)"
    using kids_in_tree [OF l k] v by (auto simp: kids_def)
  then have "node m' ?c ks = Some t"
    using Cons.prems lk by (intro Cons.IH [of _ "level + 1"] c sk wf_tree_parts(3) [OF Cons.prems(4) l k v]) auto
  then show ?case using v by (simp add: e)
qed

section \<open>A translation table and the free list\<close>

definition owned :: "pgstate \<Rightarrow> u64 \<Rightarrow> u64 list \<Rightarrow> bool" where
  "owned s root ps \<longleftrightarrow> pool s ps \<and> distinct (tree_frames (ram s) 1 root @ ps)
     \<and> (\<forall>f \<in> set (tree_frames (ram s) 1 root). is_frame_pa f)"

definition all_frames :: "pgstate \<Rightarrow> u64 \<Rightarrow> u64 list \<Rightarrow> u64 multiset" where
  "all_frames s root ps = mset (tree_frames (ram s) 1 root) + mset ps"

lemma ownedD:
  assumes "owned s root ps"
  shows "pool s ps" "wf_tree (ram s) 1 root" "set ps \<inter> set (tree_frames (ram s) 1 root) = {}"
    "is_frame_pa root" "\<And>p. p \<in> set ps \<Longrightarrow> is_frame_pa p" "distinct ps"
  using assms by (auto simp: owned_def wf_tree_def pool_def)

lemma owned_transfer:
  assumes "owned s root ps" "pool s' ps'" "all_frames s' root ps' = all_frames s root ps"
  shows "owned s' root ps'"
proof -
  from assms(3) have e: "mset (tree_frames (ram s') 1 root @ ps') = mset (tree_frames (ram s) 1 root @ ps)"
    by (simp add: all_frames_def)
  then have "distinct (tree_frames (ram s') 1 root @ ps')"
    using assms(1) mset_eq_imp_distinct_iff owned_def by blast
  moreover have "set (tree_frames (ram s') 1 root @ ps') = set (tree_frames (ram s) 1 root @ ps)"
    using e by (rule mset_eq_setD)
  then have "\<forall>f \<in> set (tree_frames (ram s') 1 root). is_frame_pa f"
    using assms(1) by (auto simp: owned_def pool_def)
  ultimately show ?thesis using assms(2) by (simp add: owned_def)
qed

lemma owned_node:
  assumes "owned s root ps" "node (ram s) root ks = Some t" "length ks \<le> 3" "set ks \<subseteq> {..<512}"
  shows "t \<in> set (tree_frames (ram s) 1 root)" "is_frame_pa t" "t \<notin> set ps"
  using node_in_tree [OF assms(2), of 1] assms ownedD(3) [OF assms(1)] by (auto simp: owned_def)

lemma graft_owned:
  assumes o: "owned s root (n # ps)" and t: "node (ram s) root ks = Some t"
    and ks: "set ks \<subseteq> {..<512}" "length ks \<le> 2" and i: "i < 512"
    and inv: "\<not> is_valid (entry (ram s) t i)" and e: "entry_pa e = n" "is_valid e"
    and s1: "pool s1 ps" "ram s1 = ram s"
    and k: "keeps {t, n} (ram s1) (ram s2)" and fl: "FREE_FRAME_LIST s2 = FREE_FRAME_LIST s1"
      "FREE_FRAME_COUNT s2 = FREE_FRAME_COUNT s1"
    and ent: "\<And>j. j < 512 \<Longrightarrow> entry (ram s2) t j = (if j = i then e else entry (ram s) t j)"
    and new: "tree_frames (ram s2) (length ks + 2) n = [n]"
  shows "owned s2 root ps" "all_frames s2 root ps = all_frames s root (n # ps)"
    "node (ram s2) root (ks @ [i]) = Some n"
    "\<And>ls. set ls \<subseteq> {..<512} \<Longrightarrow> length ls \<le> 3 \<Longrightarrow> length ks < length ls \<Longrightarrow> take (Suc (length ks)) ls \<noteq> ks @ [i] \<Longrightarrow>
       node (ram s2) root ls = node (ram s) root ls"
proof -
  note wf = ownedD(2) [OF o]
  have l: "1 + length ks \<le> 3" using ks(2) by simp
  have N: "{n} \<inter> set (tree_frames (ram s) 1 root) = {}" using ownedD(3) [OF o] by auto
  have k': "keeps (insert t {n}) (ram s) (ram s2)" using k s1(2) by simp
  have tp: "t \<notin> set (n # ps)" using owned_node [OF o t] ks by auto
  have ej: "entry (ram s2) t j = entry (ram s) t j" if "j < 512" "j \<noteq> i" for j using ent that by simp
  have "kids (ram s2) (1 + length ks) t i = [n]" using ent [OF i] e new by (simp add: kids_def)
  moreover have "kids (ram s) (1 + length ks) t i = []" using inv by (simp add: kids_def)
  ultimately have "mset (kids (ram s2) (1 + length ks) t i) + {#} = mset (kids (ram s) (1 + length ks) t i) + {#n#}"
    by simp
  with ej have "mset (tree_frames (ram s2) 1 root) + {#} = mset (tree_frames (ram s) 1 root) + {#n#}"
    by (rule tree_graft [OF t ks(1) l i wf N k'])
  then show af: "all_frames s2 root ps = all_frames s root (n # ps)" by (simp add: all_frames_def)
  have "pool s2 ps" using tp ownedD(6) [OF o] by (intro pool_keeps [OF s1(1) k _ fl]) auto
  then show "owned s2 root ps" by (rule owned_transfer [OF o _ af])
  have "node (ram s2) root ks = Some t" by (rule node_graft_path [OF t ks(1) l wf N k'])
  then show "node (ram s2) root (ks @ [i]) = Some n" using ent [OF i] e by (simp add: node_append)
  show "\<And>ls. set ls \<subseteq> {..<512} \<Longrightarrow> length ls \<le> 3 \<Longrightarrow> length ks < length ls \<Longrightarrow> take (Suc (length ks)) ls \<noteq> ks @ [i] \<Longrightarrow>
       node (ram s2) root ls = node (ram s) root ls"
    by (rule node_graft_other [OF t ks(1) l i wf N k']) (simp_all add: ej)
qed

lemma ensure_table_full:
  "is_valid (entry (ram s) t i) \<Longrightarrow> ensure_table t i msg s = Inr s"
  by (simp add: ensure_table_def)

lemma ensure_table_empty:
  "\<not> is_valid (entry (ram s) t i) \<Longrightarrow> get_free_frame_pa s = (None, s) \<Longrightarrow> ensure_table t i msg s = Inl (Panic msg)"
  by (simp add: ensure_table_def)

lemma ensure_table_spec:
  assumes o: "owned s root ps" and t: "node (ram s) root ks = Some t"
    and ks: "set ks \<subseteq> {..<512}" "length ks \<le> 1" and i: "i < 512" and ps: "ps \<noteq> [] \<or> is_valid (entry (ram s) t i)"
  shows "\<exists>s' ps'. ensure_table t i msg s = Inr s' \<and> owned s' root ps'
    \<and> all_frames s' root ps' = all_frames s root ps \<and> set ps' \<subseteq> set ps \<and> length ps \<le> Suc (length ps')
    \<and> node (ram s') root (ks @ [i]) = Some (entry_pa (entry (ram s') t i))
    \<and> (\<forall>ls. set ls \<subseteq> {..<512} \<and> length ls \<le> 3 \<and> Suc (length ks) < length ls \<longrightarrow>
         node (ram s') root ls = node (ram s) root ls)
    \<and> (s' = s \<or> entry_pa (entry (ram s') t i) \<in> set ps)
    \<and> keeps (insert t (set ps)) (ram s) (ram s') \<and> ttbr0_el1 s' = ttbr0_el1 s"
proof (cases "is_valid (entry (ram s) t i)")
  case True
  have "node (ram s) root (ks @ [i]) = Some (entry_pa (entry (ram s) t i))"
    using True t by (simp add: node_append)
  with True show ?thesis
    using o by (intro exI [of _ s] exI [of _ ps]) (simp add: ensure_table_full)
next
  case False
  obtain n qs where n: "ps = n # qs" using ps False by (cases ps) auto
  have on: "owned s root (n # qs)" using o n by simp
  obtain s1 where s1: "get_free_frame_pa s = (Some n, s1)" "pool s1 qs" "ram s1 = ram s"
    and tt: "ttbr0_el1 s1 = ttbr0_el1 s"
    using get_free_frame_pa_Cons [OF ownedD(1) [OF on]] by metis
  let ?s = "set_entry t i (n OR 3) s1"
  let ?s2 = "fill_zero n ?s"
  have fn: "is_frame_pa n" using ownedD(5) [OF on] by simp
  have ft: "is_frame_pa t" and tn: "t \<noteq> n" using owned_node [OF on t] ks by auto
  have k: "keeps {t, n} (ram s1) (ram ?s2)"
    using keeps_trans [OF keeps_set_entry [OF ft i, of s1 "n OR 3"] keeps_fill_zero [OF fn, of ?s]]
    by (rule keeps_mono) auto
  have e: "entry_pa (n OR 3) = n" "is_valid (n OR 3)" using fn by (simp_all add: entry_pa_or is_valid_or)
  have ent: "entry (ram ?s2) t j = (if j = i then n OR 3 else entry (ram s) t j)" if "j < 512" for j
    using that ft fn tn i s1(3) by simp
  have new: "tree_frames (ram ?s2) (length ks + 2) n = [n]"
    using fn ks(2) by (intro tree_empty_table) auto
  note g = graft_owned [OF on t ks(1) _ i False e s1(2,3) k _ _ ent new]
  have g1: "owned ?s2 root qs" "all_frames ?s2 root qs = all_frames s root (n # qs)"
    "node (ram ?s2) root (ks @ [i]) = Some n" using g(1-3) ks(2) by simp_all
  have walk: "node (ram ?s2) root ls = node (ram s) root ls" 
    if ls: "set ls \<subseteq> {..<512}" "length ls \<le> 3" "Suc (length ks) < length ls" for ls
  proof (cases "take (Suc (length ks)) ls = ks @ [i]")
    case False
    then show ?thesis using g(4) [of ls] ls ks(2) by simp
  next
    case True
    have "node (ram s) root (ks @ [i]) = None" using t \<open>\<not> is_valid (entry (ram s) t i)\<close> by (simp add: node_append)
    then have old: "node (ram s) root ls = None" by (rule node_prefix_None) (use True in simp)
    obtain j js where "drop (Suc (length ks)) ls = j # js"
      using ls(3) by (cases "drop (Suc (length ks)) ls") auto
    then have j: "ls = (ks @ [i]) @ j # js" using True by (metis append_take_drop_id)
    have "node (ram ?s2) root ls = None"
      unfolding j node_append g1(3) [unfolded node_append] using j ls fn by (simp add: g1(3) node_append)
    then show ?thesis using old by simp
  qed
  have "ensure_table t i msg s = Inr ?s2" using False s1(1) by (simp add: ensure_table_def)
  moreover have "keeps (insert t (set ps)) (ram s) (ram ?s2)"
    using keeps_mono [OF k, of "insert t (set ps)"] s1(3) n by auto
  ultimately show ?thesis
    using g1 walk n ent [OF i] e tt by (intro exI [of _ ?s2] exI [of _ qs]) auto
qed

section \<open>Walks\<close>

definition path :: "u64 \<Rightarrow> nat list" where
  "path va = [l1_i va, l2_i va, l3_i va]"

lemma and_1ff: "unat (x AND 0x1FF :: u64) < 512"
proof -
  have "x AND 0x1FF \<le> 0x1FF" by (rule word_and_le1)
  then show ?thesis by (simp add: word_le_nat_alt)
qed

lemma index_bounds [simp]: "l1_i va < 512" "l2_i va < 512" "l3_i va < 512"
  by (simp_all add: l1_i_def l2_i_def l3_i_def and_1ff)

lemma path_ok [simp]: "set (path va) \<subseteq> {..<512}" "length (path va) = 3"
  by (simp_all add: path_def)

lemma ttbr0_to_pa_node:
  "ttbr0_to_pa va tt s = map_option (\<lambda>f. f + (va AND 0xFFF)) (node (ram s) (translation_table tt s) (path va))"
  by (simp add: ttbr0_to_pa_def path_def Let_def)

definition va_page :: "u64 \<Rightarrow> u64" where
  "va_page va = drop_bit 12 (take_bit 39 va)"

lemma mask9: "(0x1FF :: u64) = mask 9" by (simp add: mask_eq_exp_minus_1)

lemma path_eq_iff: "path va = path va' \<longleftrightarrow> va_page va = va_page va'"
proof
  assume "path va = path va'"
  then have i: "drop_bit 30 va AND 0x1FF = drop_bit 30 va' AND 0x1FF"
    "drop_bit 21 va AND 0x1FF = drop_bit 21 va' AND 0x1FF"
    "drop_bit 12 va AND 0x1FF = drop_bit 12 va' AND 0x1FF"
    by (simp_all add: path_def l1_i_def l2_i_def l3_i_def unsigned_word_eqI word_unat_eq_iff)
  have b: "bit va (k + n) = bit va' (k + n)"
    if "drop_bit k va AND 0x1FF = drop_bit k va' AND 0x1FF" "n < 9" for k n
    using that(2) arg_cong [OF that(1), of "\<lambda>x. bit x n"] by (simp add: mask9 bit_simps)
  have "bit va n = bit va' n" if "12 \<le> n" "n < 39" for n
  proof -
    consider "n < 21" | "21 \<le> n" "n < 30" | "30 \<le> n" using that by linarith
    then show ?thesis
    proof cases
      case 1
      then show ?thesis using b [OF i(3), of "n - 12"] that by simp
    next
      case 2
      then show ?thesis using b [OF i(2), of "n - 21"] by simp
    next
      case 3
      then show ?thesis using b [OF i(1), of "n - 30"] that by simp
    qed
  qed
  then show "va_page va = va_page va'"
    unfolding va_page_def by (intro bit_word_eqI) (auto simp: bit_simps)
next
  assume a: "va_page va = va_page va'"
  have b: "bit va (12 + n) = bit va' (12 + n)" if "n < 27" for n
    using that arg_cong [OF a, of "\<lambda>x. bit x n"] by (simp add: va_page_def bit_simps)
  have c: "bit va n = bit va' n" if "12 \<le> n" "n < 39" for n
    using b [of "n - 12"] that by simp
  have "drop_bit k va AND 0x1FF = drop_bit k va' AND 0x1FF" if "12 \<le> k" "k \<le> 30" for k
    using that c unfolding mask9 by (intro bit_word_eqI) (auto simp: bit_simps)
  then show "path va = path va'" by (simp add: path_def l1_i_def l2_i_def l3_i_def)
qed

lemma node_in_tables:
  "node m f ks = Some t \<Longrightarrow> level + length ks \<le> 3 \<Longrightarrow> set ks \<subseteq> {..<512} \<Longrightarrow> t \<in> set (tree_tables m level f)"
proof (induction ks arbitrary: f level)
  case Nil
  then show ?case by (auto simp: set_tree_tables)
next
  case (Cons k ks)
  then have "t \<in> set (tree_tables m (level + 1) (entry_pa (entry m f k)))"
    by (intro Cons.IH [of _ "level + 1"]) (auto split: if_splits)
  then show ?case using Cons.prems by (auto simp: set_tree_tables split: if_splits)
qed

section \<open>Allocating a page\<close>

text \<open>The two tables on the way to the page, each made when it is missing.\<close>

lemma alloc_tables:
  assumes o: "owned s root ps" and free: "ttbr0_to_pa va (Some root) s = None"
    and len: "3 \<le> length ps \<or> alloc_page va (Some root) s = Inr r"
  obtains s1 s2 ps2 l2 l3 where "ensure_table root (l1_i va) ''No free frames available for new L2 page table'' s = Inr s1" "l2 = entry_pa (entry (ram s1) root (l1_i va))"
    "ensure_table l2 (l2_i va) ''No free frames available for new L3 page table'' s1 = Inr s2" "l3 = entry_pa (entry (ram s2) l2 (l2_i va))"
    "owned s2 root ps2" "all_frames s2 root ps2 = all_frames s root ps" "set ps2 \<subseteq> set ps" "length ps \<le> length ps2 + 2"
    "node (ram s2) root [l1_i va, l2_i va] = Some l3" "\<not> is_valid (entry (ram s2) l3 (l3_i va))" "ps2 \<noteq> []"
    "\<And>ls. set ls \<subseteq> {..<512} \<Longrightarrow> length ls = 3 \<Longrightarrow> node (ram s2) root ls = node (ram s) root ls"
    "keeps (set (tree_tables (ram s) 1 root) \<union> set ps) (ram s) (ram s2)" "l3 \<in> set (tree_tables (ram s) 1 root) \<union> set ps" "ttbr0_el1 s2 = ttbr0_el1 s"
proof -
  let ?T = "set (tree_tables (ram s) 1 root)"
  have tt [simp]: "translation_table (Some root) x = root" for x by (simp add: translation_table_def)
  have walk0: "node (ram s) root (path va) = None" using free by (simp add: ttbr0_to_pa_node)
  have r: "root \<in> ?T" by (simp add: set_tree_tables)
  have none: "get_free_frame_pa x = (None, x)" if "owned x root []" for x using that by (simp add: get_free_frame_pa_empty ownedD)
  have ps: "ps \<noteq> [] \<or> is_valid (entry (ram s) root (l1_i va))"
  proof (rule ccontr)
    assume n: "\<not> ?thesis"
    then have "ensure_table root (l1_i va) msg s = Inl (Panic msg)" for msg using o by (intro ensure_table_empty none) auto
    then show False using n free len by (simp add: alloc_page_def)
  qed
  \<comment> \<open>the level 2 table\<close>
  obtain s1 ps1 where s1: "ensure_table root (l1_i va) ''No free frames available for new L2 page table'' s = Inr s1"
    "owned s1 root ps1" "all_frames s1 root ps1 = all_frames s root ps" "set ps1 \<subseteq> set ps" "length ps \<le> Suc (length ps1)"
    "node (ram s1) root [l1_i va] = Some (entry_pa (entry (ram s1) root (l1_i va)))"
    "\<And>ls. set ls \<subseteq> {..<512} \<Longrightarrow> length ls \<le> 3 \<Longrightarrow> 1 < length ls \<Longrightarrow> node (ram s1) root ls = node (ram s) root ls"
    "s1 = s \<or> entry_pa (entry (ram s1) root (l1_i va)) \<in> set ps"
    "keeps (insert root (set ps)) (ram s) (ram s1)" "ttbr0_el1 s1 = ttbr0_el1 s"
    using ensure_table_spec [OF o, of "[]" root "l1_i va" "''No free frames available for new L2 page table''"] ps
    by auto
  let ?l2 = "entry_pa (entry (ram s1) root (l1_i va))"
  have l2: "?l2 \<in> ?T \<union> set ps"
    using s1(6,8) node_in_tables [of "ram s" root "[l1_i va]" ?l2 1] by auto
  \<comment> \<open>the level 3 table\<close>
  have "ps1 \<noteq> [] \<or> is_valid (entry (ram s1) ?l2 (l2_i va))"
  proof (rule ccontr)
    assume n: "\<not> ?thesis"
    then have "ensure_table ?l2 (l2_i va) msg s1 = Inl (Panic msg)" for msg using s1(2) by (intro ensure_table_empty none) auto
    then show False using n free len s1(1,5) by (simp add: alloc_page_def)
  qed
  then obtain s2 ps2 where s2: "ensure_table ?l2 (l2_i va) ''No free frames available for new L3 page table'' s1 = Inr s2"
    "owned s2 root ps2" "all_frames s2 root ps2 = all_frames s1 root ps1" "set ps2 \<subseteq> set ps1" "length ps1 \<le> Suc (length ps2)"
    "node (ram s2) root [l1_i va, l2_i va] = Some (entry_pa (entry (ram s2) ?l2 (l2_i va)))"
    "\<And>ls. set ls \<subseteq> {..<512} \<Longrightarrow> length ls \<le> 3 \<Longrightarrow> 2 < length ls \<Longrightarrow> node (ram s2) root ls = node (ram s1) root ls"
    "s2 = s1 \<or> entry_pa (entry (ram s2) ?l2 (l2_i va)) \<in> set ps1"
    "keeps (insert ?l2 (set ps1)) (ram s1) (ram s2)" "ttbr0_el1 s2 = ttbr0_el1 s1"
    using ensure_table_spec [OF s1(2,6), of "l2_i va" "''No free frames available for new L3 page table''"]
    by (auto simp: numeral_2_eq_2 simp del: node.simps)
  let ?l3 = "entry_pa (entry (ram s2) ?l2 (l2_i va))"
  have l3: "?l3 \<in> ?T \<union> set ps"
    using s2(6,8) s1(7) [of "[l1_i va, l2_i va]"] s1(4) node_in_tables [of "ram s" root "[l1_i va, l2_i va]" ?l3 1]
    by auto
  have walk2: "node (ram s2) root ls = node (ram s) root ls" if "set ls \<subseteq> {..<512}" "length ls = 3" for ls
    using s1(7) [of ls] s2(7) [of ls] that by simp
  have inv: "\<not> is_valid (entry (ram s2) ?l3 (l3_i va))"
    using walk2 [of "path va"] walk0 s2(6) node_append [of "ram s2" root "[l1_i va, l2_i va]" "[l3_i va]"]
    by (auto simp: path_def split: if_splits)
  have "ps2 \<noteq> []"
  proof
    assume n: "ps2 = []"
    then show False using none [of s2] free len s1(1,5) s2(1,2,5) inv by (simp add: alloc_page_def)
  qed
  moreover have "keeps (?T \<union> set ps) (ram s) (ram s2)" using keeps_trans [OF s1(9) s2(9)] r l2 s1(4) by (elim keeps_mono) auto
  moreover have "set ps2 \<subseteq> set ps" "length ps \<le> length ps2 + 2" using s1(4,5) s2(4,5) by auto
  ultimately show ?thesis using that [OF s1(1) refl s2(1) refl s2(2)] s1(3,10) s2(3,6,10) inv walk2 l3 by simp
qed

lemma alloc_page_core:
  assumes o: "owned s root ps" and free: "ttbr0_to_pa va (Some root) s = None"
    and len: "3 \<le> length ps \<or> alloc_page va (Some root) s = Inr r"
  obtains pa s' ps' where "alloc_page va (Some root) s = Inr (pa, s')" "owned s' root ps'"
    "all_frames s' root ps' = all_frames s root ps" "pa \<in> set ps" "set ps' \<subseteq> set ps" "length ps \<le> length ps' + 3"
    "ttbr0_to_pa va (Some root) s' = Some (pa + (va AND 0xFFF))"
    "\<And>va'. va_page va' \<noteq> va_page va \<Longrightarrow> ttbr0_to_pa va' (Some root) s' = ttbr0_to_pa va' (Some root) s"
    "keeps (set (tree_tables (ram s) 1 root) \<union> set ps) (ram s) (ram s')" "ttbr0_el1 s' = ttbr0_el1 s"
proof -
  have tt [simp]: "translation_table (Some root) x = root" for x by (simp add: translation_table_def)
  obtain s1 s2 ps2 l2 l3 where t: "ensure_table root (l1_i va) ''No free frames available for new L2 page table'' s = Inr s1" "l2 = entry_pa (entry (ram s1) root (l1_i va))"
    "ensure_table l2 (l2_i va) ''No free frames available for new L3 page table'' s1 = Inr s2" "l3 = entry_pa (entry (ram s2) l2 (l2_i va))"
    and ps2: "owned s2 root ps2" "all_frames s2 root ps2 = all_frames s root ps" "set ps2 \<subseteq> set ps" "length ps \<le> length ps2 + 2"
    and l3: "node (ram s2) root [l1_i va, l2_i va] = Some l3" and inv: "\<not> is_valid (entry (ram s2) l3 (l3_i va))" and ne: "ps2 \<noteq> []"
    and walk2: "\<And>ls. set ls \<subseteq> {..<512} \<Longrightarrow> length ls = 3 \<Longrightarrow> node (ram s2) root ls = node (ram s) root ls"
    and k2: "keeps (set (tree_tables (ram s) 1 root) \<union> set ps) (ram s) (ram s2)" "l3 \<in> set (tree_tables (ram s) 1 root) \<union> set ps" "ttbr0_el1 s2 = ttbr0_el1 s"
    by (rule alloc_tables [OF o free len]) (rule that)
  obtain n qs where n: "ps2 = n # qs" using ne by (cases ps2) auto
  have o2: "owned s2 root (n # qs)" using ps2(1) n by simp
  obtain s3 where s3: "get_free_frame_pa s2 = (Some n, s3)" "pool s3 qs" "ram s3 = ram s2" "ttbr0_el1 s3 = ttbr0_el1 s2"
    using get_free_frame_pa_Cons [OF ownedD(1) [OF o2]] by metis
  let ?s4 = "set_entry l3 (l3_i va) (n OR PAGE_FLAGS) s3"
  have fn: "is_frame_pa n" using ownedD(5) [OF o2] by simp
  have f3: "is_frame_pa l3" using owned_node [OF o2 l3] by simp
  have e: "entry_pa (n OR PAGE_FLAGS) = n" "is_valid (n OR PAGE_FLAGS)" using fn by (simp_all add: entry_pa_or is_valid_or)
  have k: "keeps {l3} (ram s3) (ram ?s4)" using keeps_set_entry [OF f3] by simp
  then have k': "keeps {l3, n} (ram s3) (ram ?s4)" by (rule keeps_mono) auto
  have ent: "entry (ram ?s4) l3 j = (if j = l3_i va then n OR PAGE_FLAGS else entry (ram s2) l3 j)" if "j < 512" for j
    using that f3 by (simp add: s3(3))
  have new: "tree_frames (ram ?s4) (length [l1_i va, l2_i va] + 2) n = [n]" by simp
  note g = graft_owned [OF o2 l3 _ _ _ inv e s3(2,3) k' _ _ ent new]
  have "alloc_page va (Some root) s = Inr (n, ?s4)"
    using free t s3(1) inv ent [of "l3_i va"] e by (simp add: alloc_page_def Let_def)
  moreover have "owned ?s4 root qs" "all_frames ?s4 root qs = all_frames s root ps" using g(1,2) ps2(2) n by simp_all
  moreover have "n \<in> set ps" "set qs \<subseteq> set ps" "length ps \<le> length qs + 3" using ps2(3,4) n by auto
  moreover have "ttbr0_to_pa va (Some root) ?s4 = Some (n + (va AND 0xFFF))" using g(3) by (simp add: ttbr0_to_pa_node path_def)
  moreover have "ttbr0_to_pa va' (Some root) ?s4 = ttbr0_to_pa va' (Some root) s" if "va_page va' \<noteq> va_page va" for va'
  proof -
    have "path va' \<noteq> path va" using that path_eq_iff by blast
    then have "take (Suc (length [l1_i va, l2_i va])) (path va') \<noteq> [l1_i va, l2_i va] @ [l3_i va]" by (simp add: path_def)
    then have "node (ram ?s4) root (path va') = node (ram s2) root (path va')" using g(4) [of "path va'"] by simp
    then show ?thesis using walk2 [of "path va'"] by (simp add: ttbr0_to_pa_node)
  qed
  moreover have "keeps (set (tree_tables (ram s) 1 root) \<union> set ps) (ram s) (ram ?s4)"
    using keeps_trans [OF k2(1) k [unfolded s3(3)]] k2(2) by (elim keeps_mono) auto
  moreover have "ttbr0_el1 ?s4 = ttbr0_el1 s" using k2(3) s3(4) by simp
  ultimately show ?thesis using that by blast
qed

lemma alloc_page_spec:
  assumes "owned s root ps" "ttbr0_to_pa va (Some root) s = None" "3 \<le> length ps"
  obtains pa s' ps' where "alloc_page va (Some root) s = Inr (pa, s')" "owned s' root ps'"
    "all_frames s' root ps' = all_frames s root ps" "pa \<in> set ps" "set ps' \<subseteq> set ps" "length ps \<le> length ps' + 3"
    "ttbr0_to_pa va (Some root) s' = Some (pa + (va AND 0xFFF))"
    "\<And>va'. va_page va' \<noteq> va_page va \<Longrightarrow> ttbr0_to_pa va' (Some root) s' = ttbr0_to_pa va' (Some root) s"
    "keeps (set (tree_tables (ram s) 1 root) \<union> set ps) (ram s) (ram s')" "ttbr0_el1 s' = ttbr0_el1 s"
  using alloc_page_core [OF assms(1,2) disjI1 [OF assms(3)]] by blast

lemma alloc_page_Inr:
  assumes "owned s root ps" "alloc_page va (Some root) s = Inr (pa, s')"
  shows "\<exists>ps'. owned s' root ps' \<and> all_frames s' root ps' = all_frames s root ps
     \<and> keeps (set (tree_tables (ram s) 1 root) \<union> set ps) (ram s) (ram s')"
proof -
  have "ttbr0_to_pa va (Some root) s = None" using assms(2) by (cases "ttbr0_to_pa va (Some root) s") (simp_all add: alloc_page_def)
  then show ?thesis using alloc_page_core [OF assms(1) _ disjI2 [OF assms(2)]] assms(2) by (metis Pair_inject sum.inject(2))
qed

end
