(* ===== verification/PageFree.thy ===== *)
theory PageFree
  imports PageSpec
begin

text \<open>
  The specifications of \<^verbatim>\<open>free_page\<close> and of the recursive \<^verbatim>\<open>do_free_table_recursive\<close>, by induction on the level and on
  the slots of a table.
\<close>

section \<open>Freeing a page\<close>

lemma free_page_spec:
  assumes o: "owned s root ps" and p: "node (ram s) root (path va) = Some p"
  defines "s' \<equiv> free_page va (Some root) s"
  shows "owned s' root (p # ps)" "all_frames s' root (p # ps) = all_frames s root ps"
    "ttbr0_to_pa va (Some root) s' = None"
    "\<And>va'. va_page va' \<noteq> va_page va \<Longrightarrow> ttbr0_to_pa va' (Some root) s' = ttbr0_to_pa va' (Some root) s"
    "keeps (set (tree_tables (ram s) 1 root) \<union> {p}) (ram s) (ram s')" "ttbr0_el1 s' = ttbr0_el1 s"
proof -
  have tt [simp]: "translation_table (Some root) x = root" for x by (simp add: translation_table_def)
  let ?m = "ram s" and ?ks = "[l1_i va, l2_i va]" and ?i = "l3_i va"
  let ?e1 = "entry ?m root (l1_i va)"
  let ?e2 = "entry ?m (entry_pa ?e1) (l2_i va)"
  let ?l3 = "entry_pa ?e2"
  from p have v: "is_valid ?e1" "is_valid ?e2" "is_valid (entry ?m ?l3 ?i)" and pe: "entry_pa (entry ?m ?l3 ?i) = p"
    by (auto simp: path_def split: if_splits)
  have t: "node ?m root ?ks = Some ?l3" using v by simp
  have ks: "set ?ks \<subseteq> {..<512}" "1 + length ?ks \<le> 3" by simp_all
  note wf = ownedD(2) [OF o]
  have fp: "is_frame_pa p" "p \<notin> set ps" using owned_node [OF o p] by simp_all
  have f3: "is_frame_pa ?l3" "?l3 \<notin> set ps" using owned_node [OF o t] by simp_all
  define s1 where "s1 = set_entry ?l3 ?i 0 s"
  have s': "s' = add_free_frame (ttbr1_to_va p) s1"
    using v by (simp add: s'_def free_page_def Let_def s1_def pe)
  have k1: "keeps {?l3} ?m (ram s1)" unfolding s1_def by (rule keeps_set_entry [OF f3(1)]) simp
  have N: "{} \<inter> set (tree_frames ?m 1 root) = {}" and i: "?i < 512" by simp_all
  have ej: "entry (ram s1) ?l3 j = entry ?m ?l3 j" if "j < 512" "j \<noteq> ?i" for j
    using that f3 by (simp add: s1_def)
  have e0: "entry (ram s1) ?l3 ?i = 0" using f3 by (simp add: s1_def)
  have "mset (kids (ram s1) (1 + length ?ks) ?l3 ?i) + {#p#} = mset (kids ?m (1 + length ?ks) ?l3 ?i) + {#}"
    using v e0 pe by (simp add: kids_def)
  with ej have tree: "mset (tree_frames (ram s1) 1 root) + {#p#} = mset (tree_frames ?m 1 root) + {#}"
    by (rule tree_graft [OF t ks i wf N k1])
  have e: "mset (p # tree_frames (ram s1) 1 root) = mset (tree_frames ?m 1 root)" using tree by simp
  have dp: "distinct (p # tree_frames (ram s1) 1 root)" using wf mset_eq_imp_distinct_iff [OF e] by (simp add: wf_tree_def)
  have sub: "set (tree_frames (ram s1) 1 root) \<subseteq> set (tree_frames ?m 1 root)" "p \<notin> set (tree_frames (ram s1) 1 root)" using dp mset_eq_setD [OF e] by auto
  have wf1: "wf_tree (ram s1) 1 root" using wf dp sub by (auto simp: wf_tree_def)
  have k2: "keeps {p} (ram s1) (ram s')" unfolding s' by (rule keeps_add_free_frame [OF fp(1)])
  have dis: "{p} \<inter> set (tree_tables (ram s1) 1 root) = {}" using sub(2) tables_subset by auto
  have eq: "tree_frames (ram s') 1 root = tree_frames (ram s1) 1 root" by (rule keeps_tree(1) [OF k2 wf1 dis])
  have nd: "node (ram s') root (path va') = node (ram s1) root (path va')" for va'
    by (rule keeps_tree(2) [OF k2 wf1 dis]) simp_all
  have "pool s1 ps"
    by (rule pool_keeps [OF ownedD(1) [OF o] k1]) (use f3 in \<open>auto simp: s1_def\<close>)
  then have pool: "pool s' (p # ps)" unfolding s' using fp by (intro add_free_frame_pool)
  show af: "all_frames s' root (p # ps) = all_frames s root ps" using tree eq by (simp add: all_frames_def)
  show "owned s' root (p # ps)" by (rule owned_transfer [OF o pool af])
  have "node (ram s1) root ?ks = Some ?l3"
    by (rule node_graft_path [OF t ks wf N k1])
  then have "node (ram s1) root (?ks @ [?i]) = None" using e0 by (simp only: node_append) simp
  then show "ttbr0_to_pa va (Some root) s' = None" using nd [of va] by (simp add: ttbr0_to_pa_node path_def)
  show "ttbr0_to_pa va' (Some root) s' = ttbr0_to_pa va' (Some root) s" if "va_page va' \<noteq> va_page va" for va'
  proof -
    have "path va' \<noteq> path va" using that path_eq_iff by blast
    then have "take (Suc (length ?ks)) (path va') \<noteq> ?ks @ [?i]" by (simp add: path_def)
    then have "node (ram s1) root (path va') = node ?m root (path va')"
      using ej by (intro node_graft_other [OF t ks i wf N k1]) simp_all
    then show ?thesis using nd [of va'] by (simp add: ttbr0_to_pa_node)
  qed
  show "keeps (set (tree_tables (ram s) 1 root) \<union> {p}) (ram s) (ram s')"
    using keeps_trans [OF k1 k2] node_in_tables [OF t ks(2,1)] by (elim keeps_mono) auto
  show "ttbr0_el1 s' = ttbr0_el1 s"
    using fp(1) by (simp add: s' s1_def add_free_frame_fields frame_va_aligned)
qed

section \<open>Freeing a whole table\<close>

definition freed :: "pgstate \<Rightarrow> u64 list \<Rightarrow> u64 list \<Rightarrow> pgstate \<Rightarrow> bool" where
  "freed s fs ps s' \<longleftrightarrow> (\<exists>ps'. pool s' ps' \<and> mset ps' = mset fs + mset ps)
     \<and> keeps (set fs) (ram s) (ram s') \<and> ttbr0_el1 s' = ttbr0_el1 s"

definition free_slot :: "u64 \<Rightarrow> nat \<Rightarrow> nat \<Rightarrow> pgstate \<Rightarrow> pgstate" where
  "free_slot ttpa level i s =
     (let e = entry (ram s) ttpa i in
      if is_valid e then
        (if level < 3 then do_free_table_recursive (entry_pa e) (level + 1) s
         else add_free_frame (ttbr1_to_va (entry_pa e)) (set_entry ttpa i 0 s))
      else s)"

lemma do_free_unfold:
  "level \<le> 3 \<Longrightarrow> do_free_table_recursive ttpa level s =
     add_free_frame (ttbr1_to_va ttpa) (fold (free_slot ttpa level) [0..<512] s)"
  by (subst do_free_table_recursive.simps) (simp add: free_slot_def [abs_def] PAGE_ENTRIES_def)

text \<open>One slot, after the slots before it have changed the frames \<open>F\<close>.\<close>

lemma free_slot_step:
  assumes IH: "\<And>f s ps. level < 3 \<Longrightarrow> wf_tree (ram s) (level + 1) f \<Longrightarrow> pool s ps \<Longrightarrow>
       set ps \<inter> set (tree_frames (ram s) (level + 1) f) = {} \<Longrightarrow>
       freed s (tree_frames (ram s) (level + 1) f) ps (do_free_table_recursive f (level + 1) s)"
    and l: "level \<le> 3" and wf: "wf_tree (ram s) level f" and n: "n < 512"
    and u: "pool u qs" "keeps (insert f F) (ram s) (ram u)" "entry (ram u) f n = entry (ram s) f n"
    and d: "insert f F \<inter> set (kids (ram s) level f n) = {}" "insert f (set (kids (ram s) level f n)) \<inter> set qs = {}"
  shows "\<exists>rs. pool (free_slot f level n u) rs \<and> mset rs = mset (kids (ram s) level f n) + mset qs
     \<and> keeps (insert f (set (kids (ram s) level f n))) (ram u) (ram (free_slot f level n u))
     \<and> (\<forall>j < 512. j \<noteq> n \<longrightarrow> entry (ram (free_slot f level n u)) f j = entry (ram u) f j) \<and> ttbr0_el1 (free_slot f level n u) = ttbr0_el1 u"
proof (cases "is_valid (entry (ram s) f n)")
  case False
  then have "free_slot f level n u = u" "kids (ram s) level f n = []" by (simp_all add: free_slot_def u(3) kids_def)
  then show ?thesis using u(1) by (intro exI [of _ qs]) simp
next
  case True
  let ?c = "entry_pa (entry (ram s) f n)"
  have K: "kids (ram s) level f n = tree_frames (ram s) (level + 1) ?c" using True by (simp add: kids_def)
  have wfc: "wf_tree (ram s) (level + 1) ?c" by (rule wf_tree_parts(3) [OF wf l n True])
  have fpa: "is_frame_pa f" by (rule wf_tree_parts(4) [OF wf l n])
  show ?thesis
  proof (cases "level < 3")
    case l3: True
    have "insert f F \<inter> set (tree_tables (ram s) (level + 1) ?c) = {}" using d(1) K tables_subset [of "ram s" "level + 1" ?c] by auto
    note kt = keeps_tree [OF u(2) wfc this]
    have "free_slot f level n u = do_free_table_recursive ?c (level + 1) u" using True l3 by (simp add: free_slot_def u(3) Let_def)
    moreover have "freed u (tree_frames (ram s) (level + 1) ?c) qs (do_free_table_recursive ?c (level + 1) u)" using IH [OF l3 kt(3) u(1)] d(2) kt(1) K by auto
    ultimately obtain rs where rs: "pool (free_slot f level n u) rs" "mset rs = mset (kids (ram s) level f n) + mset qs"
      and k: "keeps (set (kids (ram s) level f n)) (ram u) (ram (free_slot f level n u))" and tt: "ttbr0_el1 (free_slot f level n u) = ttbr0_el1 u"
      unfolding K by (auto simp: freed_def)
    have "entry (ram (free_slot f level n u)) f j = entry (ram u) f j" if "j < 512" for j using d(1) that by (intro keeps_entry [OF k fpa]) auto
    then show ?thesis using rs tt keeps_mono [OF k subset_insertI] by blast
  next
    case False
    then have K': "kids (ram s) level f n = [?c]" using K by simp
    have fc: "is_frame_pa ?c" using wfc by (simp add: wf_tree_def)
    let ?t = "set_entry f n 0 u"
    have fs: "free_slot f level n u = add_free_frame (ttbr1_to_va ?c) ?t" using True False by (simp add: free_slot_def u(3) Let_def)
    have "pool ?t qs" by (rule pool_keeps [OF u(1) keeps_set_entry [OF fpa n]]) (use d(2) in auto)
    then have pl: "pool (free_slot f level n u) (?c # qs)" unfolding fs using fc d(2) K' by (intro add_free_frame_pool) auto
    have k: "keeps {f, ?c} (ram u) (ram (free_slot f level n u))"
      unfolding fs using keeps_trans [OF keeps_set_entry [OF fpa n] keeps_add_free_frame [OF fc]] by (rule keeps_mono) auto
    have "entry (ram (free_slot f level n u)) f j = entry (ram u) f j" if "j < 512" "j \<noteq> n" for j
    proof -
      have "entry (ram (free_slot f level n u)) f j = entry (ram ?t) f j"
        unfolding fs using d(1) K' that by (intro keeps_entry [OF keeps_add_free_frame [OF fc] fpa]) auto
      then show ?thesis using that n fpa by simp
    qed
    then show ?thesis using pl K' k fc by (intro exI [of _ "?c # qs"]) (auto simp: fs add_free_frame_fields frame_va_aligned)
  qed
qed

lemma free_slots:
  assumes IH: "\<And>f s ps. level < 3 \<Longrightarrow> wf_tree (ram s) (level + 1) f \<Longrightarrow> pool s ps \<Longrightarrow>
       set ps \<inter> set (tree_frames (ram s) (level + 1) f) = {} \<Longrightarrow>
       freed s (tree_frames (ram s) (level + 1) f) ps (do_free_table_recursive f (level + 1) s)"
    and l: "level \<le> 3" and wf: "wf_tree (ram s) level f" and ps: "pool s ps"
    and dis: "set ps \<inter> set (tree_frames (ram s) level f) = {}" and n: "n \<le> 512"
  shows "\<exists>ps'. pool (fold (free_slot f level) [0..<n] s) ps'
      \<and> mset ps' = mset (concat (map (kids (ram s) level f) [0..<n])) + mset ps
      \<and> keeps (insert f (set (concat (map (kids (ram s) level f) [0..<n])))) (ram s) (ram (fold (free_slot f level) [0..<n] s))
      \<and> (\<forall>j. n \<le> j \<and> j < 512 \<longrightarrow> entry (ram (fold (free_slot f level) [0..<n] s)) f j = entry (ram s) f j)
      \<and> ttbr0_el1 (fold (free_slot f level) [0..<n] s) = ttbr0_el1 s"
  using n
proof (induction n)
  case 0
  then show ?case using ps by (intro exI [of _ ps]) simp
next
  case (Suc n)
  let ?K = "kids (ram s) level f" and ?s = "fold (free_slot f level) [0..<n] s"
  let ?C = "concat (map ?K [0..<n])"
  from Suc obtain qs where qs: "pool ?s qs" "mset qs = mset ?C + mset ps" "keeps (insert f (set ?C)) (ram s) (ram ?s)"
    "\<And>j. n \<le> j \<Longrightarrow> j < 512 \<Longrightarrow> entry (ram ?s) f j = entry (ram s) f j" "ttbr0_el1 ?s = ttbr0_el1 s"
    by auto
  have n: "n < 512" using Suc.prems by simp
  have C: "concat (map ?K [0..<Suc n]) = ?C @ ?K n" by simp
  have set_qs: "set qs = set ?C \<union> set ps" using arg_cong [OF qs(2), of set_mset] by simp
  have "x \<notin> set (?K n)" if x: "x \<in> insert f (set ?C)" for x
  proof (cases "x = f")
    case True
    then show ?thesis using wf_tree_parts(1) [OF wf l n] by simp
  next
    case False
    with x obtain j where "j < n" "x \<in> set (?K j)" by auto
    then show ?thesis using wf_tree_parts(2) [OF wf l _ n, of j x] n by simp
  qed
  then have dK: "insert f (set ?C) \<inter> set (?K n) = {}" by blast
  have dq: "set qs \<inter> set (?K n) = {}"
    using dK dis kids_in_tree [OF l n] by (auto simp: set_qs)
  have fq: "f \<notin> set qs" using set_qs dis wf_tree_parts(1) [OF wf l] Suc.prems by auto
  have ek: "entry (ram ?s) f n = entry (ram s) f n" using qs(4) n by simp
  obtain rs where rs: "pool (free_slot f level n ?s) rs" "mset rs = mset (?K n) + mset qs" "keeps (insert f (set (?K n))) (ram ?s) (ram (free_slot f level n ?s))"
    "\<forall>j < 512. j \<noteq> n \<longrightarrow> entry (ram (free_slot f level n ?s)) f j = entry (ram ?s) f j" "ttbr0_el1 (free_slot f level n ?s) = ttbr0_el1 ?s"
    using free_slot_step [OF IH l wf n qs(1,3) ek dK] dq fq by auto
  have "keeps (insert f (set (?C @ ?K n))) (ram s) (ram (free_slot f level n ?s))" using keeps_trans [OF qs(3) rs(3)] by (elim keeps_mono) auto
  then show ?case using rs qs(2,4,5) by (intro exI [of _ rs]) (simp add: C)
qed

lemma do_free_spec:
  "level \<le> 3 \<Longrightarrow> wf_tree (ram s) level f \<Longrightarrow> pool s ps \<Longrightarrow> set ps \<inter> set (tree_frames (ram s) level f) = {} \<Longrightarrow>
   freed s (tree_frames (ram s) level f) ps (do_free_table_recursive f level s)"
proof (induction level arbitrary: f s ps rule: level_induct)
  case (leaf level)
  then show ?case by simp
next
  case (table level)
  let ?K = "concat (map (kids (ram s) level f) [0..<512])" and ?t = "fold (free_slot f level) [0..<512] s"
  obtain qs where qs: "pool ?t qs" "mset qs = mset ?K + mset ps" "keeps (insert f (set ?K)) (ram s) (ram ?t)"
    "ttbr0_el1 ?t = ttbr0_el1 s"
    using free_slots [OF _ table.hyps(1) table.prems(2-4), of 512] table.IH by auto
  have fpa: "is_frame_pa f" using table.prems(2) by (simp add: wf_tree_def)
  have "set qs = set ?K \<union> set ps" using arg_cong [OF qs(2), of set_mset] by simp
  then have "f \<notin> set qs"
    using table.prems(4) wf_tree_parts(1) [OF table.prems(2,1)] by (auto simp: tree_frames_table [OF table.hyps(1)])
  then have "pool (do_free_table_recursive f level s) (f # qs)"
    unfolding do_free_unfold [OF table.hyps(1)] using qs(1) fpa by (intro add_free_frame_pool)
  moreover have "mset (f # qs) = mset (tree_frames (ram s) level f) + mset ps"
    using qs(2) by (simp add: tree_frames_table [OF table.hyps(1)])
  moreover have "keeps (set (tree_frames (ram s) level f)) (ram s) (ram (do_free_table_recursive f level s))"
    unfolding do_free_unfold [OF table.hyps(1)] tree_frames_table [OF table.hyps(1)]
    using keeps_trans [OF qs(3) keeps_add_free_frame [OF fpa]] by (rule keeps_mono) auto
  moreover have "ttbr0_el1 (do_free_table_recursive f level s) = ttbr0_el1 s"
    unfolding do_free_unfold [OF table.hyps(1)] using fpa qs(4) by (simp add: add_free_frame_fields frame_va_aligned)
  ultimately show ?case unfolding freed_def by blast
qed

end
