(* ===== verification/PageDup.thy ===== *)
theory PageDup
  imports PageFree
begin

text \<open>
  The specification of \<^verbatim>\<open>do_duplicate_table_recursive\<close>: \<open>copied\<close> relates a tree and its deep copy; one slot, the loop over
  the slots and the recursion over levels each have a contract (\<open>slot_post\<close>, \<open>loop_post\<close>, \<open>dup_post\<close>) that accounts for every frame
  on success and on failure, and that says exactly when the free frames suffice.
\<close>

section \<open>Deep copies\<close>

function copied :: "ram \<Rightarrow> ram \<Rightarrow> nat \<Rightarrow> u64 \<Rightarrow> u64 \<Rightarrow> bool" where
  "copied m m' level src dst =
     (if level > 3 then (\<forall>k < 4096. m' (ttbr1_to_va dst + of_nat k) = m (ttbr1_to_va src + of_nat k))
      else (\<forall>i < 512. is_valid (entry m' dst i) = is_valid (entry m src i)
        \<and> (is_valid (entry m src i) \<longrightarrow>
             entry m' dst i AND NOT PA_MASK = entry m src i AND NOT PA_MASK
             \<and> copied m m' (level + 1) (entry_pa (entry m src i)) (entry_pa (entry m' dst i)))))"
  by pat_completeness auto
termination
  by (relation "measure (\<lambda>(m, m', level, f, g). 4 - level)") auto

declare copied.simps [simp del]

definition copied_slot :: "ram \<Rightarrow> ram \<Rightarrow> nat \<Rightarrow> u64 \<Rightarrow> u64 \<Rightarrow> nat \<Rightarrow> bool" where
  "copied_slot m m' level src dst i \<longleftrightarrow> is_valid (entry m' dst i) = is_valid (entry m src i)
        \<and> (is_valid (entry m src i) \<longrightarrow>
             entry m' dst i AND NOT PA_MASK = entry m src i AND NOT PA_MASK
             \<and> copied m m' (level + 1) (entry_pa (entry m src i)) (entry_pa (entry m' dst i)))"

lemma copied_table: "level \<le> 3 \<Longrightarrow> copied m m' level src dst \<longleftrightarrow> (\<forall>i < 512. copied_slot m m' level src dst i)"
  by (subst copied.simps) (simp add: copied_slot_def)

lemma copied_leaf: "level > 3 \<Longrightarrow> copied m m' level src dst \<longleftrightarrow>
     (\<forall>k < 4096. m' (ttbr1_to_va dst + of_nat k) = m (ttbr1_to_va src + of_nat k))"
  by (subst copied.simps) simp

lemma same_frame_byte:
  "keeps F m m' \<Longrightarrow> is_frame_pa f \<Longrightarrow> f \<notin> F \<Longrightarrow> k < 4096 \<Longrightarrow> m' (ttbr1_to_va f + of_nat k) = m (ttbr1_to_va f + of_nat k)"
  by (simp add: keeps_def same_frame_def frame_va_aligned)

lemma copied_keeps:
  "copied m m' level f g \<Longrightarrow> keeps F m m1 \<Longrightarrow> F \<inter> set (tree_frames m level f) = {} \<Longrightarrow> wf_tree m level f \<Longrightarrow>
   keeps G m' m1' \<Longrightarrow> G \<inter> set (tree_frames m' level g) = {} \<Longrightarrow> wf_tree m' level g \<Longrightarrow> copied m1 m1' level f g"
proof (induction level arbitrary: f g rule: level_induct)
  case (leaf level)
  then show ?case by (simp add: copied_leaf same_frame_byte wf_tree_def)
next
  case (table level)
  note l = table.hyps
  have fg: "is_frame_pa f" "is_frame_pa g" "f \<notin> F" "g \<notin> G"
    using table.prems by (auto simp: wf_tree_def dest: equalityD1)
  show ?case
    unfolding copied_table [OF l]
  proof (intro allI impI)
    fix i :: nat assume i: "i < 512"
    have e: "entry m1 f i = entry m f i" "entry m1' g i = entry m' g i"
      using fg i by (simp_all add: keeps_entry [OF table.prems(2)] keeps_entry [OF table.prems(5)])
    have c: "copied_slot m m' level f g i" using table.prems(1) i by (simp add: copied_table [OF l])
    show "copied_slot m1 m1' level f g i"
    proof (cases "is_valid (entry m f i)")
      case False
      then show ?thesis using c by (simp add: copied_slot_def e)
    next
      case True
      then have v: "is_valid (entry m' g i)" and cc: "copied m m' (level + 1) (entry_pa (entry m f i)) (entry_pa (entry m' g i))"
        using c by (simp_all add: copied_slot_def)
      have "F \<inter> set (tree_frames m (level + 1) (entry_pa (entry m f i))) = {}"
        "G \<inter> set (tree_frames m' (level + 1) (entry_pa (entry m' g i))) = {}"
        using table.prems(3,6) kids_in_tree [OF l i, of _ m f] kids_in_tree [OF l i, of _ m' g] True v
        by (auto simp: kids_def)
      then have "copied m1 m1' (level + 1) (entry_pa (entry m f i)) (entry_pa (entry m' g i))"
        using table.IH [OF cc table.prems(2) _ wf_tree_parts(3) [OF table.prems(4) l i True]
          table.prems(5) _ wf_tree_parts(3) [OF table.prems(7) l i v]] by blast
      then show ?thesis using c by (simp add: copied_slot_def e)
    qed
  qed
qed

section \<open>Duplicating a table\<close>

definition dup_slot :: "u64 \<Rightarrow> u64 \<Rightarrow> nat \<Rightarrow> nat \<Rightarrow> pgstate \<Rightarrow> (string + unit) \<times> pgstate" where
  "dup_slot src_ttpa dst_ttpa level i s =
       (let src_entry = entry (ram s) src_ttpa i in
        if is_valid src_entry then
          (let old_pa = entry_pa src_entry; flags = src_entry AND NOT PA_MASK in
           if level < 3 then
             (case get_free_frame_pa s of
                (None, s) \<Rightarrow> (Inl ''Out of memory: failed to allocate intermediate page table'', s)
              | (Some new_table_pa, s) \<Rightarrow>
                  do_duplicate_table_recursive old_pa new_table_pa (level + 1)
                    (set_entry dst_ttpa i (new_table_pa OR flags) (fill_zero new_table_pa s)))
           else
             (case get_free_frame_pa s of
                (None, s) \<Rightarrow> (Inl ''Out of memory: failed to allocate data frame for child process'', s)
              | (Some new_frame_pa, s) \<Rightarrow>
                  (Inr (), set_entry dst_ttpa i (new_frame_pa OR flags)
                     (s\<lparr>ram := copy_bytes (ram s) (ttbr1_to_va old_pa) (ttbr1_to_va new_frame_pa) 4096\<rparr>))))
        else (Inr (), s))"

lemma do_dup_unfold:
  "level \<le> 3 \<Longrightarrow> do_duplicate_table_recursive src dst level s = for_result (dup_slot src dst level) [0..<512] s"
  by (subst do_duplicate_table_recursive.simps) (simp add: dup_slot_def [abs_def] PAGE_ENTRIES_def)

lemma for_result_snoc:
  "for_result f (xs @ [x]) s = (case for_result f xs s of (Inl e, s') \<Rightarrow> (Inl e, s') | (Inr _, s') \<Rightarrow> f x s')"
proof (induction xs arbitrary: s)
  case Nil
  show ?case by (cases "f x s") (auto split: sum.splits)
next
  case (Cons y xs)
  then show ?case by (auto split: prod.splits sum.splits)
qed

definition dup_pre :: "nat \<Rightarrow> u64 \<Rightarrow> u64 \<Rightarrow> pgstate \<Rightarrow> u64 list \<Rightarrow> bool" where
  "dup_pre level src dst s ps \<longleftrightarrow> wf_tree (ram s) level src \<and> is_frame_pa dst \<and> pool s ps
     \<and> distinct (tree_frames (ram s) level src @ dst # ps) \<and> (\<forall>j < 512. \<not> is_valid (entry (ram s) dst j))"

definition dup_post :: "nat \<Rightarrow> u64 \<Rightarrow> u64 \<Rightarrow> pgstate \<Rightarrow> u64 list \<Rightarrow> (string + unit) \<times> pgstate \<Rightarrow> bool" where
  "dup_post level src dst s ps res \<longleftrightarrow>
     (\<exists>ps'. pool (snd res) ps' \<and> mset (tree_frames (ram (snd res)) level dst) + mset ps' = add_mset dst (mset ps)
       \<and> keeps (insert dst (set ps)) (ram s) (ram (snd res)) \<and> ttbr0_el1 (snd res) = ttbr0_el1 s
       \<and> (case fst res of
            Inl e \<Rightarrow> length ps + 1 < length (tree_frames (ram s) level src)
          | Inr _ \<Rightarrow> copied (ram s) (ram (snd res)) level src dst
              \<and> length ps + 1 = length (tree_frames (ram s) level src) + length ps'))"

lemma flags_or:
  assumes "is_frame_pa q"
  shows "(q OR (e AND NOT PA_MASK)) AND NOT PA_MASK = e AND NOT PA_MASK"
proof -
  have "q AND PA_MASK = q" using entry_pa_frame [OF assms] by (simp add: entry_pa_def)
  then have "q AND NOT PA_MASK = 0"
    by (metis (no_types) and.assoc bit.conj_cancel_right bit.conj_zero_right)
  then show ?thesis by (simp add: bit.conj_disj_distrib2 and.assoc)
qed

lemma fields_copy [simp]:
  "FREE_FRAME_LIST (s\<lparr>ram := m\<rparr>) = FREE_FRAME_LIST s" "FREE_FRAME_COUNT (s\<lparr>ram := m\<rparr>) = FREE_FRAME_COUNT s"
  by simp_all

lemma keeps_copy_bytes: "is_frame_pa t \<Longrightarrow> keeps {t} m (copy_bytes m a (ttbr1_to_va t) 4096)"
  unfolding keeps_def by (auto simp: frame_va_aligned)

lemma kids_nonempty: "is_valid (entry m f i) \<Longrightarrow> 0 < length (kids m level f i)"
  by (simp add: kids_def) (subst tree_frames.simps, simp)

text \<open>One slot, with the source tree and the part of the destination built so far left alone.\<close>

definition slot_pre :: "nat \<Rightarrow> u64 \<Rightarrow> u64 \<Rightarrow> nat \<Rightarrow> pgstate \<Rightarrow> u64 list \<Rightarrow> bool" where
  "slot_pre level src dst n s ps \<longleftrightarrow> level \<le> 3 \<and> n < 512 \<and> wf_tree (ram s) level src \<and> wf_tree (ram s) level dst
     \<and> pool s ps \<and> distinct (tree_frames (ram s) level src @ tree_frames (ram s) level dst @ ps)
     \<and> \<not> is_valid (entry (ram s) dst n)"

definition slot_post :: "nat \<Rightarrow> u64 \<Rightarrow> u64 \<Rightarrow> nat \<Rightarrow> pgstate \<Rightarrow> u64 list \<Rightarrow> (string + unit) \<times> pgstate \<Rightarrow> bool" where
  "slot_post level src dst n s ps res \<longleftrightarrow>
     (\<exists>ps'. pool (snd res) ps' \<and> mset (kids (ram (snd res)) level dst n) + mset ps' = mset ps
       \<and> keeps (insert dst (set ps)) (ram s) (ram (snd res)) \<and> ttbr0_el1 (snd res) = ttbr0_el1 s
       \<and> (\<forall>j < 512. j \<noteq> n \<longrightarrow> entry (ram (snd res)) dst j = entry (ram s) dst j)
       \<and> (case fst res of
            Inl e \<Rightarrow> length ps < length (kids (ram s) level src n)
          | Inr _ \<Rightarrow> copied_slot (ram s) (ram (snd res)) level src dst n
              \<and> length ps = length (kids (ram s) level src n) + length ps'))"

lemma wf_tree_mset:
  assumes "mset (tree_frames m level f) + mset qs = add_mset f (mset ps)" "distinct (f # ps)" "\<forall>p \<in> set (f # ps). is_frame_pa p"
  shows "wf_tree m level f" "distinct (tree_frames m level f @ qs)" "set (tree_frames m level f @ qs) = set (f # ps)"
proof -
  from assms(1) have e: "mset (tree_frames m level f @ qs) = mset (f # ps)" by simp
  show d: "distinct (tree_frames m level f @ qs)" using mset_eq_imp_distinct_iff [OF e] assms(2) by simp
  show s: "set (tree_frames m level f @ qs) = set (f # ps)" by (rule mset_eq_setD [OF e])
  then have "\<forall>g \<in> set (tree_frames m level f). is_frame_pa g" using assms(3) by (metis Un_iff set_append)
  then show "wf_tree m level f" using d by (simp add: wf_tree_def)
qed

text \<open>What is known of the first free frame \<open>q\<close> when a slot with a valid entry is copied.\<close>

lemma slot_frame:
  assumes "slot_pre level src dst n s (q # qs)" "is_valid (entry (ram s) src n)"
  shows "is_frame_pa dst" "is_frame_pa q" "q \<noteq> dst" "q \<notin> set qs" "dst \<notin> set qs"
    "is_valid (q OR (entry (ram s) src n AND NOT PA_MASK))" "entry_pa (q OR (entry (ram s) src n AND NOT PA_MASK)) = q"
    "kids (ram s) level src n = tree_frames (ram s) (level + 1) (entry_pa (entry (ram s) src n))"
    "\<exists>s1. get_free_frame_pa s = (Some q, s1) \<and> pool s1 qs \<and> ram s1 = ram s \<and> ttbr0_el1 s1 = ttbr0_el1 s"
proof -
  show fq: "is_frame_pa q" and "is_frame_pa dst" using assms(1) by (simp_all add: slot_pre_def pool_def wf_tree_def)
  show "q \<noteq> dst" "q \<notin> set qs" "dst \<notin> set qs"
    using assms(1) root_in_tree [of dst "ram s" level] by (auto simp: slot_pre_def simp del: root_in_tree)
  show "is_valid (q OR (entry (ram s) src n AND NOT PA_MASK))" "entry_pa (q OR (entry (ram s) src n AND NOT PA_MASK)) = q"
    using assms(2) fq by (simp_all add: is_valid_flags entry_pa_or flags_no_pa)
  show "kids (ram s) level src n = tree_frames (ram s) (level + 1) (entry_pa (entry (ram s) src n))" using assms(2) by (simp add: kids_def)
  show "\<exists>s1. get_free_frame_pa s = (Some q, s1) \<and> pool s1 qs \<and> ram s1 = ram s \<and> ttbr0_el1 s1 = ttbr0_el1 s"
    using get_free_frame_pa_Cons assms(1) unfolding slot_pre_def by metis
qed

lemma slot_sources:
  assumes "slot_pre level src dst n s (q # qs)" "is_valid (entry (ram s) src n)"
  defines "c \<equiv> entry_pa (entry (ram s) src n)"
  shows "wf_tree (ram s) (level + 1) c" "insert dst (set (q # qs)) \<inter> set (tree_frames (ram s) (level + 1) c) = {}"
proof -
  have p: "level \<le> 3" "n < 512" "wf_tree (ram s) level src" "distinct (tree_frames (ram s) level src @ tree_frames (ram s) level dst @ q # qs)"
    using assms(1) by (simp_all add: slot_pre_def)
  show "wf_tree (ram s) (level + 1) c" unfolding c_def by (rule wf_tree_parts(3) [OF p(3,1,2) assms(2)])
  have "set (tree_frames (ram s) (level + 1) c) \<subseteq> set (tree_frames (ram s) level src)"
    using kids_in_tree [OF p(1,2)] assms(2) by (auto simp: kids_def c_def)
  then show "insert dst (set (q # qs)) \<inter> set (tree_frames (ram s) (level + 1) c) = {}"
    using p(4) root_in_tree [of dst "ram s" level] by (auto simp del: root_in_tree)
qed

text \<open>The entry of a table: the copy of the table below it goes to the new frame.\<close>

lemma dup_slot_table:
  assumes IH: "\<And>f g s ps. dup_pre (level + 1) f g s ps \<Longrightarrow> dup_post (level + 1) f g s ps (do_duplicate_table_recursive f g (level + 1) s)"
    and pre: "slot_pre level src dst n s (q # qs)" and v: "is_valid (entry (ram s) src n)" and lt: "level < 3"
  shows "slot_post level src dst n s (q # qs) (dup_slot src dst level n s)"
proof -
  let ?e = "entry (ram s) src n"
  let ?c = "entry_pa ?e" and ?fl = "?e AND NOT PA_MASK"
  have n: "n < 512" using pre by (simp add: slot_pre_def)
  note q = slot_frame(1-7) [OF pre v] and K = slot_frame(8) [OF pre v] and src = slot_sources [OF pre v]
  obtain s1 where s1: "get_free_frame_pa s = (Some q, s1)" "pool s1 qs" "ram s1 = ram s" "ttbr0_el1 s1 = ttbr0_el1 s" using slot_frame(9) [OF pre v] by blast
  let ?t = "set_entry dst n (q OR ?fl) (fill_zero q s1)"
  let ?r = "do_duplicate_table_recursive ?c q (level + 1) ?t"
  have r: "dup_slot src dst level n s = ?r" using v lt s1(1) by (simp add: dup_slot_def Let_def)
  have kt: "keeps {dst, q} (ram s) (ram ?t)"
    using keeps_trans [OF keeps_fill_zero [OF q(2), of s1] keeps_set_entry [OF q(1) n, of "fill_zero q s1" "q OR ?fl"]]
    unfolding s1(3) by (rule keeps_mono) auto
  have "{dst, q} \<inter> set (tree_tables (ram s) (level + 1) ?c) = {}" using src(2) tables_subset [of "ram s" "level + 1" ?c] by auto
  note kc = keeps_tree [OF kt src(1) this]
  have pt: "pool ?t qs" using kt q by (intro pool_keeps [OF s1(2), where F = "{dst, q}"]) (auto simp: s1(3))
  have dq: "distinct (q # qs)" "\<forall>p \<in> set (q # qs). is_frame_pa p" using pre by (simp_all add: slot_pre_def pool_def)
  have "dup_pre (level + 1) ?c q ?t qs"
    unfolding dup_pre_def kc(1) using kc(3) src pt q n dq(1) by (auto simp: wf_tree_def)
  from IH [OF this] obtain rs where rs: "pool (snd ?r) rs" "mset (tree_frames (ram (snd ?r)) (level + 1) q) + mset rs = add_mset q (mset qs)"
    "keeps (insert q (set qs)) (ram ?t) (ram (snd ?r))" "ttbr0_el1 (snd ?r) = ttbr0_el1 s"
    and res: "case fst ?r of
        Inl e \<Rightarrow> length qs + 1 < length (tree_frames (ram s) (level + 1) ?c)
      | Inr _ \<Rightarrow> copied (ram ?t) (ram (snd ?r)) (level + 1) ?c q
          \<and> length qs + 1 = length (tree_frames (ram s) (level + 1) ?c) + length rs"
    unfolding dup_post_def kc(1) using s1(4) by auto
  have ent: "entry (ram (snd ?r)) dst j = (if j = n then q OR ?fl else entry (ram s) dst j)" if "j < 512" for j
    using that keeps_entry [OF rs(3) q(1) _ that] q n s1(3) by auto
  have "copied_slot (ram s) (ram (snd ?r)) level src dst n" if "copied (ram ?t) (ram (snd ?r)) (level + 1) ?c q"
  proof -
    have "copied (ram s) (ram (snd ?r)) (level + 1) ?c q"
      using that keeps_sym [OF kt] _ kc(3) keeps_refl _ wf_tree_mset(1) [OF rs(2) dq]
      by (rule copied_keeps [where G = "{}"]) (use src kc(1) in auto)
    then show ?thesis unfolding copied_slot_def using v q ent [OF n] flags_or [OF q(2)] by simp
  qed
  moreover have "mset (kids (ram (snd ?r)) level dst n) + mset rs = mset (q # qs)" using rs(2) ent [OF n] q by (simp add: kids_def)
  moreover have "keeps (insert dst (set (q # qs))) (ram s) (ram (snd ?r))" using keeps_trans [OF kt rs(3)] by (elim keeps_mono) auto
  ultimately show ?thesis
    unfolding slot_post_def r K using rs(1,4) ent res by (intro exI [of _ rs]) (auto split: sum.splits)
qed

text \<open>The entry of a page: its contents are copied to the new frame.\<close>

lemma dup_slot_page:
  assumes pre: "slot_pre level src dst n s (q # qs)" and v: "is_valid (entry (ram s) src n)" and l4: "level + 1 > 3"
  shows "slot_post level src dst n s (q # qs) (dup_slot src dst level n s)"
proof -
  let ?e = "entry (ram s) src n"
  let ?c = "entry_pa ?e" and ?fl = "?e AND NOT PA_MASK"
  have n: "n < 512" using pre by (simp add: slot_pre_def)
  note q = slot_frame(1-7) [OF pre v] and K = slot_frame(8) [OF pre v]
  obtain s1 where s1: "get_free_frame_pa s = (Some q, s1)" "pool s1 qs" "ram s1 = ram s" "ttbr0_el1 s1 = ttbr0_el1 s" using slot_frame(9) [OF pre v] by blast
  let ?m = "s1\<lparr>ram := copy_bytes (ram s1) (ttbr1_to_va ?c) (ttbr1_to_va q) 4096\<rparr>"
  let ?t = "set_entry dst n (q OR ?fl) ?m"
  have r: "dup_slot src dst level n s = (Inr (), ?t)" using v l4 s1(1) by (simp add: dup_slot_def Let_def)
  have km: "keeps {q} (ram s) (ram ?m)" using keeps_copy_bytes [OF q(2)] s1(3) by simp
  have kt: "keeps {dst, q} (ram s) (ram ?t)"
    using keeps_trans [OF km keeps_set_entry [OF q(1) n, of ?m "q OR ?fl"]] by (rule keeps_mono) auto
  have pt: "pool ?t qs" using kt q by (intro pool_keeps [OF s1(2), where F = "{dst, q}"]) (auto simp: s1(3))
  have ent: "entry (ram ?t) dst j = (if j = n then q OR ?fl else entry (ram s) dst j)" if "j < 512" for j
    using that keeps_entry [OF km q(1) _ that] q n by auto
  have b: "ram ?t (ttbr1_to_va q + of_nat k) = ram s (ttbr1_to_va ?c + of_nat k)" if "k < 4096" for k
  proof -
    have "ram ?t (ttbr1_to_va q + of_nat k) = ram ?m (ttbr1_to_va q + of_nat k)"
      using that q by (intro same_frame_byte [OF keeps_set_entry [OF q(1) n] q(2)]) auto
    also have "\<dots> = ram s (ttbr1_to_va ?c + of_nat k)" using that s1(3) by (simp add: copy_bytes_def of_nat_less_word)
    finally show ?thesis .
  qed
  have "copied_slot (ram s) (ram ?t) level src dst n"
    unfolding copied_slot_def copied_leaf [OF l4] using v q ent [OF n] flags_or [OF q(2)] b by simp
  moreover have "keeps (insert dst (set (q # qs))) (ram s) (ram ?t)" using kt by (elim keeps_mono) auto
  moreover have "mset (kids (ram ?t) level dst n) + mset qs = mset (q # qs)" using ent [OF n] q l4 by (simp add: kids_def)
  ultimately show ?thesis
    unfolding slot_post_def r K tree_frames_leaf [OF l4] using pt ent s1(4) by (intro exI [of _ qs]) simp
qed

lemma dup_slot_spec:
  assumes IH: "\<And>f g s ps. level < 3 \<Longrightarrow> dup_pre (level + 1) f g s ps \<Longrightarrow>
       dup_post (level + 1) f g s ps (do_duplicate_table_recursive f g (level + 1) s)"
    and pre: "slot_pre level src dst n s ps"
  shows "slot_post level src dst n s ps (dup_slot src dst level n s)"
proof (cases "is_valid (entry (ram s) src n)")
  case False
  then have "dup_slot src dst level n s = (Inr (), s)" by (simp add: dup_slot_def)
  then show ?thesis using pre False by (auto simp: slot_post_def slot_pre_def kids_def copied_slot_def)
next
  case v: True
  have pl: "pool s ps" and inv: "\<not> is_valid (entry (ram s) dst n)" using pre by (simp_all add: slot_pre_def)
  show ?thesis
  proof (cases ps)
    case Nil
    then have g: "get_free_frame_pa s = (None, s)" using pl get_free_frame_pa_empty by simp
    have "\<exists>e. dup_slot src dst level n s = (Inl e, s)" using v by (simp add: dup_slot_def g Let_def)
    then show ?thesis using pl inv kids_nonempty [OF v, of level] Nil by (auto simp: slot_post_def kids_def)
  next
    case (Cons q qs)
    then show ?thesis using dup_slot_table [OF IH pre [unfolded Cons] v] dup_slot_page [OF pre [unfolded Cons] v] by (cases "level < 3") auto
  qed
qed

lemma copied_slot_keeps:
  assumes "copied_slot m m' level f g j" "level \<le> 3" "j < 512" "wf_tree m level f" "wf_tree m' level g"
    and "keeps F m m1" "f \<notin> F" "F \<inter> set (kids m level f j) = {}"
    and "keeps G m' m1'" "entry m1' g j = entry m' g j" "G \<inter> set (kids m' level g j) = {}"
  shows "copied_slot m1 m1' level f g j"
proof -
  have e: "entry m1 f j = entry m f j" using keeps_entry [OF assms(6) wf_tree_parts(4) [OF assms(4,2,3)] assms(7,3)] .
  show ?thesis
  proof (cases "is_valid (entry m f j)")
    case False
    then show ?thesis using assms(1) by (simp add: copied_slot_def e assms(10))
  next
    case True
    then have v: "is_valid (entry m' g j)" and cc: "copied m m' (level + 1) (entry_pa (entry m f j)) (entry_pa (entry m' g j))"
      using assms(1) by (simp_all add: copied_slot_def)
    have "copied m1 m1' (level + 1) (entry_pa (entry m f j)) (entry_pa (entry m' g j))"
      by (rule copied_keeps [OF cc assms(6) _ wf_tree_parts(3) [OF assms(4,2,3) True] assms(9) _ wf_tree_parts(3) [OF assms(5,2,3) v]])
        (use assms(8,11) True v in \<open>simp_all add: kids_def\<close>)
    then show ?thesis using assms(1) by (simp add: copied_slot_def e assms(10))
  qed
qed

definition loop_post :: "nat \<Rightarrow> u64 \<Rightarrow> u64 \<Rightarrow> pgstate \<Rightarrow> u64 list \<Rightarrow> nat \<Rightarrow> (string + unit) \<times> pgstate \<Rightarrow> bool" where
  "loop_post level src dst s ps n res \<longleftrightarrow>
     (\<exists>ps'. pool (snd res) ps' \<and> mset (tree_frames (ram (snd res)) level dst) + mset ps' = add_mset dst (mset ps)
       \<and> keeps (insert dst (set ps)) (ram s) (ram (snd res)) \<and> ttbr0_el1 (snd res) = ttbr0_el1 s
       \<and> (case fst res of
            Inl e \<Rightarrow> length ps < length (concat (map (kids (ram s) level src) [0..<n]))
          | Inr _ \<Rightarrow> (\<forall>j < n. copied_slot (ram s) (ram (snd res)) level src dst j)
              \<and> (\<forall>j < 512. n \<le> j \<longrightarrow> \<not> is_valid (entry (ram (snd res)) dst j))
              \<and> length ps = length (concat (map (kids (ram s) level src) [0..<n])) + length ps'))"

lemma dup_pre_slot:
  assumes pre: "dup_pre level src dst s ps" and l: "level \<le> 3" and n: "n < 512"
    and t: "pool t qs" "mset (tree_frames (ram t) level dst) + mset qs = add_mset dst (mset ps)"
      "keeps (insert dst (set ps)) (ram s) (ram t)" "\<not> is_valid (entry (ram t) dst n)"
  shows "slot_pre level src dst n t qs" "tree_frames (ram t) level src = tree_frames (ram s) level src"
proof -
  have wf: "wf_tree (ram s) level src" and dis: "distinct (tree_frames (ram s) level src @ dst # ps)"
    using pre by (simp_all add: dup_pre_def)
  have "insert dst (set ps) \<inter> set (tree_tables (ram s) level src) = {}"
    using dis tables_subset [of "ram s" level src] by auto
  note k = keeps_tree [OF t(3) wf this]
  show "tree_frames (ram t) level src = tree_frames (ram s) level src" by (rule k(1))
  have d: "distinct (dst # ps)" "\<forall>p \<in> set (dst # ps). is_frame_pa p" using pre by (auto simp: dup_pre_def pool_def)
  note w = wf_tree_mset [OF t(2) d]
  have "set (tree_frames (ram s) level src) \<inter> set (tree_frames (ram t) level dst @ qs) = {}"
    unfolding w(3) using dis by auto
  then show "slot_pre level src dst n t qs"
    unfolding slot_pre_def k(1) using l n k(3) w t(1,4) dis by auto
qed

lemma dup_loop_step:
  assumes pre: "dup_pre level src dst s ps" and l: "level \<le> 3" and n: "n < 512"
    and t: "loop_post level src dst s ps n (Inr (), t)"
    and slot: "\<And>qs. slot_pre level src dst n t qs \<Longrightarrow> slot_post level src dst n t qs (dup_slot src dst level n t)"
  shows "loop_post level src dst s ps (Suc n) (dup_slot src dst level n t)"
proof -
  let ?K = "\<lambda>n. concat (map (kids (ram s) level src) [0..<n])"
  obtain r u where u: "dup_slot src dst level n t = (r, u)" by force
  from t obtain qs where qs: "pool t qs" "mset (tree_frames (ram t) level dst) + mset qs = add_mset dst (mset ps)"
      "keeps (insert dst (set ps)) (ram s) (ram t)" "ttbr0_el1 t = ttbr0_el1 s"
    and cs: "\<And>j. j < n \<Longrightarrow> copied_slot (ram s) (ram t) level src dst j"
    and iv: "\<And>j. j < 512 \<Longrightarrow> n \<le> j \<Longrightarrow> \<not> is_valid (entry (ram t) dst j)"
    and len: "length ps = length (?K n) + length qs"
    unfolding loop_post_def by auto
  note sp = dup_pre_slot [OF pre l n qs(1-3) iv [OF n order_refl]]
  from sp(1) have wft: "wf_tree (ram t) level src" "wf_tree (ram t) level dst"
    and dt: "distinct (tree_frames (ram t) level src @ tree_frames (ram t) level dst @ qs)"
    by (simp_all add: slot_pre_def)
  have wfs: "wf_tree (ram s) level src" and ds: "distinct (tree_frames (ram s) level src @ dst # ps)"
    using pre by (simp_all add: dup_pre_def)
  have d: "distinct (dst # ps)" "\<forall>p \<in> set (dst # ps). is_frame_pa p" using pre by (auto simp: dup_pre_def pool_def)
  from slot [OF sp(1)] obtain rs where rs: "pool u rs" "mset (kids (ram u) level dst n) + mset rs = mset qs"
      "keeps (insert dst (set qs)) (ram t) (ram u)" "ttbr0_el1 u = ttbr0_el1 t"
    and ent: "\<And>j. j < 512 \<Longrightarrow> j \<noteq> n \<Longrightarrow> entry (ram u) dst j = entry (ram t) dst j"
    and res: "case r of Inl e \<Rightarrow> length qs < length (kids (ram t) level src n)
          | Inr _ \<Rightarrow> copied_slot (ram t) (ram u) level src dst n
              \<and> length qs = length (kids (ram t) level src n) + length rs"
    unfolding slot_post_def u fst_conv snd_conv by auto
  have qsub: "set qs \<subseteq> insert dst (set ps)" using wf_tree_mset(3) [OF qs(2) d] by auto
  have disj: "insert dst (set qs) \<inter> set (kids (ram t) level dst j) = {}" if "j < 512" for j
    using dt wf_tree_parts(1) [OF wft(2) l that] kids_in_tree [OF l that] by auto
  have sj: "insert dst (set ps) \<inter> set (kids (ram s) level src j) = {}" if "j < 512" for j
    using ds kids_in_tree [OF l that] by auto
  have srcn: "src \<notin> insert dst (set ps)" using ds root_in_tree [of src "ram s" level] by (auto simp del: root_in_tree)
  have kt: "kids (ram t) level src n = kids (ram s) level src n"
    using keeps_entry [OF qs(3) wf_tree_parts(4) [OF wfs l n] srcn n]
    by (intro keeps_kids [OF qs(3) wfs l n _ sj [OF n]])
  have ku: "kids (ram u) level dst j = kids (ram t) level dst j" if "j < 512" "j \<noteq> n" for j
    by (rule keeps_kids [OF rs(3) wft(2) l that(1) ent [OF that] disj [OF that(1)]])
  have "mset (kids (ram u) level dst n) + mset rs = mset (kids (ram t) level dst n) + mset qs"
    using rs(2) iv [OF n order_refl] by (simp add: kids_def)
  from mset_tree_update [OF l n ku this]
  have tu: "mset (tree_frames (ram u) level dst) + mset rs = add_mset dst (mset ps)" using qs(2) by simp
  have ks: "keeps (insert dst (set ps)) (ram s) (ram u)"
    using keeps_trans [OF qs(3) rs(3)] qsub by (elim keeps_mono) auto
  have old: "copied_slot (ram s) (ram u) level src dst j" if "j < n" for j
  proof (rule copied_slot_keeps [OF cs [OF that] l _ wfs wft(2) keeps_refl [of "{}"] _ _ rs(3)])
    show "j < 512" using that n by simp
    then show "entry (ram u) dst j = entry (ram t) dst j" "insert dst (set qs) \<inter> set (kids (ram t) level dst j) = {}"
      using ent disj that by simp_all
  qed simp_all
  have new: "copied_slot (ram s) (ram u) level src dst n" if "copied_slot (ram t) (ram u) level src dst n"
    by (rule copied_slot_keeps [OF that l n wft(1) wf_tree_mset(1) [OF tu d] keeps_sym [OF qs(3)] srcn _ keeps_refl [of "{}"]])
      (simp_all add: kt sj [OF n])
  have K: "length (?K (Suc n)) = length (?K n) + length (kids (ram s) level src n)" by simp
  show ?thesis
  proof (cases r)
    case (Inl e)
    then have "length ps < length (?K (Suc n))" using res len kt unfolding K by simp
    then show ?thesis unfolding loop_post_def u using rs(1) tu ks rs(4) qs(4) Inl by auto
  next
    case (Inr x)
    then have c: "copied_slot (ram t) (ram u) level src dst n" and lq: "length ps = length (?K (Suc n)) + length rs"
      using res len kt unfolding K by simp_all
    have "copied_slot (ram s) (ram u) level src dst j" if "j < Suc n" for j
      using that old new [OF c] less_Suc_eq by auto
    moreover have "\<not> is_valid (entry (ram u) dst j)" if "j < 512" "Suc n \<le> j" for j
      using ent [of j] iv [of j] that by simp
    ultimately show ?thesis unfolding loop_post_def u using rs(1) tu ks rs(4) qs(4) Inr lq by auto
  qed
qed

lemma do_duplicate_spec:
  "level \<le> 3 \<Longrightarrow> dup_pre level src dst s ps \<Longrightarrow>
   dup_post level src dst s ps (do_duplicate_table_recursive src dst level s)"
proof (induction level arbitrary: src dst s ps rule: level_induct)
  case (leaf level)
  then show ?case by simp
next
  case (table level)
  note l = table.hyps(1) and pre = table.prems(2)
  have slot: "slot_post level src dst n t qs (dup_slot src dst level n t)" if "slot_pre level src dst n t qs" for n t qs
    by (rule dup_slot_spec [OF _ that]) (use table.IH in simp)
  have "loop_post level src dst s ps n (for_result (dup_slot src dst level) [0..<n] s)" if "n \<le> 512" for n
    using that
  proof (induction n)
    case 0
    have "tree_frames (ram s) level dst = [dst]" using pre l by (intro tree_empty_table) (auto simp: dup_pre_def)
    then show ?case using pre by (auto simp: loop_post_def dup_pre_def)
  next
    case (Suc n)
    then have n: "n < 512" by simp
    obtain r t where rt: "for_result (dup_slot src dst level) [0..<n] s = (r, t)" by force
    then have IH: "loop_post level src dst s ps n (r, t)" using Suc by simp
    show ?case
    proof (cases r)
      case (Inl e)
      then have "for_result (dup_slot src dst level) [0..<Suc n] s = (Inl e, t)" using rt by (simp add: for_result_snoc)
      then show ?thesis using IH Inl by (auto simp: loop_post_def)
    next
      case (Inr x)
      then have "for_result (dup_slot src dst level) [0..<Suc n] s = dup_slot src dst level n t"
        using rt by (simp add: for_result_snoc)
      moreover have "loop_post level src dst s ps (Suc n) (dup_slot src dst level n t)"
        by (rule dup_loop_step [OF pre l n _ slot]) (use IH Inr in auto)
      ultimately show ?thesis by simp
    qed
  qed
  from this [of 512] have lp: "loop_post level src dst s ps 512 (do_duplicate_table_recursive src dst level s)"
    by (simp add: do_dup_unfold [OF l])
  then show ?case
    unfolding loop_post_def dup_post_def copied_table [OF l] tree_frames_table [OF l, of "ram s" src]
    by (auto split: sum.splits)
qed

end
