(* ===== verification/Paging.thy ===== *)
theory Paging
  imports PageDup
begin

text \<open>
  The properties of address-space management: mapping and unmapping a page, freeing and duplicating an address space. The
  \<open>demo\<close> states are small machines (four or eight frames) on which the properties are applied.
\<close>

section \<open>Reading a copy\<close>

lemma copied_node:
  "copied m m' level f g \<Longrightarrow> level + length ks \<le> 4 \<Longrightarrow> set ks \<subseteq> {..<512} \<Longrightarrow>
   (case node m f ks of None \<Rightarrow> node m' g ks = None
    | Some a \<Rightarrow> \<exists>b. node m' g ks = Some b \<and> copied m m' (level + length ks) a b)"
proof (induction ks arbitrary: level f g)
  case Nil
  then show ?case by simp
next
  case (Cons k ks)
  then have l: "level \<le> 3" and k: "k < 512" by auto
  have c: "copied_slot m m' level f g k" using Cons.prems(1) k by (simp add: copied_table [OF l])
  show ?case
  proof (cases "is_valid (entry m f k)")
    case False
    then show ?thesis using c by (simp add: copied_slot_def)
  next
    case True
    then show ?thesis
      using c Cons.IH [of "level + 1" "entry_pa (entry m f k)" "entry_pa (entry m' g k)"] Cons.prems
      by (simp add: copied_slot_def split: option.splits)
  qed
qed

lemma frame_add_or: "page_aligned b \<Longrightarrow> b + (x AND 0xFFF) = b OR (x AND 0xFFF)"
  by (rule disjunctive_add_eq_or) (simp add: page_aligned_def, metis (no_types) and.assoc and.commute bit.conj_zero_right)

lemma ttbr1_to_va_offset:
  assumes "is_frame_pa b"
  shows "ttbr1_to_va (b + (x AND 0xFFF)) = ttbr1_to_va b + of_nat (unat (x AND 0xFFF))"
proof -
  have "ttbr1_to_va (b + (x AND 0xFFF)) = ttbr1_to_va b OR (x AND 0xFFF)"
    using frame_add_or [OF frame_paD [OF assms]] by (simp add: ttbr1_to_va_def ac_simps)
  also have "\<dots> = ttbr1_to_va b + (x AND 0xFFF)"
    by (rule frame_add_or [OF frame_va_aligned [OF assms], symmetric])
  finally show ?thesis by simp
qed

lemma frame_of_offset:
  assumes "is_frame_pa b"
  shows "frame_of (b + (x AND 0xFFF)) = b"
proof -
  have "unat (x AND 0xFFF) < 4096" by (simp add: unat_and_fff)
  from frame_of_add [OF frame_paD [OF assms] this] show ?thesis by (simp only: of_nat_unat) simp
qed

lemma length_kids: "level \<le> 3 \<Longrightarrow> k < 512 \<Longrightarrow> Suc (length (kids m level f k)) \<le> length (tree_frames m level f)"
  by (simp add: tree_frames_table length_concat comp_def) (rule member_le_sum_list, auto)

lemma length_node:
  "node m f ks = Some t \<Longrightarrow> level + length ks \<le> 4 \<Longrightarrow> set ks \<subseteq> {..<512} \<Longrightarrow> Suc (length ks) \<le> length (tree_frames m level f)"
proof (induction ks arbitrary: level f)
  case Nil
  then show ?case by (subst tree_frames.simps) simp
next
  case (Cons k ks)
  then have v: "is_valid (entry m f k)" and l: "level \<le> 3" and k: "k < 512" by (auto split: if_splits)
  have "Suc (length ks) \<le> length (kids m level f k)"
    using Cons.IH [of "entry_pa (entry m f k)" "level + 1"] Cons.prems v by (simp add: kids_def)
  then show ?case using length_kids [OF l k, of m f] by simp
qed

lemma fresh_table:
  assumes "pool s (r # ps)"
  obtains s' where "get_free_frame_pa s = (Some r, s')" "owned (fill_zero r s') r ps" "tree_frames (ram (fill_zero r s')) 1 r = [r]"
    "keeps {r} (ram s) (ram (fill_zero r s'))" "ttbr0_el1 s' = ttbr0_el1 s"
proof -
  obtain s' where s': "get_free_frame_pa s = (Some r, s')" "pool s' ps" "ram s' = ram s" "ttbr0_el1 s' = ttbr0_el1 s"
    using get_free_frame_pa_Cons [OF assms] by metis
  have fr: "is_frame_pa r" "r \<notin> set ps" using assms by (auto simp: pool_def)
  have k: "keeps {r} (ram s') (ram (fill_zero r s'))" by (rule keeps_fill_zero [OF fr(1)])
  have t: "tree_frames (ram (fill_zero r s')) 1 r = [r]" using fr by (intro tree_empty_table) auto
  have "pool (fill_zero r s') ps" using fr by (intro pool_keeps [OF s'(2) k]) auto
  then have "owned (fill_zero r s') r ps" using t fr by (simp add: owned_def pool_def)
  then show ?thesis using that s' t k by simp
qed

lemma duplicate_va_space_spec:
  assumes o: "owned s root ps" and root: "root = translation_table t s"
  obtains (no_frame) e where "ps = []" "duplicate_va_space t s = (Inl e, s)"
  | (dup) dst qs s1 where "ps = dst # qs" "dup_pre 1 root dst s1 qs" "keeps {dst} (ram s) (ram s1)"
      "tree_frames (ram s1) 1 root = tree_frames (ram s) 1 root" "ttbr0_el1 s1 = ttbr0_el1 s"
      "dup_post 1 root dst s1 qs (do_duplicate_table_recursive root dst 1 s1)"
      "duplicate_va_space t s = (case do_duplicate_table_recursive root dst 1 s1 of
         (Inl e, s) \<Rightarrow> (Inl e, free_page_table (Some dst) s) | (Inr _, s) \<Rightarrow> (Inr dst, s))"
proof (cases ps)
  case Nil
  then have "get_free_frame_pa s = (None, s)" using ownedD(1) [OF o] by (simp add: get_free_frame_pa_empty)
  then show ?thesis using no_frame Nil by (simp add: duplicate_va_space_def Let_def)
next
  case (Cons dst qs)
  obtain s' where s': "get_free_frame_pa s = (Some dst, s')" "owned (fill_zero dst s') dst qs"
      "keeps {dst} (ram s) (ram (fill_zero dst s'))" "tree_frames (ram (fill_zero dst s')) 1 dst = [dst]"
      "ttbr0_el1 s' = ttbr0_el1 s"
    using fresh_table ownedD(1) [OF o] Cons by metis
  let ?s = "fill_zero dst s'"
  have dn: "dst \<notin> set (tree_frames (ram s) 1 root)" using ownedD(3) [OF o] Cons by auto
  then have "{dst} \<inter> set (tree_tables (ram s) 1 root) = {}" using tables_subset [of "ram s" 1 root] by auto
  note k = keeps_tree [OF s'(3) ownedD(2) [OF o] this]
  have fd: "is_frame_pa dst" using ownedD(5) [OF o] Cons by simp
  have "distinct (tree_frames (ram s) 1 root @ dst # qs)" using o Cons by (simp add: owned_def)
  then have pre: "dup_pre 1 root dst ?s qs"
    unfolding dup_pre_def k(1) using k(3) fd ownedD(1) [OF s'(2)] by simp
  have "dup_post 1 root dst ?s qs (do_duplicate_table_recursive root dst 1 ?s)"
    by (rule do_duplicate_spec [OF _ pre]) simp
  then show ?thesis using dup [OF Cons pre s'(3) k(1)] s'(1,5) root by (simp add: duplicate_va_space_def Let_def)
qed

section \<open>Properties\<close>

text \<open>C20. Mapping a page that is not mapped, with three frames left, succeeds: the page's address then
  translates to a frame that was free, no other page's translation changes, the frames of the address
  space and the free list still form the same collection without sharing, and no frame outside the tables and
  the free list is written.\<close>

theorem alloc_page_maps:
  assumes "owned s root ps" "ttbr0_to_pa va (Some root) s = None" "3 \<le> length ps"
  shows "\<exists>pa s' ps'. alloc_page va (Some root) s = Inr (pa, s') \<and> pa \<in> set ps
     \<and> ttbr0_to_pa va (Some root) s' = Some (pa + (va AND 0xFFF))
     \<and> (\<forall>va'. va_page va' \<noteq> va_page va \<longrightarrow> ttbr0_to_pa va' (Some root) s' = ttbr0_to_pa va' (Some root) s)
     \<and> owned s' root ps' \<and> all_frames s' root ps' = all_frames s root ps \<and> length ps \<le> length ps' + 3
     \<and> keeps (set (tree_tables (ram s) 1 root) \<union> set ps) (ram s) (ram s')"
  using alloc_page_spec [OF assms] by metis

definition demo_pg :: "u64 \<Rightarrow> pgstate" where
  "demo_pg limit = fill_zero (ttbr1_to_pa (limit - 4096)) (snd (get_free_frame_pa (init_frames 0xffffff8000100000 limit boot_pg)))"

lemma demo_owned:
  assumes "rev (map ttbr1_to_pa (step_by_page 0xffffff8000100000 limit)) = ttbr1_to_pa (limit - 4096) # ps"
    and "0xffffff8000100000 \<le> limit"
  shows "owned (demo_pg limit) (ttbr1_to_pa (limit - 4096)) ps"
    "tree_frames (ram (demo_pg limit)) 1 (ttbr1_to_pa (limit - 4096)) = [ttbr1_to_pa (limit - 4096)]"
    "ttbr0_to_pa va (Some (ttbr1_to_pa (limit - 4096))) (demo_pg limit) = None"
proof -
  let ?r = "ttbr1_to_pa (limit - 4096)"
  have "pool (init_frames 0xffffff8000100000 limit boot_pg) (?r # ps)"
    using init_frames_pool [of "0xffffff8000100000" limit boot_pg] assms
    by (simp add: page_aligned_def boot_pg_def)
  then show o: "owned (demo_pg limit) ?r ps" and t: "tree_frames (ram (demo_pg limit)) 1 ?r = [?r]"
    by (auto elim!: fresh_table simp: demo_pg_def)
  have "\<not> is_valid (entry (ram (demo_pg limit)) ?r (l1_i va))"
    using length_kids [of 1 "l1_i va" "ram (demo_pg limit)" ?r] kids_nonempty [of "ram (demo_pg limit)" ?r "l1_i va" 1] t
    by fastforce
  then show "ttbr0_to_pa va (Some ?r) (demo_pg limit) = None"
    by (simp add: ttbr0_to_pa_def translation_table_def)
qed

lemma demo8:
  "rev (map ttbr1_to_pa (step_by_page 0xffffff8000100000 0xffffff8000108000)) =
     [0x107000, 0x106000, 0x105000, 0x104000, 0x103000, 0x102000, 0x101000, 0x100000]"
  "rev (map ttbr1_to_pa (step_by_page 0xffffff8000100000 0xffffff8000104000)) =
     [0x103000, 0x102000, 0x101000, 0x100000]"
  "ttbr1_to_pa (0xffffff8000108000 - 4096) = 0x107000" "ttbr1_to_pa (0xffffff8000104000 - 4096) = 0x103000"
  by (simp_all add: step_by_page_def ttbr1_to_pa_def PAGE_SIZE_def upt_rec)

lemma demo_limits: "(0xffffff8000100000 :: u64) \<le> 0xffffff8000108000" "(0xffffff8000100000 :: u64) \<le> 0xffffff8000104000"
  by simp_all

lemmas demo_states =
  demo_owned [of "0xffffff8000108000", unfolded demo8, OF refl demo_limits(1)]
  demo_owned [of "0xffffff8000104000", unfolded demo8, OF refl demo_limits(2)]

theorem alloc_page_maps_witness:
  "\<exists>pa s'. alloc_page 0x400000 (Some 0x107000) (demo_pg 0xffffff8000108000) = Inr (pa, s')
     \<and> ttbr0_to_pa 0x400000 (Some 0x107000) s' = Some pa"
proof -
  have "owned (demo_pg 0xffffff8000108000) 0x107000 [0x106000, 0x105000, 0x104000, 0x103000, 0x102000, 0x101000, 0x100000]"
    "ttbr0_to_pa 0x400000 (Some 0x107000) (demo_pg 0xffffff8000108000) = None"
    using demo_states(1,3) by simp_all
  from alloc_page_maps [OF this] show ?thesis by auto
qed

lemma alloc_page_counts:
  assumes "owned s root ps" "ttbr0_to_pa va (Some root) s = None" "3 \<le> length ps"
  shows "\<exists>pa s' ps'. alloc_page va (Some root) s = Inr (pa, s') \<and> owned s' root ps'
     \<and> ttbr0_to_pa va (Some root) s' = Some (pa + (va AND 0xFFF)) \<and> 4 \<le> length (tree_frames (ram s') 1 root)
     \<and> length (tree_frames (ram s') 1 root) + length ps' = length (tree_frames (ram s) 1 root) + length ps
     \<and> length ps \<le> length ps' + 3"
proof -
  obtain pa s' ps' where a: "alloc_page va (Some root) s = Inr (pa, s')" "owned s' root ps'"
    "all_frames s' root ps' = all_frames s root ps" "length ps \<le> length ps' + 3"
    "ttbr0_to_pa va (Some root) s' = Some (pa + (va AND 0xFFF))"
    using alloc_page_spec [OF assms] by metis
  then obtain f where "node (ram s') root (path va) = Some f"
    by (auto simp: ttbr0_to_pa_node translation_table_def)
  from length_node [OF this, of 1] have "4 \<le> length (tree_frames (ram s') 1 root)" by simp
  moreover have "length (tree_frames (ram s') 1 root) + length ps' = length (tree_frames (ram s) 1 root) + length ps"
    using arg_cong [OF a(3), of size] by (simp add: all_frames_def)
  ultimately show ?thesis using a by blast
qed

lemma demo_mapped:
  "\<exists>pa s ps. alloc_page 0x400000 (Some 0x107000) (demo_pg 0xffffff8000108000) = Inr (pa, s) \<and> owned s 0x107000 ps
     \<and> ttbr0_to_pa 0x400000 (Some 0x107000) s = Some pa \<and> length (tree_frames (ram s) 1 0x107000) \<le> length ps"
proof -
  have "length (tree_frames (ram (demo_pg 0xffffff8000108000)) 1 0x107000) = 1" using demo_states(2) by simp
  with alloc_page_counts [OF demo_states(1) demo_states(3), of "0x400000"] show ?thesis
    by simp (elim exE conjE, intro exI conjI, assumption+, linarith)
qed

lemma demo_full:
  "\<exists>pa s ps. alloc_page 0x400000 (Some 0x103000) (demo_pg 0xffffff8000104000) = Inr (pa, s) \<and> owned s 0x103000 ps
     \<and> length ps < length (tree_frames (ram s) 1 0x103000)"
proof -
  have "length (tree_frames (ram (demo_pg 0xffffff8000104000)) 1 0x103000) = 1" using demo_states(5) by simp
  with alloc_page_counts [OF demo_states(4) demo_states(6), of "0x400000"] show ?thesis
    by simp (elim exE conjE, intro exI conjI, assumption+, linarith)
qed

text \<open>Mapping a page stops the kernel when the page is mapped already, and also when the free list is
  empty: it never returns an address in either case.\<close>

lemma alloc_page_panics:
  assumes "owned s root ps"
  shows "(ttbr0_to_pa va (Some root) s \<noteq> None \<longrightarrow> alloc_page va (Some root) s = Inl (Panic ''Page already allocated at va: ''))
    \<and> (ps = [] \<longrightarrow> (\<exists>msg. alloc_page va (Some root) s = Inl (Panic msg)))"
proof (intro conjI impI)
  show "alloc_page va (Some root) s = Inl (Panic ''Page already allocated at va: '')" if "ttbr0_to_pa va (Some root) s \<noteq> None"
    using that by (simp add: alloc_page_def)
  assume "ps = []"
  then have "get_free_frame_pa s = (None, s)" using assms by (simp add: get_free_frame_pa_empty ownedD)
  then show "\<exists>msg. alloc_page va (Some root) s = Inl (Panic msg)" by (simp add: alloc_page_def ensure_table_def Let_def)
qed

lemma alloc_page_panics_example:
  "\<exists>pa s. alloc_page 0x400000 (Some 0x107000) (demo_pg 0xffffff8000108000) = Inr (pa, s)
     \<and> alloc_page 0x400000 (Some 0x107000) s = Inl (Panic ''Page already allocated at va: '')"
proof -
  obtain pa s ps where a: "alloc_page 0x400000 (Some 0x107000) (demo_pg 0xffffff8000108000) = Inr (pa, s)"
    "owned s 0x107000 ps" "ttbr0_to_pa 0x400000 (Some 0x107000) s = Some pa" using demo_mapped by blast
  from alloc_page_panics [OF a(2), of "0x400000"] a(1,3) show ?thesis by auto
qed

text \<open>C21. Unmapping a page gives exactly its frame back to the free list and makes its addresses untranslatable;
  the other pages keep their translation. On a page that is not mapped it does nothing.\<close>

theorem free_page_unmaps:
  assumes "owned s root ps"
  shows "case ttbr0_to_pa va (Some root) s of
      None \<Rightarrow> free_page va (Some root) s = s
    | Some pa \<Rightarrow> (let s' = free_page va (Some root) s in
        owned s' root (frame_of pa # ps) \<and> all_frames s' root (frame_of pa # ps) = all_frames s root ps
        \<and> ttbr0_to_pa va (Some root) s' = None
        \<and> (\<forall>va'. va_page va' \<noteq> va_page va \<longrightarrow> ttbr0_to_pa va' (Some root) s' = ttbr0_to_pa va' (Some root) s))"
proof (cases "node (ram s) root (path va)")
  case None
  then have n: "ttbr0_to_pa va (Some root) s = None" by (simp add: ttbr0_to_pa_node translation_table_def)
  moreover have "free_page va (Some root) s = s"
    using None by (auto simp: free_page_def path_def translation_table_def Let_def split: if_splits)
  ultimately show ?thesis by simp
next
  case (Some p)
  have "is_frame_pa p" using owned_node [OF assms Some] by simp
  moreover have "ttbr0_to_pa va (Some root) s = Some (p + (va AND 0xFFF))"
    using Some by (simp add: ttbr0_to_pa_node translation_table_def)
  ultimately show ?thesis using free_page_spec [OF assms Some] by (simp add: frame_of_offset Let_def)
qed

theorem free_page_unmaps_witness:
  "\<exists>pa s. alloc_page 0x400000 (Some 0x107000) (demo_pg 0xffffff8000108000) = Inr (pa, s)
     \<and> ttbr0_to_pa 0x400000 (Some 0x107000) (free_page 0x400000 (Some 0x107000) s) = None"
proof -
  obtain pa s ps where a: "alloc_page 0x400000 (Some 0x107000) (demo_pg 0xffffff8000108000) = Inr (pa, s)"
    "owned s 0x107000 ps" "ttbr0_to_pa 0x400000 (Some 0x107000) s = Some pa" using demo_mapped by blast
  from free_page_unmaps [OF a(2), of "0x400000"] a(1,3) show ?thesis by (auto simp: Let_def)
qed

lemma free_table_all:
  assumes "owned s root ps" "root = translation_table t s"
  shows "\<exists>ps'. pool (free_page_table t s) ps' \<and> mset ps' = all_frames s root ps
     \<and> keeps (set (tree_frames (ram s) 1 root)) (ram s) (ram (free_page_table t s))"
proof -
  have "freed s (tree_frames (ram s) 1 root) ps (do_free_table_recursive root 1 s)"
    using ownedD(1-3) [OF assms(1)] by (intro do_free_spec) auto
  then show ?thesis using assms(2) by (simp add: freed_def free_page_table_def all_frames_def)
qed

text \<open>C22. Freeing a translation table gives back every frame of the address space (the tables and the data
  pages), each exactly once, and writes to no other frame.\<close>

theorem free_page_table_returns_all:
  assumes "owned s root ps" "root = translation_table t s"
  shows "\<exists>ps'. pool (free_page_table t s) ps' \<and> mset ps' = all_frames s root ps
     \<and> keeps (set (tree_frames (ram s) 1 root)) (ram s) (ram (free_page_table t s))"
  by (rule free_table_all [OF assms])

theorem free_page_table_returns_all_witness:
  "\<exists>pa s ps'. alloc_page 0x400000 (Some 0x107000) (demo_pg 0xffffff8000108000) = Inr (pa, s)
     \<and> pool (free_page_table (Some 0x107000) s) ps'"
proof -
  obtain pa s ps where a: "alloc_page 0x400000 (Some 0x107000) (demo_pg 0xffffff8000108000) = Inr (pa, s)"
    "owned s 0x107000 ps" using demo_mapped by blast
  have "0x107000 = translation_table (Some 0x107000) s" by (simp add: translation_table_def)
  from free_page_table_returns_all [OF a(2) this] a(1) show ?thesis by blast
qed

lemma copied_ttbr0:
  assumes "copied (ram s) (ram s') 1 root dst" "wf_tree (ram s) 1 root" "wf_tree (ram s') 1 dst"
  shows "case ttbr0_to_pa va (Some root) s of None \<Rightarrow> ttbr0_to_pa va (Some dst) s' = None
    | Some a \<Rightarrow> \<exists>b. ttbr0_to_pa va (Some dst) s' = Some b \<and> frame_of b \<in> set (tree_frames (ram s') 1 dst)
        \<and> ram s' (ttbr1_to_va b) = ram s (ttbr1_to_va a)"
proof (cases "node (ram s) root (path va)")
  case None
  then show ?thesis using copied_node [OF assms(1), of "path va"] by (simp add: ttbr0_to_pa_node translation_table_def)
next
  case (Some p)
  let ?o = "va AND 0xFFF"
  obtain q where q: "node (ram s') dst (path va) = Some q" "copied (ram s) (ram s') 4 p q"
    using copied_node [OF assms(1), of "path va"] Some by auto
  have qt: "q \<in> set (tree_frames (ram s') 1 dst)" using node_in_tree [OF q(1), of 1] by simp
  have "p \<in> set (tree_frames (ram s) 1 root)" using node_in_tree [OF Some, of 1] by simp
  then have f: "is_frame_pa p" "is_frame_pa q" using qt assms(2,3) by (auto simp: wf_tree_def)
  have "unat ?o < 4096" by (simp add: unat_and_fff)
  then have "ram s' (ttbr1_to_va (q + ?o)) = ram s (ttbr1_to_va (p + ?o))"
    using q(2) unfolding ttbr1_to_va_offset [OF f(1)] ttbr1_to_va_offset [OF f(2)] by (simp only: copied_leaf)
  then show ?thesis
    using q(1) Some qt frame_of_offset [OF f(2)] by (simp add: ttbr0_to_pa_node translation_table_def)
qed

lemma dup_deep_copy:
  assumes "owned s root ps" "root = translation_table t s" "length (tree_frames (ram s) 1 root) \<le> length ps"
  shows "\<exists>dst s' ps'. duplicate_va_space t s = (Inr dst, s')
     \<and> (\<forall>va. case ttbr0_to_pa va (Some root) s of None \<Rightarrow> ttbr0_to_pa va (Some dst) s' = None
        | Some a \<Rightarrow> \<exists>b. ttbr0_to_pa va (Some dst) s' = Some b \<and> frame_of b \<in> set ps
            \<and> ram s' (ttbr1_to_va b) = ram s (ttbr1_to_va a))
     \<and> owned s' root ps' \<and> tree_frames (ram s') 1 root = tree_frames (ram s) 1 root
     \<and> owned s' dst ps' \<and> all_frames s' dst ps' = mset ps \<and> keeps (set ps) (ram s) (ram s')
     \<and> length ps' + length (tree_frames (ram s) 1 root) = length ps"
  using assms(1,2)
proof (cases rule: duplicate_va_space_spec)
  case no_frame
  then show ?thesis using assms(3) by (simp add: tree_frames_table)
next
  case (dup dst qs s1)
  let ?r = "do_duplicate_table_recursive root dst 1 s1"
  obtain ps' where ps': "pool (snd ?r) ps'" "mset (tree_frames (ram (snd ?r)) 1 dst) + mset ps' = add_mset dst (mset qs)"
      "keeps (insert dst (set qs)) (ram s1) (ram (snd ?r))"
    and res: "case fst ?r of Inl e \<Rightarrow> length qs + 1 < length (tree_frames (ram s1) 1 root)
        | Inr _ \<Rightarrow> copied (ram s1) (ram (snd ?r)) 1 root dst
              \<and> length qs + 1 = length (tree_frames (ram s1) 1 root) + length ps'"
    using dup(6) unfolding dup_post_def by blast
  obtain s' where r: "?r = (Inr (), s')" and c: "copied (ram s1) (ram s') 1 root dst" "length ps' + length (tree_frames (ram s) 1 root) = length ps"
    using res assms(3) dup(1,4) by (cases ?r) (auto split: sum.splits)
  have d: "distinct (dst # qs)" "\<forall>p \<in> set (dst # qs). is_frame_pa p"
    using dup(2) by (auto simp: dup_pre_def pool_def)
  note w = wf_tree_mset [OF ps'(2) d, unfolded r snd_conv]
  note p = ps' [unfolded r snd_conv]
  have o: "owned s' dst ps'" using p(1) w(1,2) by (simp add: owned_def wf_tree_def)
  have wf1: "wf_tree (ram s1) 1 root" and d1: "distinct (tree_frames (ram s1) 1 root @ dst # qs)"
    using dup(2) by (simp_all add: dup_pre_def)
  have k: "keeps (set ps) (ram s) (ram s')"
    using keeps_trans [OF dup(3) p(3)] dup(1) by simp
  have dj: "set ps \<inter> set (tree_frames (ram s) 1 root) = {}" by (rule ownedD(3) [OF assms(1)])
  then have "set ps \<inter> set (tree_tables (ram s) 1 root) = {}" using tables_subset [of "ram s" 1 root] by auto
  note kr = keeps_tree [OF k ownedD(2) [OF assms(1)] this]
  have "set ps' \<subseteq> set ps" using w(3) dup(1) by auto
  then have o': "owned s' root ps'"
    unfolding owned_def kr(1) using o dj ownedD(2) [OF assms(1)] by (auto simp: owned_def wf_tree_def)
  have cs: "copied (ram s) (ram s') 1 root dst"
    by (rule copied_keeps [OF c(1) keeps_sym [OF dup(3)] _ wf1 keeps_refl [of "{}"] _ w(1)])
      (use dj dup(1,4) in auto)
  have "frame_of b \<in> set ps" if "frame_of b \<in> set (tree_frames (ram s') 1 dst)" for b
    using that w(3) dup(1) by auto
  then have "case ttbr0_to_pa va (Some root) s of None \<Rightarrow> ttbr0_to_pa va (Some dst) s' = None
        | Some a \<Rightarrow> \<exists>b. ttbr0_to_pa va (Some dst) s' = Some b \<and> frame_of b \<in> set ps
            \<and> ram s' (ttbr1_to_va b) = ram s (ttbr1_to_va a)" for va
    using copied_ttbr0 [OF cs ownedD(2) [OF assms(1)] w(1), of va] by (auto split: option.splits)
  moreover have "duplicate_va_space t s = (Inr dst, s')" using dup(7) unfolding r by simp
  moreover have "all_frames s' dst ps' = mset ps" using p(2) dup(1) by (simp add: all_frames_def)
  ultimately show ?thesis using o o' kr(1) k c(2) by blast
qed

text \<open>C6. With enough free frames, duplicating an address space succeeds and yields an independent deep copy: every virtual
  address is mapped in the copy exactly when it is mapped in the original, to a frame that was free, and holds the same byte;
  the original keeps its translations and its frames, the copy takes as many frames from the free list and shares none, and nothing
  but frames that were free is written.\<close>

theorem duplicate_va_space_deep_copy:
  assumes "owned s root ps" "root = translation_table t s" "length (tree_frames (ram s) 1 root) \<le> length ps"
  shows "\<exists>dst s' ps'. duplicate_va_space t s = (Inr dst, s')
     \<and> (\<forall>va. case ttbr0_to_pa va (Some root) s of None \<Rightarrow> ttbr0_to_pa va (Some dst) s' = None
        | Some a \<Rightarrow> \<exists>b. ttbr0_to_pa va (Some dst) s' = Some b \<and> frame_of b \<in> set ps
            \<and> ram s' (ttbr1_to_va b) = ram s (ttbr1_to_va a))
     \<and> owned s' root ps' \<and> tree_frames (ram s') 1 root = tree_frames (ram s) 1 root
     \<and> owned s' dst ps' \<and> all_frames s' dst ps' = mset ps \<and> keeps (set ps) (ram s) (ram s')
     \<and> length ps' + length (tree_frames (ram s) 1 root) = length ps"
  by (rule dup_deep_copy [OF assms])

theorem duplicate_va_space_deep_copy_witness:
  "\<exists>pa s. alloc_page 0x400000 (Some 0x107000) (demo_pg 0xffffff8000108000) = Inr (pa, s)
     \<and> (\<exists>dst s' b. duplicate_va_space (Some 0x107000) s = (Inr dst, s')
          \<and> ttbr0_to_pa 0x400000 (Some dst) s' = Some b \<and> ram s' (ttbr1_to_va b) = ram s (ttbr1_to_va pa))"
proof -
  obtain pa s ps where a: "alloc_page 0x400000 (Some 0x107000) (demo_pg 0xffffff8000108000) = Inr (pa, s)"
    "owned s 0x107000 ps" "ttbr0_to_pa 0x400000 (Some 0x107000) s = Some pa"
    "length (tree_frames (ram s) 1 0x107000) \<le> length ps" using demo_mapped by blast
  have "0x107000 = translation_table (Some 0x107000) s" by (simp add: translation_table_def)
  from duplicate_va_space_deep_copy [OF a(2) this a(4)] obtain dst s' where d:
    "duplicate_va_space (Some 0x107000) s = (Inr dst, s')"
    "\<And>va. case ttbr0_to_pa va (Some 0x107000) s of None \<Rightarrow> ttbr0_to_pa va (Some dst) s' = None
        | Some a \<Rightarrow> \<exists>b. ttbr0_to_pa va (Some dst) s' = Some b \<and> frame_of b \<in> set ps
            \<and> ram s' (ttbr1_to_va b) = ram s (ttbr1_to_va a)" by blast
  show ?thesis using d(1) d(2) [of "0x400000"] a(1,3) by auto
qed

lemma dup_rolls_back:
  assumes "owned s root ps" "root = translation_table t s" "length ps < length (tree_frames (ram s) 1 root)"
  shows "\<exists>e s' ps'. duplicate_va_space t s = (Inl e, s') \<and> mset ps' = mset ps
     \<and> owned s' root ps' \<and> tree_frames (ram s') 1 root = tree_frames (ram s) 1 root \<and> keeps (set ps) (ram s) (ram s')"
  using assms(1,2)
proof (cases rule: duplicate_va_space_spec)
  case (no_frame e)
  then show ?thesis using assms(1) by auto
next
  case (dup dst qs s1)
  let ?r = "do_duplicate_table_recursive root dst 1 s1"
  obtain ps' where ps': "pool (snd ?r) ps'" "mset (tree_frames (ram (snd ?r)) 1 dst) + mset ps' = add_mset dst (mset qs)"
      "keeps (insert dst (set qs)) (ram s1) (ram (snd ?r))"
    and res: "case fst ?r of Inl e \<Rightarrow> length qs + 1 < length (tree_frames (ram s1) 1 root)
        | Inr _ \<Rightarrow> copied (ram s1) (ram (snd ?r)) 1 root dst
              \<and> length qs + 1 = length (tree_frames (ram s1) 1 root) + length ps'"
    using dup(6) unfolding dup_post_def by blast
  obtain e s' where r: "?r = (Inl e, s')"
    using res assms(3) dup(1,4) by (cases ?r) (auto split: sum.splits)
  have d: "distinct (dst # qs)" "\<forall>p \<in> set (dst # qs). is_frame_pa p"
    using dup(2) by (auto simp: dup_pre_def pool_def)
  note w = wf_tree_mset [OF ps'(2) d, unfolded r snd_conv]
  note p = ps' [unfolded r snd_conv]
  have "freed s' (tree_frames (ram s') 1 dst) ps' (do_free_table_recursive dst 1 s')"
    using p(1) w(1,2) by (intro do_free_spec) auto
  then obtain rs where rs: "pool (free_page_table (Some dst) s') rs" "mset rs = mset ps"
      "keeps (set (tree_frames (ram s') 1 dst)) (ram s') (ram (free_page_table (Some dst) s'))"
    using p(2) dup(1) by (auto simp: freed_def free_page_table_def translation_table_def)
  have k: "keeps (set ps) (ram s) (ram (free_page_table (Some dst) s'))"
    using keeps_trans [OF keeps_trans [OF dup(3) p(3)] rs(3)] w(3) dup(1)
    by (elim keeps_mono) auto
  have "set ps \<inter> set (tree_tables (ram s) 1 root) = {}"
    using ownedD(3) [OF assms(1)] tables_subset [of "ram s" 1 root] by auto
  note kr = keeps_tree [OF k ownedD(2) [OF assms(1)] this]
  have "owned (free_page_table (Some dst) s') root rs"
    by (rule owned_transfer [OF assms(1) rs(1)]) (simp only: all_frames_def kr(1) rs(2))
  moreover have "duplicate_va_space t s = (Inl e, free_page_table (Some dst) s')" using dup(7) unfolding r by simp
  ultimately show ?thesis using rs(2) k kr(1) by blast
qed

text \<open>C16. When the free frames do not suffice, duplicating an address space reports an error and leaves no trace: the
  free list holds the same frames as before (in some order) and no frame that was in use has been written.\<close>

theorem duplicate_va_space_rolls_back:
  assumes "owned s root ps" "root = translation_table t s" "length ps < length (tree_frames (ram s) 1 root)"
  shows "\<exists>e s' ps'. duplicate_va_space t s = (Inl e, s') \<and> mset ps' = mset ps
     \<and> owned s' root ps' \<and> tree_frames (ram s') 1 root = tree_frames (ram s) 1 root \<and> keeps (set ps) (ram s) (ram s')"
  by (rule dup_rolls_back [OF assms])

theorem duplicate_va_space_rolls_back_witness:
  "\<exists>pa s e s'. alloc_page 0x400000 (Some 0x103000) (demo_pg 0xffffff8000104000) = Inr (pa, s)
     \<and> duplicate_va_space (Some 0x103000) s = (Inl e, s')"
proof -
  obtain pa s ps where a: "alloc_page 0x400000 (Some 0x103000) (demo_pg 0xffffff8000104000) = Inr (pa, s)"
    "owned s 0x103000 ps" "length ps < length (tree_frames (ram s) 1 0x103000)" using demo_full by blast
  have "0x103000 = translation_table (Some 0x103000) s" by (simp add: translation_table_def)
  from duplicate_va_space_rolls_back [OF a(2) this a(3)] a(1) show ?thesis by blast
qed

end
