(* ===== verification/PageRange.thy ===== *)
theory PageRange
  imports Paging
begin

text \<open>
  Mapping and unmapping several pages in a row, which is what the ELF loader and the kernel stacks do: from the contract of one page
  come the contracts of a list of pages on distinct page numbers. \<open>mapped\<close> says that an address translates.
\<close>

abbreviation mapped :: "u64 \<Rightarrow> u64 \<Rightarrow> pgstate \<Rightarrow> bool" where
  "mapped va root g \<equiv> ttbr0_to_pa va (Some root) g \<noteq> None"

primrec alloc_all :: "u64 \<Rightarrow> u64 list \<Rightarrow> pgstate \<Rightarrow> halt + pgstate" where
  "alloc_all root [] g = Inr g"
| "alloc_all root (va # vas) g = kbind (alloc_page va (Some root) g) (\<lambda>(_, g). alloc_all root vas g)"

definition free_all :: "u64 \<Rightarrow> u64 list \<Rightarrow> pgstate \<Rightarrow> pgstate" where
  "free_all root = fold (\<lambda>va. free_page va (Some root))"

lemma alloc_all_append: "alloc_all root (xs @ ys) g = kbind (alloc_all root xs g) (alloc_all root ys)"
  by (induction xs arbitrary: g) (auto simp: kbind_def split: sum.splits)

lemma mapped_page_cong: "va_page va = va_page va' \<Longrightarrow> mapped va root g = mapped va' root g"
  by (simp add: ttbr0_to_pa_node flip: path_eq_iff)

lemma tables_pool_subset: "set (tree_tables (ram g) 1 root) \<union> set ps \<subseteq> set_mset (all_frames g root ps)"
  using tables_subset [of "ram g" 1 root] by (auto simp: all_frames_def)

section \<open>Walks are injective\<close>

lemma node_inj:
  "node m f ks = Some t \<Longrightarrow> node m f ls = Some t \<Longrightarrow> wf_tree m level f \<Longrightarrow> level + length ks \<le> 4 \<Longrightarrow> length ls = length ks \<Longrightarrow>
   set ks \<subseteq> {..<512} \<Longrightarrow> set ls \<subseteq> {..<512} \<Longrightarrow> ks = ls"
proof (induction ks arbitrary: f level ls)
  case Nil
  then show ?case by simp
next
  case (Cons k ks)
  then obtain l ls' where ls: "ls = l # ls'" by (cases ls) auto
  have v: "is_valid (entry m f k)" "is_valid (entry m f l)" and lv: "level \<le> 3" and kl: "k < 512" "l < 512"
    using Cons.prems ls by (auto split: if_splits)
  have n: "node m (entry_pa (entry m f k)) ks = Some t" "node m (entry_pa (entry m f l)) ls' = Some t"
    using Cons.prems(1,2) v ls by simp_all
  have "t \<in> set (kids m level f k)" "t \<in> set (kids m level f l)"
    using node_in_tree [OF n(1), of "level + 1"] node_in_tree [OF n(2), of "level + 1"] Cons.prems v ls by (simp_all add: kids_def)
  then have "k = l" using wf_tree_parts(2) [OF Cons.prems(3) lv kl(1) kl(2)] by blast
  moreover have "ks = ls'"
    using Cons.prems n \<open>k = l\<close> ls by (intro Cons.IH [OF n(1) _ wf_tree_parts(3) [OF Cons.prems(3) lv kl(1) v(1)]]) auto
  ultimately show ?case using ls by simp
qed

lemma owned_inj:
  assumes "owned s t ps" "node (ram s) t (path va) = Some p" "node (ram s) t (path va') = Some p"
  shows "va_page va = va_page va'"
  using node_inj [OF assms(2,3) ownedD(2) [OF assms(1)]] path_eq_iff by simp

section \<open>Data frames are not tables\<close>

lemma leaf_not_table:
  "node m f ks = Some t \<Longrightarrow> level + length ks = 4 \<Longrightarrow> set ks \<subseteq> {..<512} \<Longrightarrow> wf_tree m level f \<Longrightarrow>
   t \<notin> set (tree_tables m level f)"
proof (induction ks arbitrary: f level)
  case Nil
  then show ?case by simp
next
  case (Cons k ks)
  then have v: "is_valid (entry m f k)" and l: "level \<le> 3" and k: "k < 512" by (auto split: if_splits)
  let ?c = "entry_pa (entry m f k)"
  have n: "node m ?c ks = Some t" using Cons.prems(1) v by simp
  have t: "t \<in> set (kids m level f k)"
    using node_in_tree [OF n, of "level + 1"] Cons.prems v by (simp add: kids_def)
  have "t \<notin> set (tree_tables m (level + 1) ?c)"
    using Cons.prems by (intro Cons.IH n wf_tree_parts(3) [OF Cons.prems(4) l k v]) auto
  moreover have "t \<noteq> f" using t wf_tree_parts(1) [OF Cons.prems(4) l k] by auto
  moreover have "t \<notin> set (tree_tables m (level + 1) (entry_pa (entry m f j)))" if "j < 512" "is_valid (entry m f j)" "j \<noteq> k" for j
    using wf_tree_parts(2) [OF Cons.prems(4) l k, of j t] t that tables_subset [of m "level + 1" "entry_pa (entry m f j)"]
    by (auto simp: kids_def)
  ultimately show ?case by (auto simp: set_tree_tables [OF l])
qed

lemma owned_data_write:
  assumes o: "owned s root ps" and n: "node (ram s) root (path va) = Some p" and k: "keeps {p} (ram s) m'"
  shows "owned (s\<lparr>ram := m'\<rparr>) root ps" "all_frames (s\<lparr>ram := m'\<rparr>) root ps = all_frames s root ps"
    "ttbr0_to_pa va' (Some root) (s\<lparr>ram := m'\<rparr>) = ttbr0_to_pa va' (Some root) s"
proof -
  have "{p} \<inter> set (tree_tables (ram s) 1 root) = {}"
    using leaf_not_table [OF n, of 1] ownedD(2) [OF o] by simp
  note kt = keeps_tree [OF k ownedD(2) [OF o] this]
  show a: "all_frames (s\<lparr>ram := m'\<rparr>) root ps = all_frames s root ps" using kt(1) by (simp add: all_frames_def)
  have "pool (s\<lparr>ram := m'\<rparr>) ps"
    using owned_node(3) [OF o n] k by (intro pool_keeps [OF ownedD(1) [OF o], of "{p}"]) auto
  then show "owned (s\<lparr>ram := m'\<rparr>) root ps" by (rule owned_transfer [OF o _ a])
  show "ttbr0_to_pa va' (Some root) (s\<lparr>ram := m'\<rparr>) = ttbr0_to_pa va' (Some root) s"
    using kt(2) [of "path va'"] by (simp add: ttbr0_to_pa_node translation_table_def)
qed

lemma alloc_keeps_pages:
  assumes "owned g root ps" "keeps (set (tree_tables (ram g) 1 root) \<union> set ps) (ram g) m" "node (ram g) root (path va) = Some p"
  shows "same_frame (ram g) m (ttbr1_to_va p)"
  using leaf_not_table [OF assms(3), of 1] ownedD(2) [OF assms(1)] owned_node [OF assms(1,3)] assms(2)
  by (auto simp: keeps_def)

section \<open>Lists of pages\<close>

lemma owned_shrinks:
  assumes "owned g root ps" "owned h root qs" "set qs \<subseteq> set ps" "pa \<in> set ps" "ttbr0_to_pa va (Some root) h = Some (pa + (va AND 0xFFF))"
  shows "length qs < length ps"
proof -
  have "node (ram h) root (path va) = Some pa"
    using assms(5) by (cases "node (ram h) root (path va)") (simp_all add: ttbr0_to_pa_node translation_table_def)
  then have "pa \<notin> set qs" using owned_node(3) [OF assms(2), of "path va"] by simp
  then have "set qs \<subset> set ps" using assms(3,4) by blast
  then have "card (set qs) < card (set ps)" by (intro psubset_card_mono) simp_all
  then show ?thesis using ownedD(6) [OF assms(1)] ownedD(6) [OF assms(2)] by (simp add: distinct_card)
qed

lemma alloc_all_core:
  assumes "owned g root ps" "distinct (map va_page vas)" "\<And>va. va \<in> set vas \<Longrightarrow> \<not> mapped va root g"
    "3 * length vas \<le> length ps \<or> alloc_all root vas g = Inr g0"
  shows "\<exists>g' ps'. alloc_all root vas g = Inr g' \<and> owned g' root ps' \<and> length ps \<le> length ps' + 3 * length vas \<and> length ps' + length vas \<le> length ps
     \<and> all_frames g' root ps' = all_frames g root ps \<and> set ps' \<subseteq> set ps
     \<and> (\<forall>va. mapped va root g' \<longleftrightarrow> mapped va root g \<or> va_page va \<in> va_page ` set vas)
     \<and> (\<forall>va. va_page va \<notin> va_page ` set vas \<longrightarrow> ttbr0_to_pa va (Some root) g' = ttbr0_to_pa va (Some root) g)
     \<and> (\<forall>va p. node (ram g) root (path va) = Some p \<longrightarrow>
          node (ram g') root (path va) = Some p \<and> same_frame (ram g) (ram g') (ttbr1_to_va p))
     \<and> keeps (set_mset (all_frames g root ps)) (ram g) (ram g') \<and> ttbr0_el1 g' = ttbr0_el1 g"
  using assms
proof (induction vas arbitrary: g ps)
  case Nil
  then show ?case by (intro exI [of _ g] exI [of _ ps]) simp
next
  case (Cons va vas)
  have un: "ttbr0_to_pa va (Some root) g = None" using Cons.prems(3) by simp
  obtain r where len: "3 \<le> length ps \<or> alloc_page va (Some root) g = Inr r"
    using Cons.prems(4) by (cases "alloc_page va (Some root) g") auto
  obtain pa h qs where h: "alloc_page va (Some root) g = Inr (pa, h)" "owned h root qs"
    "all_frames h root qs = all_frames g root ps" "length ps \<le> length qs + 3" "set qs \<subseteq> set ps" "pa \<in> set ps"
    "ttbr0_to_pa va (Some root) h = Some (pa + (va AND 0xFFF))"
    "\<And>va'. va_page va' \<noteq> va_page va \<Longrightarrow> ttbr0_to_pa va' (Some root) h = ttbr0_to_pa va' (Some root) g"
    "keeps (set (tree_tables (ram g) 1 root) \<union> set ps) (ram g) (ram h)" "ttbr0_el1 h = ttbr0_el1 g"
    by (rule alloc_page_core [OF Cons.prems(1) un len]) (rule that)
  have mp: "mapped va' root h \<longleftrightarrow> mapped va' root g \<or> va_page va' = va_page va" for va'
    using h(7) h(8) [of va'] mapped_page_cong [of va' va root h] by (cases "va_page va' = va_page va") auto
  have "\<not> mapped va' root h" if "va' \<in> set vas" for va'
    using that Cons.prems(2,3) mp [of va'] by (auto simp: image_iff)
  moreover have "3 * length vas \<le> length qs \<or> alloc_all root vas h = Inr g0" using Cons.prems(4) h(1,4) by auto
  ultimately obtain g' ps' where g': "alloc_all root vas h = Inr g'" "owned g' root ps'"
    "length qs \<le> length ps' + 3 * length vas" "length ps' + length vas \<le> length qs" "all_frames g' root ps' = all_frames h root qs" "set ps' \<subseteq> set qs"
    "\<forall>va. mapped va root g' \<longleftrightarrow> mapped va root h \<or> va_page va \<in> va_page ` set vas"
    "\<forall>va. va_page va \<notin> va_page ` set vas \<longrightarrow> ttbr0_to_pa va (Some root) g' = ttbr0_to_pa va (Some root) h"
    "keeps (set_mset (all_frames h root qs)) (ram h) (ram g')" "ttbr0_el1 g' = ttbr0_el1 h"
    "\<forall>va p. node (ram h) root (path va) = Some p \<longrightarrow>
          node (ram g') root (path va) = Some p \<and> same_frame (ram h) (ram g') (ttbr1_to_va p)"
    using Cons.IH [OF h(2)] Cons.prems(2) by auto
  have "keeps (set_mset (all_frames g root ps)) (ram g) (ram g')"
    using keeps_trans [OF h(9) g'(9)] tables_pool_subset [of g root ps] h(3) by (elim keeps_mono) auto
  moreover have "node (ram g') root (path va') = Some p \<and> same_frame (ram g) (ram g') (ttbr1_to_va p)"
    if p: "node (ram g) root (path va') = Some p" for va' p
  proof -
    have "va_page va' \<noteq> va_page va"
      using p un mapped_page_cong [of va' va root g] by (auto simp: ttbr0_to_pa_node translation_table_def)
    then have "node (ram h) root (path va') = Some p"
      using h(8) [of va'] p
      by (cases "node (ram h) root (path va')") (auto simp: ttbr0_to_pa_node translation_table_def)
    then show ?thesis using g'(11) alloc_keeps_pages [OF Cons.prems(1) h(9) p] same_frame_trans by blast
  qed
  moreover have "length qs < length ps" by (rule owned_shrinks [OF Cons.prems(1) h(2,5,6,7)])
  ultimately show ?case using h g' mp by (intro exI [of _ g'] exI [of _ ps']) auto
qed

lemma alloc_all_spec:
  assumes "owned g root ps" "distinct (map va_page vas)" "3 * length vas \<le> length ps" "\<And>va. va \<in> set vas \<Longrightarrow> \<not> mapped va root g"
  shows "\<exists>g' ps'. alloc_all root vas g = Inr g' \<and> owned g' root ps' \<and> length ps \<le> length ps' + 3 * length vas
     \<and> all_frames g' root ps' = all_frames g root ps \<and> set ps' \<subseteq> set ps
     \<and> (\<forall>va. mapped va root g' \<longleftrightarrow> mapped va root g \<or> va_page va \<in> va_page ` set vas)
     \<and> (\<forall>va. va_page va \<notin> va_page ` set vas \<longrightarrow> ttbr0_to_pa va (Some root) g' = ttbr0_to_pa va (Some root) g)
     \<and> (\<forall>va p. node (ram g) root (path va) = Some p \<longrightarrow>
          node (ram g') root (path va) = Some p \<and> same_frame (ram g) (ram g') (ttbr1_to_va p))
     \<and> keeps (set_mset (all_frames g root ps)) (ram g) (ram g') \<and> ttbr0_el1 g' = ttbr0_el1 g"
  using alloc_all_core [OF assms(1,2,4) disjI1 [OF assms(3)]] by blast

text \<open>Allocation fails in one way only: it panics, because no frame is left.\<close>

definition panics_only :: "halt + 'a \<Rightarrow> bool" where
  "panics_only r \<longleftrightarrow> (case r of Inl h \<Rightarrow> \<exists>m. h = Panic m | Inr _ \<Rightarrow> True)"

lemma panics_only_simps [simp]: "panics_only (Inr x)" "panics_only (Inl h) \<longleftrightarrow> (\<exists>m. h = Panic m)"
  by (simp_all add: panics_only_def)

lemma panics_only_bind: "panics_only r \<Longrightarrow> (\<And>x. panics_only (f x)) \<Longrightarrow> panics_only (kbind r f)"
  by (cases r) simp_all

lemma panics_only_if: "panics_only a \<Longrightarrow> panics_only b \<Longrightarrow> panics_only (if c then a else b)"
  by simp

lemma panics_only_ensure_table: "panics_only (ensure_table t i msg g)"
  unfolding ensure_table_def by (simp split: prod.split option.split)

lemma panics_only_alloc_page: "panics_only (alloc_page va root g)"
  unfolding alloc_page_def Let_def
  by (intro panics_only_bind panics_only_ensure_table panics_only_if) (simp_all split: prod.split option.split)

lemma panics_only_alloc_all: "panics_only (alloc_all root vas g)"
  by (induction vas arbitrary: g) (auto intro: panics_only_bind panics_only_alloc_page)

lemma alloc_all_starved:
  assumes "owned g root ps" "distinct (map va_page vas)" "\<And>va. va \<in> set vas \<Longrightarrow> \<not> mapped va root g" "length ps < length vas"
  shows "\<exists>m. alloc_all root vas g = Inl (Panic m)"
proof (cases "alloc_all root vas g")
  case (Inl h)
  then show ?thesis using panics_only_alloc_all [of root vas g] by auto
next
  case (Inr g0)
  obtain ps' :: "u64 list" where "length ps' + length vas \<le> length ps"
    using alloc_all_core [OF assms(1,2,3) disjI2 [OF Inr]] by simp blast
  then show ?thesis using assms(4) by simp
qed

lemma free_all_spec:
  assumes "owned g root ps" "distinct (map va_page vas)" "\<And>va. va \<in> set vas \<Longrightarrow> mapped va root g"
  shows "\<exists>ps'. owned (free_all root vas g) root ps' \<and> all_frames (free_all root vas g) root ps' = all_frames g root ps
     \<and> length ps' = length ps + length vas
     \<and> (\<forall>va. mapped va root (free_all root vas g) \<longleftrightarrow> mapped va root g \<and> va_page va \<notin> va_page ` set vas)
     \<and> keeps (set_mset (all_frames g root ps)) (ram g) (ram (free_all root vas g))
     \<and> ttbr0_el1 (free_all root vas g) = ttbr0_el1 g"
  using assms
proof (induction vas arbitrary: g ps)
  case Nil
  then show ?case by (intro exI [of _ ps]) (simp add: free_all_def)
next
  case (Cons va vas)
  let ?g = "free_page va (Some root) g"
  obtain p where p: "node (ram g) root (path va) = Some p"
    using Cons.prems(3) [of va] by (auto simp: ttbr0_to_pa_node translation_table_def)
  note f = free_page_spec [OF Cons.prems(1) p]
  have mp: "mapped va' root ?g \<longleftrightarrow> mapped va' root g \<and> va_page va' \<noteq> va_page va" for va'
    using f(3) f(4) [of va'] mapped_page_cong [of va' va root ?g] by (cases "va_page va' = va_page va") auto
  have "mapped va' root ?g" if "va' \<in> set vas" for va'
    using that Cons.prems(2,3) mp [of va'] by (auto simp: image_iff)
  then obtain ps' where ps': "owned (free_all root vas ?g) root ps'"
     "all_frames (free_all root vas ?g) root ps' = all_frames ?g root (p # ps)" "length ps' = length (p # ps) + length vas"
     "\<forall>va. mapped va root (free_all root vas ?g) \<longleftrightarrow> mapped va root ?g \<and> va_page va \<notin> va_page ` set vas"
     "keeps (set_mset (all_frames ?g root (p # ps))) (ram ?g) (ram (free_all root vas ?g))"
     "ttbr0_el1 (free_all root vas ?g) = ttbr0_el1 ?g"
    using Cons.IH [OF f(1)] Cons.prems(2) by auto
  have e: "free_all root (va # vas) g = free_all root vas ?g" by (simp add: free_all_def)
  have "set (tree_tables (ram g) 1 root) \<union> {p} \<subseteq> set_mset (all_frames g root ps)"
    using tables_subset [of "ram g" 1 root] owned_node(1) [OF Cons.prems(1) p] by (auto simp: all_frames_def)
  then have "keeps (set_mset (all_frames g root ps)) (ram g) (ram (free_all root vas ?g))"
    using keeps_trans [OF f(5) ps'(5)] f(2) by (auto elim!: keeps_mono)
  then show ?case unfolding e using ps' f(2,6) mp by (intro exI [of _ ps']) auto
qed

lemma unat_va_page: "unat (va_page va) = unat va div 4096 mod 2 ^ 27"
proof -
  have "va_page va = take_bit 27 (drop_bit 12 va)"
    unfolding va_page_def by (rule bit_word_eqI) (auto simp: bit_simps)
  then show ?thesis by (simp add: drop_bit_eq_div take_bit_eq_mod unat_div unat_mod_distrib)
qed

end
