(* ===== verification/Locks.thy ===== *)
theory Locks
  imports Prelude
begin

text \<open>
  The per-CPU interrupt nesting of \<^verbatim>\<open>interrupts.rs\<close> (\<^verbatim>\<open>push_off\<close>, \<^verbatim>\<open>pop_off\<close> and the accesses to DAIF), the CPU
  structure of \<^verbatim>\<open>processes.rs\<close>, the routing of the core timer interrupts, and the spinlock of \<^verbatim>\<open>spinlock.rs\<close>. The machine has one CPU
  (\<^verbatim>\<open>MAX_CPUS = 1\<close>), so a compare-and-exchange that fails spins forever.
\<close>

record Cpu =
  cid :: nat
  current_pid :: "u64 option"
  ncli :: u64
  interrupts_enabled :: bool
  daif :: u64

definition boot_cpu :: Cpu where
  "boot_cpu = \<lparr>cid = 0, current_pid = None, ncli = 0, interrupts_enabled = False, daif = 0x3C0\<rparr>"

definition set_current_process :: "u64 \<Rightarrow> Cpu \<Rightarrow> Cpu" where
  "set_current_process p c = c\<lparr>current_pid := Some p\<rparr>"

definition clear_current_process :: "Cpu \<Rightarrow> Cpu" where
  "clear_current_process c = c\<lparr>current_pid := None\<rparr>"

definition daif_unmask_all :: "Cpu \<Rightarrow> Cpu" where
  "daif_unmask_all c = c\<lparr>daif := daif c AND NOT 0x3C0\<rparr>"

definition daif_mask_all :: "Cpu \<Rightarrow> Cpu" where
  "daif_mask_all c = c\<lparr>daif := daif c OR 0x3C0\<rparr>"

definition is_irq_enabled :: "Cpu \<Rightarrow> bool" where
  "is_irq_enabled c \<longleftrightarrow> drop_bit 7 (daif c) AND 1 = 0"

definition irq_disable :: "Cpu \<Rightarrow> Cpu" where
  "irq_disable c = c\<lparr>daif := daif c OR 0x80\<rparr>"

definition irq_enable :: "Cpu \<Rightarrow> Cpu" where
  "irq_enable c = c\<lparr>daif := daif c AND NOT 0x80\<rparr>"

definition push_off :: "Cpu \<Rightarrow> Cpu" where
  "push_off c =
     (let enabled = is_irq_enabled c;
          c = irq_disable c;
          c = (if ncli c = 0 then c\<lparr>interrupts_enabled := enabled\<rparr> else c)
      in c\<lparr>ncli := ncli c + 1\<rparr>)"

definition pop_off :: "Cpu \<Rightarrow> halt + Cpu" where
  "pop_off c =
     (if is_irq_enabled c then Inl (Panic ''pop_off: interrupts active when they should be masked'') else
      if ncli c < 1 then Inl (Panic ''pop_off: nesting underflow!'') else
      let c = c\<lparr>ncli := ncli c - 1\<rparr>
      in Inr (if ncli c = 0 \<and> interrupts_enabled c then irq_enable c else c))"

section \<open>Timer interrupt routing\<close>

datatype TimerInterruptSource = Physical | PhysicalNonSecure | Hypervisor | Virtual

datatype InterruptRoute = IRQ | FIQ

primrec source_bit :: "TimerInterruptSource \<Rightarrow> u32" where
  "source_bit Physical = 1"
| "source_bit PhysicalNonSecure = 2"
| "source_bit Hypervisor = 4"
| "source_bit Virtual = 8"

definition deroute_timer_interrupt :: "TimerInterruptSource \<Rightarrow> u32 \<Rightarrow> u32" where
  "deroute_timer_interrupt source ctl =
     (let disable_bit = source_bit source; disable_bit = disable_bit OR push_bit 4 disable_bit
      in ctl AND NOT disable_bit)"

definition route_timer_interrupt :: "TimerInterruptSource \<Rightarrow> InterruptRoute \<Rightarrow> u32 \<Rightarrow> u32" where
  "route_timer_interrupt source route ctl =
     (let ctl = deroute_timer_interrupt source ctl;
          enable_bit = (case route of IRQ \<Rightarrow> source_bit source | FIQ \<Rightarrow> push_bit 4 (source_bit source))
      in ctl OR enable_bit)"

definition irq_routed :: "TimerInterruptSource \<Rightarrow> u32 \<Rightarrow> bool" where
  "irq_routed source ctl \<longleftrightarrow> ctl AND source_bit source \<noteq> 0"

definition fiq_routed :: "TimerInterruptSource \<Rightarrow> u32 \<Rightarrow> bool" where
  "fiq_routed source ctl \<longleftrightarrow> ctl AND push_bit 4 (source_bit source) \<noteq> 0"

datatype InterruptSource = PhysicalSecureTimer | PhysicalNonSecureTimer | HypervisorTimer | VirtualTimer | Mailbox0 | Mailbox1 | Mailbox2 | Mailbox3
  | GPU | PMU | AXI | LocalTimer | PeripheralInterrupt

primrec interrupt_mask :: "InterruptSource \<Rightarrow> u32" where
  "interrupt_mask PhysicalSecureTimer = push_bit 0 1"
| "interrupt_mask PhysicalNonSecureTimer = push_bit 1 1"
| "interrupt_mask HypervisorTimer = push_bit 2 1"
| "interrupt_mask VirtualTimer = push_bit 3 1"
| "interrupt_mask Mailbox0 = push_bit 4 1"
| "interrupt_mask Mailbox1 = push_bit 5 1"
| "interrupt_mask Mailbox2 = push_bit 6 1"
| "interrupt_mask Mailbox3 = push_bit 7 1"
| "interrupt_mask GPU = push_bit 8 1"
| "interrupt_mask PMU = push_bit 9 1"
| "interrupt_mask AXI = push_bit 10 1"
| "interrupt_mask LocalTimer = push_bit 11 1"
| "interrupt_mask PeripheralInterrupt = push_bit 12 0x3f"

definition is_irq_pending :: "InterruptSource \<Rightarrow> u32 \<Rightarrow> bool" where
  "is_irq_pending source pending_irq \<longleftrightarrow> pending_irq AND interrupt_mask source \<noteq> 0"

definition is_fiq_pending :: "InterruptSource \<Rightarrow> u32 \<Rightarrow> bool" where
  "is_fiq_pending source pending_fiq \<longleftrightarrow> pending_fiq AND interrupt_mask source \<noteq> 0"

section \<open>Spinlocks\<close>

record Spinlock =
  locked :: bool
  holding_cpuid :: "nat option"

definition Spinlock_new :: Spinlock where
  "Spinlock_new = \<lparr>locked = False, holding_cpuid = None\<rparr>"

definition spin_acquire :: "Cpu \<times> Spinlock \<Rightarrow> halt + (Cpu \<times> Spinlock)" where
  "spin_acquire = (\<lambda>(c, l).
     let c = push_off c; current_cpuid = cid c in
     if locked l \<and> holding_cpuid l = Some current_cpuid then Inl (Panic ''acquire'') else
     if locked l then Inl Spin else
     Inr (c, l\<lparr>locked := True, holding_cpuid := Some current_cpuid\<rparr>))"

definition spin_release :: "Cpu \<times> Spinlock \<Rightarrow> halt + (Cpu \<times> Spinlock)" where
  "spin_release = (\<lambda>(c, l).
     let current_cpuid = cid c in
     if \<not> locked l then Inl (Panic ''release'') else
     if holding_cpuid l \<noteq> Some current_cpuid then Inl (Panic ''Spinlock release error: '') else
     kbind (pop_off c) (\<lambda>c. Inr (c, l\<lparr>holding_cpuid := None, locked := False\<rparr>)))"

section \<open>Interrupt nesting\<close>

lemma is_irq_enabled_bit: "is_irq_enabled c \<longleftrightarrow> \<not> bit (daif c) 7"
proof -
  have "drop_bit 7 (daif c) AND 1 = of_bool (bit (daif c) 7)"
    by (simp add: and_one_eq mod2_eq_if even_drop_bit_iff_not_bit)
  then show ?thesis by (simp add: is_irq_enabled_def)
qed

lemma bit_0x80: "bit (0x80 :: u64) n \<longleftrightarrow> n = 7"
proof -
  have "(0x80 :: u64) = push_bit 7 1" by simp
  then show ?thesis by (auto simp only: bit_simps) (auto simp: bit_simps)
qed

lemma irq_simps [simp]:
  "\<not> is_irq_enabled (irq_disable c)" "is_irq_enabled (irq_enable c)"
  "ncli (irq_disable c) = ncli c" "ncli (irq_enable c) = ncli c"
  "interrupts_enabled (irq_disable c) = interrupts_enabled c" "interrupts_enabled (irq_enable c) = interrupts_enabled c"
  "is_irq_enabled (c\<lparr>ncli := n\<rparr>) = is_irq_enabled c" "is_irq_enabled (c\<lparr>interrupts_enabled := b\<rparr>) = is_irq_enabled c"
  by (simp_all add: is_irq_enabled_bit irq_disable_def irq_enable_def bit_0x80 bit_simps)

lemma irq_enable_disable:
  "is_irq_enabled c \<Longrightarrow> daif c AND NOT 0x80 = daif c" "\<not> is_irq_enabled c \<Longrightarrow> daif c OR 0x80 = daif c"
proof -
  define k :: u64 where "k = 0x80"
  have k: "bit k n \<longleftrightarrow> n = 7" for n by (simp only: k_def bit_0x80)
  have "is_irq_enabled c \<Longrightarrow> daif c AND NOT k = daif c" "\<not> is_irq_enabled c \<Longrightarrow> daif c OR k = daif c"
    by (rule bit_word_eqI; auto simp: is_irq_enabled_bit k bit_simps)+
  from this [unfolded k_def]
  show "is_irq_enabled c \<Longrightarrow> daif c AND NOT 0x80 = daif c" "\<not> is_irq_enabled c \<Longrightarrow> daif c OR 0x80 = daif c"
    by blast+
qed

lemma irq_off_on: "is_irq_enabled c \<Longrightarrow> (daif c OR 0x80) AND NOT 0x80 = daif c"
  using irq_enable_disable(1) [of c] by (simp add: bit.conj_disj_distrib2)

text \<open>
  A run of the nesting discipline: any interleaving of \<^verbatim>\<open>push_off\<close> and (successful) \<^verbatim>\<open>pop_off\<close>, which is what the spinlocks of the
  kernel perform. The invariant ties the depth counter, the mask and the remembered state to the state \<open>c0\<close> in which
  the first \<^verbatim>\<open>push_off\<close> happened. The depth stays below the range of the counter.
\<close>

inductive irq_run :: "Cpu \<Rightarrow> nat \<Rightarrow> Cpu \<Rightarrow> bool" for c0 where
  start: "irq_run c0 0 c0"
| push: "irq_run c0 d c \<Longrightarrow> d < 2 ^ 64 - 1 \<Longrightarrow> irq_run c0 (Suc d) (push_off c)"
| pop: "irq_run c0 (Suc d) c \<Longrightarrow> pop_off c = Inr c' \<Longrightarrow> irq_run c0 d c'"

definition nesting_inv :: "Cpu \<Rightarrow> nat \<Rightarrow> Cpu \<Rightarrow> bool" where
  "nesting_inv c0 d c \<longleftrightarrow> ncli c = of_nat d
     \<and> (if d = 0 then daif c = daif c0
        else daif c = daif c0 OR 0x80 \<and> interrupts_enabled c = is_irq_enabled c0)"

lemma nesting_push:
  assumes "nesting_inv c0 d c" "d < 2 ^ 64 - 1"
  shows "nesting_inv c0 (Suc d) (push_off c)"
proof -
  have "ncli c = 0 \<longleftrightarrow> d = 0"
    using assms by (simp add: nesting_inv_def word_of_nat_eq_0_iff) (auto dest: dvd_imp_le)
  then show ?thesis
    using assms by (auto simp: nesting_inv_def push_off_def Let_def irq_disable_def is_irq_enabled_def or.assoc)
qed

lemma masked_when_nested: "nesting_inv c0 (Suc d) c \<Longrightarrow> \<not> is_irq_enabled c"
  by (simp add: nesting_inv_def is_irq_enabled_bit bit_or_iff bit_0x80)

lemma nesting_pop:
  assumes "nesting_inv c0 (Suc d) c" "Suc d < 2 ^ 64"
  shows "\<exists>c'. pop_off c = Inr c' \<and> nesting_inv c0 d c'"
proof -
  have n: "ncli c = of_nat (Suc d)" using assms(1) by (simp add: nesting_inv_def)
  then have "unat (ncli c) = Suc d" using assms(2) by (simp only: unat_of_nat) simp
  then have "\<not> ncli c < 1" "ncli c - 1 = 0 \<longleftrightarrow> d = 0" "ncli c - 1 = of_nat d"
    using n assms(2) by (auto simp: word_less_nat_alt word_of_nat_eq_0_iff dest: dvd_imp_le)
  then show ?thesis
    using assms masked_when_nested [OF assms(1)] irq_off_on [of c0] irq_enable_disable(2) [of c0]
    by (auto simp: nesting_inv_def pop_off_def Let_def irq_enable_def)
qed

inductive_cases irq_runE: "irq_run c0 d c"

lemma nesting_bound: "irq_run c0 d c \<Longrightarrow> d < 2 ^ 64"
  by (induction rule: irq_run.induct) auto

lemma nesting_invariant:
  assumes "irq_run c0 d c" "ncli c0 = 0"
  shows "nesting_inv c0 d c"
  using assms(1)
proof (induction rule: irq_run.induct)
  case start
  then show ?case using assms(2) by (simp add: nesting_inv_def)
next
  case (push d c)
  then show ?case by (simp add: nesting_push)
next
  case (pop d c c')
  then show ?case using nesting_pop [of c0 d c] nesting_bound [OF pop.hyps(1)] by auto
qed

lemma cid_push_pop [simp]: "cid (push_off c) = cid c" "pop_off c = Inr c' \<Longrightarrow> cid c' = cid c"
  by (auto simp: push_off_def pop_off_def Let_def irq_disable_def irq_enable_def split: if_splits)

section \<open>The contract of a lock\<close>

locale exclusive_lock =
  fixes acquire release :: "'s \<Rightarrow> halt + 's"
    and held :: "'s \<Rightarrow> bool"
    and ok :: "'s \<Rightarrow> bool"
  assumes acquire_free: "ok s \<Longrightarrow> \<not> held s \<Longrightarrow> \<exists>s'. acquire s = Inr s' \<and> held s' \<and> ok s'"
    and acquire_held: "ok s \<Longrightarrow> held s \<Longrightarrow> \<exists>h. acquire s = Inl h"
    and release_held: "ok s \<Longrightarrow> held s \<Longrightarrow> \<exists>s'. release s = Inr s' \<and> \<not> held s' \<and> ok s'"
    and release_free: "ok s \<Longrightarrow> \<not> held s \<Longrightarrow> \<exists>h. release s = Inl h"
begin

definition critical :: "('s \<Rightarrow> halt + 's) \<Rightarrow> 's \<Rightarrow> halt + 's" where
  "critical body s = kbind (acquire s) (\<lambda>s. kbind (body s) release)"

lemma critical_returns:
  assumes "ok s" "\<not> held s" "\<And>t. ok t \<Longrightarrow> held t \<Longrightarrow> \<exists>t'. body t = Inr t' \<and> ok t' \<and> held t'"
  shows "\<exists>s'. critical body s = Inr s' \<and> ok s' \<and> \<not> held s'"
proof -
  obtain t where t: "acquire s = Inr t" "held t" "ok t" using acquire_free [OF assms(1,2)] by blast
  obtain t' where t': "body t = Inr t'" "ok t'" "held t'" using assms(3) [OF t(3,2)] by blast
  obtain s' where "release t' = Inr s'" "\<not> held s'" "ok s'" using release_held [OF t'(2,3)] by blast
  with t t' show ?thesis by (simp add: critical_def)
qed

lemma no_reentry: "ok s \<Longrightarrow> held s \<Longrightarrow> \<exists>h. critical body s = Inl h"
  using acquire_held by (force simp: critical_def)

primrec ops :: "bool list \<Rightarrow> 's \<Rightarrow> halt + 's" where
  "ops [] s = Inr s"
| "ops (b # bs) s = kbind (if b then acquire s else release s) (ops bs)"

primrec alternating :: "bool \<Rightarrow> bool list \<Rightarrow> bool" where
  "alternating h [] \<longleftrightarrow> True"
| "alternating h (b # bs) \<longleftrightarrow> b = (\<not> h) \<and> alternating (\<not> h) bs"

lemma ops_alternate: "ok s \<Longrightarrow> (\<exists>s'. ops bs s = Inr s') \<longleftrightarrow> alternating (held s) bs"
proof (induction bs arbitrary: s)
  case Nil
  then show ?case by simp
next
  case (Cons b bs)
  show ?case
  proof (cases "b = held s")
    case True
    then have "\<exists>h. (if b then acquire s else release s) = Inl h"
      using acquire_held [OF Cons.prems] release_free [OF Cons.prems] by simp
    then show ?thesis using True by auto
  next
    case False
    then obtain s' where "(if b then acquire s else release s) = Inr s'" "held s' = (\<not> held s)" "ok s'"
      using acquire_free [OF Cons.prems] release_held [OF Cons.prems] by (cases "held s") auto
    then show ?thesis using False Cons.IH [of s'] by simp
  qed
qed

end

definition spin_ok :: "Cpu \<Rightarrow> nat \<Rightarrow> Cpu \<times> Spinlock \<Rightarrow> bool" where
  "spin_ok c0 d = (\<lambda>(c, l). d < 2 ^ 64 - 1 \<and> nesting_inv c0 (if locked l then Suc d else d) c
     \<and> holding_cpuid l = (if locked l then Some (cid c) else None))"

interpretation spin: exclusive_lock spin_acquire spin_release "locked \<circ> snd" "spin_ok c0 d" for c0 d
proof (unfold_locales; clarsimp)
  fix c l
  assume ok: "spin_ok c0 d (c, l)"
  show "\<exists>c' l'. spin_acquire (c, l) = Inr (c', l') \<and> locked l' \<and> spin_ok c0 d (c', l')" if "\<not> locked l"
    using ok that nesting_push [of c0 d c] by (simp add: spin_ok_def spin_acquire_def Let_def)
  show "\<exists>h. spin_acquire (c, l) = Inl h" if "locked l"
    using ok that by (simp add: spin_ok_def spin_acquire_def Let_def)
  show "\<exists>h. spin_release (c, l) = Inl h" if "\<not> locked l"
    using that by (simp add: spin_release_def)
  show "\<exists>c' l'. spin_release (c, l) = Inr (c', l') \<and> \<not> locked l' \<and> spin_ok c0 d (c', l')" if "locked l"
    using ok that nesting_pop [of c0 d c] by (auto simp: spin_ok_def spin_release_def Let_def)
qed

section \<open>Routing bits\<close>

primrec source_index :: "TimerInterruptSource \<Rightarrow> nat" where
  "source_index Physical = 0"
| "source_index PhysicalNonSecure = 1"
| "source_index Hypervisor = 2"
| "source_index Virtual = 3"

lemma source_bit_index:
  "source_bit src = 2 ^ source_index src" "push_bit 4 (source_bit src) = 2 ^ (4 + source_index src)" "source_index src < 4"
  by (cases src; simp)+

lemma source_index_inj: "source_index a = source_index b \<longleftrightarrow> a = b"
  by (cases a; cases b) simp_all

lemma bit_2_power: "n < 32 \<Longrightarrow> bit (2 ^ n :: u32) k \<longleftrightarrow> k = n"
  by (auto simp: bit_exp_iff possible_bit_def)

lemma and_2_power: "n < 32 \<Longrightarrow> (w :: u32) AND 2 ^ n \<noteq> 0 \<longleftrightarrow> bit w n"
  using bit_eq_iff [of "w AND 2 ^ n" 0] by (auto simp: bit_and_iff bit_2_power)

lemma routed_bits:
  "irq_routed src ctl \<longleftrightarrow> bit ctl (source_index src)"
  "fiq_routed src ctl \<longleftrightarrow> bit ctl (4 + source_index src)"
  using source_bit_index(3) [of src] and_2_power [of "source_index src" ctl] and_2_power [of "4 + source_index src" ctl]
  by (simp_all only: irq_routed_def fiq_routed_def source_bit_index(2)) (simp_all add: source_bit_index(1))

lemma bit_route:
  assumes "k < 32"
  shows "bit (route_timer_interrupt src r ctl) k \<longleftrightarrow>
     k = source_index src + (if r = FIQ then 4 else 0)
     \<or> bit ctl k \<and> k \<noteq> source_index src \<and> k \<noteq> 4 + source_index src"
proof -
  have b: "bit (source_bit src) k \<longleftrightarrow> k = source_index src" "bit (push_bit 4 (source_bit src)) k \<longleftrightarrow> k = 4 + source_index src"
    unfolding source_bit_index(2) using source_bit_index(3) [of src]
    by (simp_all only: source_bit_index(1), (intro bit_2_power; simp)+)
  show ?thesis
    using assms
    by (cases r) (auto simp: route_timer_interrupt_def deroute_timer_interrupt_def Let_def bit_or_iff bit_and_iff bit_not_iff b)
qed

section \<open>Properties\<close>

text \<open>C32. Interrupt masking nests: after any interleaving of \<^verbatim>\<open>push_off\<close> and \<^verbatim>\<open>pop_off\<close> started outside a nest, interrupts are
  masked while at least one \<^verbatim>\<open>push_off\<close> is open and the matching \<^verbatim>\<open>pop_off\<close> never panics; when all are closed the
  interrupt mask is exactly the one found at the start, and a further \<^verbatim>\<open>pop_off\<close> panics.\<close>

theorem interrupt_nesting:
  assumes "irq_run c0 d c" "ncli c0 = 0"
  shows "if d = 0 then daif c = daif c0 \<and> (\<exists>msg. pop_off c = Inl (Panic msg))
     else \<not> is_irq_enabled c \<and> (\<exists>c'. pop_off c = Inr c')"
proof -
  note inv = nesting_invariant [OF assms]
  show ?thesis
  proof (cases d)
    case 0
    then have "ncli c = 0" using inv by (simp add: nesting_inv_def)
    then show ?thesis using 0 inv by (simp add: nesting_inv_def pop_off_def)
  next
    case (Suc e)
    then show ?thesis
      using inv masked_when_nested [of c0 e c] nesting_pop [of c0 e c] nesting_bound [OF assms(1)] by auto
  qed
qed

theorem interrupt_nesting_witness:
  "\<not> is_irq_enabled (push_off (daif_unmask_all boot_cpu)) \<and> is_irq_enabled (daif_unmask_all boot_cpu)"
proof -
  let ?c = "daif_unmask_all boot_cpu"
  have n: "ncli ?c = 0" by (simp add: daif_unmask_all_def boot_cpu_def)
  have "irq_run ?c 1 (push_off ?c)" using irq_run.push [OF irq_run.start, of ?c] by simp
  from interrupt_nesting [OF this n] show ?thesis
    by (simp add: is_irq_enabled_def daif_unmask_all_def boot_cpu_def)
qed

text \<open>On a spinlock, a sequence of acquisitions and releases by the CPU goes through exactly when it alternates, beginning with
  the operation the lock's state allows: a second acquisition and a release of a free lock stop the kernel.\<close>

lemma spinlock_alternates:
  assumes "spin_ok c0 d (c, l)"
  shows "(\<exists>s'. spin.ops bs (c, l) = Inr s') \<longleftrightarrow> spin.alternating (locked l) bs"
  using spin.ops_alternate [OF assms] by simp

lemma spinlock_alternates_example:
  "(\<exists>s'. spin.ops [True, False, True] (boot_cpu, Spinlock_new) = Inr s')
   \<and> (\<nexists>s'. spin.ops [True, True] (boot_cpu, Spinlock_new) = Inr s')"
proof -
  have "spin_ok boot_cpu 0 (boot_cpu, Spinlock_new)"
    by (simp add: spin_ok_def nesting_inv_def boot_cpu_def Spinlock_new_def)
  from spinlock_alternates [OF this, of "[True, False, True]"] spinlock_alternates [OF this, of "[True, True]"]
  show ?thesis by (simp add: spin.alternating.simps Spinlock_new_def)
qed

text \<open>A critical section under a spinlock, entered with interrupts enabled, runs its body with interrupts masked and gives back the
  lock and the interrupt mask as they were.\<close>

lemma spinlock_critical_section:
  assumes "ncli c = 0" "\<not> locked l" "holding_cpuid l = None"
  shows "\<exists>c1 l1 c2. spin_acquire (c, l) = Inr (c1, l1) \<and> locked l1 \<and> \<not> is_irq_enabled c1
     \<and> spin_release (c1, l1) = Inr (c2, l) \<and> daif c2 = daif c \<and> ncli c2 = 0"
proof -
  have "nesting_inv c 0 c" using assms(1) by (simp add: nesting_inv_def)
  then have p: "nesting_inv c (Suc 0) (push_off c)" by (rule nesting_push) simp
  from nesting_pop [OF this] obtain c2 where c2: "pop_off (push_off c) = Inr c2" "nesting_inv c 0 c2" by auto
  let ?l = "l\<lparr>locked := True, holding_cpuid := Some (cid c)\<rparr>"
  have "spin_acquire (c, l) = Inr (push_off c, ?l)" using assms(2) by (simp add: spin_acquire_def Let_def)
  moreover have "spin_release (push_off c, ?l) = Inr (c2, l)"
    using c2(1) assms(2,3) by (simp add: spin_release_def Let_def)
  ultimately show ?thesis using c2(2) masked_when_nested [OF p] by (simp add: nesting_inv_def)
qed

lemma spinlock_critical_section_example:
  "\<exists>c1 l1. spin_acquire (boot_cpu, Spinlock_new) = Inr (c1, l1) \<and> \<not> is_irq_enabled c1"
  using spinlock_critical_section [of boot_cpu Spinlock_new] by (auto simp: boot_cpu_def Spinlock_new_def)

text \<open>Routing a core timer interrupt to IRQ or FIQ routes that source to the chosen line only, and leaves the other sources
  as they are.\<close>

lemma route_timer_interrupt_correct:
  "irq_routed src (route_timer_interrupt src r ctl) = (r = IRQ)
   \<and> fiq_routed src (route_timer_interrupt src r ctl) = (r = FIQ)
   \<and> (other = src \<or> irq_routed other (route_timer_interrupt src r ctl) = irq_routed other ctl
        \<and> fiq_routed other (route_timer_interrupt src r ctl) = fiq_routed other ctl)"
  using source_bit_index(3) [of src] source_bit_index(3) [of other] source_index_inj [of other src]
  by (cases r) (auto simp: routed_bits bit_route)

end
