(* ===== verification/SlotTable.thy ===== *)
theory SlotTable
  imports Prelude
begin

text \<open>
  The kernel keeps its processes and its kernel stacks in fixed arrays that it scans from the start: for the slot with a given key,
  or for the first vacant slot. The locale states what such a table promises; it is interpreted for \<^verbatim>\<open>PROCESS_TABLE\<close> and for
  \<^verbatim>\<open>KERNEL_STACKS_ALLOCATED\<close>.
\<close>

locale slot_table =
  fixes key :: "'e \<Rightarrow> 'k option"
    and vacant :: "'e \<Rightarrow> bool"
  assumes vacant_key: "vacant e \<Longrightarrow> key e = None"
begin

definition lookup :: "'k \<Rightarrow> 'e list \<Rightarrow> nat option" where
  "lookup k t = find_index (\<lambda>e. key e = Some k) t"

definition first_vacant :: "'e list \<Rightarrow> nat option" where
  "first_vacant t = find_index vacant t"

definition uniq :: "'e list \<Rightarrow> bool" where
  "uniq t \<longleftrightarrow> (\<forall>i < length t. \<forall>j < length t. \<forall>k. key (t ! i) = Some k \<and> key (t ! j) = Some k \<longrightarrow> i = j)"

lemma uniqD: "uniq t \<Longrightarrow> i < length t \<Longrightarrow> j < length t \<Longrightarrow> key (t ! i) = Some k \<Longrightarrow> key (t ! j) = Some k \<Longrightarrow> i = j"
  by (auto simp: uniq_def)

lemma lookup_SomeD: "lookup k t = Some i \<Longrightarrow> i < length t \<and> key (t ! i) = Some k"
  by (simp add: lookup_def find_index_Some)

lemma lookup_Some: "uniq t \<Longrightarrow> lookup k t = Some i \<longleftrightarrow> i < length t \<and> key (t ! i) = Some k"
  by (auto simp: lookup_def find_index_Some) (metis uniqD less_trans nat_neq_iff)

lemma lookup_None: "lookup k t = None \<longleftrightarrow> (\<forall>i < length t. key (t ! i) \<noteq> Some k)"
  by (simp add: lookup_def find_index_None all_set_conv_all_nth)

lemma first_vacant_Some: "first_vacant t = Some i \<Longrightarrow> i < length t \<and> vacant (t ! i) \<and> key (t ! i) = None"
  by (simp add: first_vacant_def find_index_Some vacant_key)

lemma first_vacant_None: "first_vacant t = None \<longleftrightarrow> (\<forall>e \<in> set t. \<not> vacant e)"
  by (simp add: first_vacant_def find_index_None)

lemma uniq_put:
  assumes "uniq t" "\<And>k. key e = Some k \<Longrightarrow> lookup k t = None \<or> lookup k t = Some i"
  shows "uniq (t[i := e])"
proof (cases "i < length t")
  case True
  have new: False if "j < length t" "j \<noteq> i" "key e = Some k" "key (t ! j) = Some k" for j k
  proof -
    have "lookup k t = Some j" using that by (simp add: lookup_Some [OF assms(1)])
    then show False using assms(2) [OF that(3)] that(2) by simp
  qed
  show ?thesis
    unfolding uniq_def
  proof (intro allI impI)
    fix a b k
    assume ab: "a < length (t[i := e])" "b < length (t[i := e])" "key (t[i := e] ! a) = Some k \<and> key (t[i := e] ! b) = Some k"
    then show "a = b"
      using new [of a k] new [of b k] uniqD [OF assms(1), of a b k] True by (auto simp: nth_list_update split: if_splits)
  qed
qed (use assms(1) in \<open>simp add: list_update_beyond\<close>)

lemma lookup_put:
  assumes "uniq t" "i < length t" "key e = Some k" "lookup k t = None \<or> lookup k t = Some i" "key (t ! i) = None \<or> key (t ! i) = Some k"
  shows "lookup k' (t[i := e]) = (if k' = k then Some i else lookup k' t)"
proof -
  have u: "uniq (t[i := e])" using assms(3,4) by (intro uniq_put [OF assms(1)]) auto
  show ?thesis
  proof (cases "k' = k")
    case True
    then show ?thesis using lookup_Some [OF u, of k i] assms by simp
  next
    case False
    then have "lookup k' (t[i := e]) = Some j \<longleftrightarrow> lookup k' t = Some j" for j
      unfolding lookup_Some [OF u] lookup_Some [OF assms(1)] using assms(2,3,5) by (auto simp: nth_list_update)
    then show ?thesis using False by (metis not_None_eq)
  qed
qed

lemma lookup_remove:
  assumes "uniq t" "i < length t" "key e = None" "key (t ! i) = Some k"
  shows "lookup k' (t[i := e]) = (if k' = k then None else lookup k' t)"
proof -
  have u: "uniq (t[i := e])" using assms(3) by (intro uniq_put [OF assms(1)]) auto
  have "lookup k' (t[i := e]) = Some j \<longleftrightarrow> k' \<noteq> k \<and> lookup k' t = Some j" for j
    unfolding lookup_Some [OF u] lookup_Some [OF assms(1)] using assms(2-4)
    by (auto simp: nth_list_update dest: uniqD [OF assms(1)])
  then show ?thesis by (metis not_None_eq)
qed

end

end
