(* ===== verification/KState.thy ===== *)
theory KState
  imports PageRange Locks SlotTable
begin

text \<open>
  The state of the kernel: the process structures of \<^verbatim>\<open>processes.rs\<close>, the saved contexts of \<^verbatim>\<open>processes.rs\<close> and
  \<^verbatim>\<open>exceptions.rs\<close>, the kernel stack slots of \<^verbatim>\<open>kernelstack.rs\<close>, and one record that gathers the statics of all modules with the
  memory, the CPU and the device registers. \<^verbatim>\<open>ExceptionContext\<close> has the registers of \<^verbatim>\<open>ProcessContext\<close> and four fields more, so it extends
  that record. \<open>LSR\<close> lists the values that successive reads of the UART line status register return, \<open>UART_RX\<close> those of its data register,
  \<open>UART_TX\<close> what has been written to the data register; \<open>cntpct\<close> and \<open>cntfrq\<close> are what the
  counter registers read. \<open>PAGE_TABLE_KERNEL_L1\<close>, \<open>KERNEL_IO_ADDR\<close> and \<open>KERNEL_IO_GUARD\<close>
  are the (link-time) addresses of the kernel's root table, of \<^verbatim>\<open>KERNEL_IO\<close>'s mutex and of the spinlock in it.
\<close>

definition MAX_PROCESSES :: nat where "MAX_PROCESSES = 50"

datatype ProcessState = Ready | Running | Blocked | Terminated

datatype BlockReason = WaitingForChild | Mutex | AwaitingIO | AwaitingSleepTimeout

record ProcessContext =
  regs :: "u64 list"
  elr :: u64
  spsr :: u64
  sp_el0 :: u64
  sp_el1 :: u64
  ttbr0 :: u64

record Process =
  pid :: u64
  name :: "u8 list"
  state :: ProcessState
  block_reason :: "BlockReason option"
  parent_pid :: u64
  pctx :: ProcessContext
  chan :: u64
  exit_code :: u64

datatype ExceptionType = E_SYNC | E_IRQ | E_FIQ | E_SE

datatype ExceptionSource = EL1t | EL1h | EL064 | EL032

record ExceptionContext = ProcessContext +
  etype :: ExceptionType
  esource :: ExceptionSource
  esr :: u64
  far :: u64

datatype StackState = Allocated u64 | QueuedToFree u64 | Free

record Mutex =
  mlock :: bool
  guard :: Spinlock
  holder :: "u64 option"

record Uart =
  w_lock :: Spinlock
  r_lock :: Spinlock

record KernelIO =
  io_lock :: Mutex
  device :: Uart

record kstate =
  pg :: pgstate
  cpu :: Cpu
  PROCESS_TABLE :: "Process option list"
  NEXT_PID :: u64
  PROCESS_TABLE_LOCK :: Spinlock
  CURRENT_PROCESS :: nat
  KERNEL_STACKS_ALLOCATED :: "StackState list"
  PAGE_TABLE_KERNEL_L1 :: u64
  KERNEL_IO :: KernelIO
  KERNEL_IO_ADDR :: u64
  KERNEL_IO_GUARD :: u64
  LSR :: "u32 list"
  UART_RX :: "u32 list"
  UART_TX :: "u32 list"
  CNTP_CTL :: u64
  CNTP_CVAL :: u64
  cntpct :: u64
  cntfrq :: u64

definition Mutex_new :: Mutex where "Mutex_new = \<lparr>mlock = False, guard = Spinlock_new, holder = None\<rparr>"

definition Uart_new :: Uart where "Uart_new = \<lparr>w_lock = Spinlock_new, r_lock = Spinlock_new\<rparr>"

definition KernelIO_new :: KernelIO where "KernelIO_new = \<lparr>io_lock = Mutex_new, device = Uart_new\<rparr>"

text \<open>The statics as the kernel image initialises them, over a state of memory \<open>g\<close> with the kernel's root table at \<open>l1\<close>.\<close>

definition boot_state :: "pgstate \<Rightarrow> u64 \<Rightarrow> kstate" where
  "boot_state g l1 = \<lparr>pg = g, cpu = boot_cpu, PROCESS_TABLE = replicate 50 None, NEXT_PID = 1,
     PROCESS_TABLE_LOCK = Spinlock_new, CURRENT_PROCESS = 1, KERNEL_STACKS_ALLOCATED = replicate 50 Free,
     PAGE_TABLE_KERNEL_L1 = l1, KERNEL_IO = KernelIO_new, KERNEL_IO_ADDR = 0xffffff8000090000, KERNEL_IO_GUARD = 0xffffff8000090008, LSR = [], UART_RX = [], UART_TX = [],
     CNTP_CTL = 0, CNTP_CVAL = 0, cntpct = 0, cntfrq = 62500000\<rparr>"

section \<open>Contexts\<close>

definition ProcessContext_new :: "u64 \<Rightarrow> u64 \<Rightarrow> u64 \<Rightarrow> u64 \<Rightarrow> ProcessContext" where
  "ProcessContext_new entry_point user_sp kernel_sp t =
     \<lparr>regs = replicate 31 0, elr = entry_point, spsr = 0, sp_el0 = user_sp, sp_el1 = kernel_sp, ttbr0 = t\<rparr>"

definition from_ectx :: "ExceptionContext \<Rightarrow> ProcessContext" where
  "from_ectx ctx =
     (let c = ProcessContext_new (elr ctx) (sp_el0 ctx) (sp_el1 ctx) (ttbr0 ctx)
      in c\<lparr>regs := regs ctx, spsr := spsr ctx\<rparr>)"

definition update_from_pctx :: "ProcessContext \<Rightarrow> ExceptionContext \<Rightarrow> ExceptionContext" where
  "update_from_pctx c ectx = ectx\<lparr>regs := regs c, elr := elr c, spsr := spsr c, sp_el0 := sp_el0 c,
     sp_el1 := sp_el1 c, ttbr0 := ttbr0 c\<rparr>"

definition save_meta_to_ectx :: "Process \<Rightarrow> ExceptionContext \<Rightarrow> ExceptionContext" where
  "save_meta_to_ectx p ectx = ectx\<lparr>regs := (regs ectx)[0 := pid p, 1 := parent_pid p]\<rparr>"

definition was_from_user_el0 :: "ExceptionContext \<Rightarrow> bool" where
  "was_from_user_el0 ctx \<longleftrightarrow> esource ctx = EL064 \<or> esource ctx = EL032"

lemma context_round_trip:
  "from_ectx (update_from_pctx c ectx) = c"
  "update_from_pctx (from_ectx ectx) ectx = ectx"
  by (simp_all add: from_ectx_def update_from_pctx_def ProcessContext_new_def)

section \<open>The process table\<close>

definition find_by_ptable_index :: "nat \<Rightarrow> kstate \<Rightarrow> Process option" where
  "find_by_ptable_index index s = (if MAX_PROCESSES \<le> index then None else PROCESS_TABLE s ! index)"

definition get_current_process :: "kstate \<Rightarrow> Process option" where
  "get_current_process s = find_by_ptable_index (CURRENT_PROCESS s) s"

definition slot_of :: "u64 \<Rightarrow> kstate \<Rightarrow> nat option" where
  "slot_of p s = find_index (\<lambda>sl. case sl of Some q \<Rightarrow> pid q = p | None \<Rightarrow> False) (PROCESS_TABLE s)"

definition find_by_id :: "u64 \<Rightarrow> kstate \<Rightarrow> Process option" where
  "find_by_id p s = Option.bind (slot_of p s) (\<lambda>i. PROCESS_TABLE s ! i)"

definition get_current :: "kstate \<Rightarrow> Process option" where
  "get_current s = Option.bind (current_pid (cpu s)) (\<lambda>p. find_by_id p s)"

definition update_slot :: "nat \<Rightarrow> (Process \<Rightarrow> Process) \<Rightarrow> kstate \<Rightarrow> kstate" where
  "update_slot i f s = s\<lparr>PROCESS_TABLE := (PROCESS_TABLE s)[i := map_option f (PROCESS_TABLE s ! i)]\<rparr>"

definition add_process_to_ptable :: "Process \<Rightarrow> kstate \<Rightarrow> string + kstate" where
  "add_process_to_ptable process s =
     (case find_index (\<lambda>sl. sl = None) (PROCESS_TABLE s) of
        Some i \<Rightarrow> Inr (s\<lparr>PROCESS_TABLE := (PROCESS_TABLE s)[i := Some process]\<rparr>)
      | None \<Rightarrow> Inl ''Process table is full'')"

definition remove_process_from_ptable :: "u64 \<Rightarrow> kstate \<Rightarrow> string + kstate" where
  "remove_process_from_ptable p s =
     (case slot_of p s of
        Some i \<Rightarrow> Inr (s\<lparr>PROCESS_TABLE := (PROCESS_TABLE s)[i := None]\<rparr>)
      | None \<Rightarrow> Inl ''Process not found'')"

definition reparent_children_to :: "Process \<Rightarrow> u64 \<Rightarrow> kstate \<Rightarrow> kstate" where
  "reparent_children_to self new_parent_pid s =
     s\<lparr>PROCESS_TABLE := map (map_option (\<lambda>p. if parent_pid p = pid self then p\<lparr>parent_pid := new_parent_pid\<rparr> else p))
         (PROCESS_TABLE s)\<rparr>"

section \<open>Memory seen through the translation tables\<close>

text \<open>
  Where a kernel access at a virtual address lands in the linear map: the first 2 GB of the TTBR1 space are mapped linearly, the
  kernel stacks above them through \<open>PAGE_TABLE_KERNEL_L1\<close>, and the lower half through the current \<^verbatim>\<open>TTBR0_EL1\<close>. An address with no
  translation raises a data abort at EL1, which \<^verbatim>\<open>handle_sync_exception\<close> does not handle.
\<close>

definition KERNEL_STACK_REGION_START :: u64 where "KERNEL_STACK_REGION_START = 0xFFFFFF8080000000"

definition mmu :: "u64 \<Rightarrow> kstate \<Rightarrow> u64 option" where
  "mmu va s =
     (if va < 0x8000000000 then ttbr0_to_ttbr1 va None (pg s)
      else if va < 0xffffff8000000000 then None
      else if va < KERNEL_STACK_REGION_START then Some va
      else ttbr0_to_ttbr1 va (Some (ttbr1_to_pa (PAGE_TABLE_KERNEL_L1 s))) (pg s))"

definition kload :: "u64 \<Rightarrow> kstate \<Rightarrow> halt + u8" where
  "kload va s = (case mmu va s of Some a \<Rightarrow> Inr (ram (pg s) a) | None \<Rightarrow> Inl Unhandled_Exception)"

definition kstore :: "u64 \<Rightarrow> u8 \<Rightarrow> kstate \<Rightarrow> halt + kstate" where
  "kstore va b s = (case mmu va s of
      Some a \<Rightarrow> Inr (s\<lparr>pg := (pg s)\<lparr>ram := (ram (pg s))(a := b)\<rparr>\<rparr>)
    | None \<Rightarrow> Inl Unhandled_Exception)"

definition kstore64 :: "u64 \<Rightarrow> u64 \<Rightarrow> kstate \<Rightarrow> halt + kstate" where
  "kstore64 va v s = (case mmu va s of
      Some a \<Rightarrow> Inr (s\<lparr>pg := (pg s)\<lparr>ram := st64 (ram (pg s)) a v\<rparr>\<rparr>)
    | None \<Rightarrow> Inl Unhandled_Exception)"

definition kcopy :: "u64 \<Rightarrow> u64 \<Rightarrow> nat \<Rightarrow> kstate \<Rightarrow> halt + kstate" where
  "kcopy src dst n = for_halt (\<lambda>k s. kbind (kload (src + of_nat k) s) (\<lambda>b. kstore (dst + of_nat k) b s)) [0..<n]"

end
