(* ===== verification/Timer.thy ===== *)
theory Timer
  imports KState
begin

text \<open>
  The physical timer of \<^verbatim>\<open>timer.rs\<close>: its control and compare registers, and the two operations that program it relative to the
  counter, with the source's checked arithmetic. A write to the timer value register sets the compare register that many (signed) ticks from now, as the architecture says. (\<^verbatim>\<open>handle_irq\<close>, which calls the scheduler, is in the theory of the scheduler.)
\<close>

definition init_irq :: "u32 \<Rightarrow> u32" where
  "init_irq ctl = route_timer_interrupt PhysicalNonSecure IRQ ctl"

definition read_cnt :: "kstate \<Rightarrow> u64" where "read_cnt s = cntpct s"

definition read_frq :: "kstate \<Rightarrow> u64" where "read_frq s = cntfrq s"

definition read_ctl :: "kstate \<Rightarrow> u64" where "read_ctl s = CNTP_CTL s"

definition write_ctl :: "u64 \<Rightarrow> kstate \<Rightarrow> kstate" where "write_ctl v s = s\<lparr>CNTP_CTL := v\<rparr>"

lemmas timer_registers [simp] = read_cnt_def read_frq_def read_ctl_def write_ctl_def

definition timer_enable :: "kstate \<Rightarrow> kstate" where
  "timer_enable s = write_ctl (read_ctl s OR 1) s"

definition timer_disable :: "kstate \<Rightarrow> kstate" where
  "timer_disable s = write_ctl (read_ctl s AND NOT 1) s"

definition mask_int :: "kstate \<Rightarrow> kstate" where
  "mask_int s = write_ctl (read_ctl s OR push_bit 1 1) s"

definition unmask_int :: "kstate \<Rightarrow> kstate" where
  "unmask_int s = write_ctl (read_ctl s AND NOT (push_bit 1 1)) s"

definition timer_start :: "kstate \<Rightarrow> kstate" where
  "timer_start s = timer_enable (unmask_int s)"

definition set_cval :: "u64 \<Rightarrow> kstate \<Rightarrow> kstate" where
  "set_cval new_cval s = s\<lparr>CNTP_CVAL := new_cval\<rparr>"

definition set_tval :: "32 word \<Rightarrow> kstate \<Rightarrow> kstate" where
  "set_tval new_tval s = set_cval (cntpct s + scast new_tval) s"

definition checked_mul_u64 :: "u64 \<Rightarrow> u64 \<Rightarrow> u64 option" where
  "checked_mul_u64 a b = (if 2 ^ 64 \<le> unat a * unat b then None else Some (a * b))"

definition checked_add_u64 :: "u64 \<Rightarrow> u64 \<Rightarrow> u64 option" where
  "checked_add_u64 a b = (if 2 ^ 64 \<le> unat a + unat b then None else Some (a + b))"

definition expect :: "string \<Rightarrow> 'a option \<Rightarrow> halt + 'a" where
  "expect msg r = (case r of None \<Rightarrow> Inl (Panic msg) | Some v \<Rightarrow> Inr v)"

definition set_seconds :: "u64 \<Rightarrow> kstate \<Rightarrow> halt + kstate" where
  "set_seconds seconds s =
     (let freq = read_frq s; now = read_cnt s in
      kbind (expect ''Physical Timer Seconds Overflow.'' (checked_mul_u64 freq seconds)) (\<lambda>ticks.
      kbind (expect ''Physical Timer CVAL Overflow.'' (checked_add_u64 now ticks)) (\<lambda>cval.
      Inr (set_cval cval s))))"

definition set_milliseconds :: "u64 \<Rightarrow> kstate \<Rightarrow> halt + kstate" where
  "set_milliseconds milliseconds s =
     (let freq = read_frq s; now = read_cnt s in
      kbind (expect ''Physical Timer Milliseconds Overflow.'' (checked_mul_u64 freq milliseconds)) (\<lambda>prod.
      let ticks = prod div 1000 in
      kbind (expect ''Physical Timer CVAL Overflow.'' (checked_add_u64 now ticks)) (\<lambda>cval.
      Inr (set_cval cval s))))"

section \<open>Deadlines\<close>

lemma expect_simps [simp]: "expect msg None = Inl (Panic msg)" "expect msg (Some v) = Inr v"
  by (simp_all add: expect_def)

lemma unat_mult_small: "unat a * unat b < 2 ^ 64 \<Longrightarrow> unat (a * b :: u64) = unat a * unat b"
  by (simp add: unat_word_ariths)

lemma unat_add_small: "unat a + unat b < 2 ^ 64 \<Longrightarrow> unat (a + b :: u64) = unat a + unat b"
  by (simp add: unat_word_ariths)

lemma set_milliseconds_spec:
  "set_milliseconds ms s =
     (if 2 ^ 64 \<le> unat (cntfrq s) * unat ms then Inl (Panic ''Physical Timer Milliseconds Overflow.'')
      else if 2 ^ 64 \<le> unat (cntpct s) + unat (cntfrq s) * unat ms div 1000 then Inl (Panic ''Physical Timer CVAL Overflow.'')
      else Inr (set_cval (of_nat (unat (cntpct s) + unat (cntfrq s) * unat ms div 1000)) s))"
proof (cases "2 ^ 64 \<le> unat (cntfrq s) * unat ms")
  case True
  then show ?thesis by (simp add: set_milliseconds_def checked_mul_u64_def)
next
  case False
  then have u: "unat (cntfrq s * ms div 1000) = unat (cntfrq s) * unat ms div 1000"
    by (simp add: unat_div unat_mult_small)
  show ?thesis
  proof (cases "2 ^ 64 \<le> unat (cntpct s) + unat (cntfrq s) * unat ms div 1000")
    case True
    then show ?thesis using False u by (simp add: set_milliseconds_def checked_mul_u64_def checked_add_u64_def Let_def)
  next
    case no: False
    have "cntpct s + cntfrq s * ms div 1000 = of_nat (unat (cntpct s) + unat (cntfrq s) * unat ms div 1000)"
      by (simp flip: u)
    then show ?thesis using False no u by (simp add: set_milliseconds_def checked_mul_u64_def checked_add_u64_def Let_def)
  qed
qed

lemma set_seconds_spec:
  "set_seconds sec s =
     (if 2 ^ 64 \<le> unat (cntfrq s) * unat sec then Inl (Panic ''Physical Timer Seconds Overflow.'')
      else if 2 ^ 64 \<le> unat (cntpct s) + unat (cntfrq s) * unat sec then Inl (Panic ''Physical Timer CVAL Overflow.'')
      else Inr (set_cval (of_nat (unat (cntpct s) + unat (cntfrq s) * unat sec)) s))"
  by (auto simp: set_seconds_def checked_mul_u64_def checked_add_u64_def Let_def unat_mult_small)

lemma timer_frame [simp]:
  "PROCESS_TABLE (timer_enable s) = PROCESS_TABLE s" "CURRENT_PROCESS (timer_enable s) = CURRENT_PROCESS s"
  "PROCESS_TABLE (timer_disable s) = PROCESS_TABLE s" "CURRENT_PROCESS (timer_disable s) = CURRENT_PROCESS s"
  "PROCESS_TABLE (set_cval v s) = PROCESS_TABLE s" "CURRENT_PROCESS (set_cval v s) = CURRENT_PROCESS s"
  "LSR (timer_enable s) = LSR s" "LSR (timer_disable s) = LSR s" "LSR (set_cval v s) = LSR s"
  by (simp_all add: timer_enable_def timer_disable_def set_cval_def)

text \<open>C37. Programming the timer: the deadline is the current count plus the given time in ticks, computed without wrap-around; with a counter
  frequency below 2^32 Hz and a count below 2^63, no time below 2^31 seconds (or milliseconds) can make the checked arithmetic panic.\<close>

theorem timer_deadline_bounds:
  assumes "unat (cntfrq s) < 2 ^ 32" "unat (cntpct s) < 2 ^ 63" "unat t < 2 ^ 31"
  shows "(\<exists>s'. set_seconds t s = Inr s' \<and> unat (CNTP_CVAL s') = unat (cntpct s) + unat (cntfrq s) * unat t)
     \<and> (\<exists>s'. set_milliseconds t s = Inr s' \<and> unat (CNTP_CVAL s') = unat (cntpct s) + unat (cntfrq s) * unat t div 1000)"
proof -
  define f where "f = unat (cntfrq s) * unat t"
  have "f \<le> 2 ^ 32 * 2 ^ 31" unfolding f_def using assms(1,3) by (intro mult_le_mono) simp_all
  then have f: "f \<le> 2 ^ 63" by simp
  then have "unat (cntpct s) + f < 2 ^ 64" "unat (cntpct s) + f div 1000 < 2 ^ 64" "f < 2 ^ 64"
    using assms(2) div_le_dividend [of f 1000] by simp_all
  then show ?thesis
    unfolding set_seconds_spec set_milliseconds_spec f_def [symmetric] by (simp add: set_cval_def unat_small del: of_nat_add)
qed

theorem timer_deadline_bounds_witness:
  "\<exists>s'. set_milliseconds 9 (boot_state (demo_pg 0xffffff8000108000) 0xffffff8000107000) = Inr s' \<and> unat (CNTP_CVAL s') = 562500"
  using timer_deadline_bounds [of "boot_state (demo_pg 0xffffff8000108000) 0xffffff8000107000" 9] by (simp add: boot_state_def)

end
