(* ===== verification/Scheduler.thy ===== *)
theory Scheduler
  imports Timer
begin

text \<open>
  The scheduler of \<^verbatim>\<open>scheduler.rs\<close>. A read of the UART status register takes the next of the readings in \<open>LSR\<close>; the idle loop of
  \<^verbatim>\<open>schedule_next\<close> consumes one reading per turn, so it is a recursion on them, and it spins when they run out without a wake-up.
  The instruction \<^verbatim>\<open>svc #0\<close> with which a process suspends itself in \<^verbatim>\<open>sleep\<close> is not part of these functions: what the
  exception then does is \<open>handle_sync_exception\<close>.
\<close>

definition TIMESLICE_MILISECONDS :: u64 where "TIMESLICE_MILISECONDS = 9"

definition AWAITING_UART_READ :: u64 where "AWAITING_UART_READ = 0xFFFFFFFFFFFFFFFF"

definition set_state :: "ProcessState \<Rightarrow> Process \<Rightarrow> Process" where
  "set_state new_state p = p\<lparr>state := new_state\<rparr>"

definition set_pctx :: "ProcessContext \<Rightarrow> Process \<Rightarrow> Process" where
  "set_pctx new_ctx p = p\<lparr>pctx := new_ctx\<rparr>"

definition block :: "BlockReason \<Rightarrow> Process \<Rightarrow> Process" where
  "block reason p = (set_state Blocked p)\<lparr>block_reason := Some reason\<rparr>"

definition in_state :: "ProcessState \<Rightarrow> Process option \<Rightarrow> bool" where
  "in_state st sl = (case sl of Some p \<Rightarrow> state p = st | None \<Rightarrow> False)"

definition ptable_get :: "nat \<Rightarrow> kstate \<Rightarrow> halt + Process option" where
  "ptable_get i s = (if i < length (PROCESS_TABLE s) then Inr (PROCESS_TABLE s ! i) else Inl (Panic ''index out of bounds''))"

definition with_slot :: "nat \<Rightarrow> string \<Rightarrow> (Process \<Rightarrow> Process) \<Rightarrow> kstate \<Rightarrow> halt + kstate" where
  "with_slot i msg f s = kbind (ptable_get i s) (\<lambda>sl. case sl of
      None \<Rightarrow> Inl (Panic msg)
    | Some _ \<Rightarrow> Inr (update_slot i f s))"

definition any_blocked :: "kstate \<Rightarrow> Process option" where
  "any_blocked s = Option.bind (find (in_state Blocked) (PROCESS_TABLE s)) id"

definition choose_next_process :: "kstate \<Rightarrow> halt + (nat option \<times> kstate)" where
  "choose_next_process s =
     kbind (ptable_get (CURRENT_PROCESS s) s) (\<lambda>sl.
     if in_state Running sl then Inr (Some (CURRENT_PROCESS s), s)
     else (case find (\<lambda>i. in_state Ready (PROCESS_TABLE s ! ((CURRENT_PROCESS s + i) mod MAX_PROCESSES))) [1..<MAX_PROCESSES + 1] of
             Some i \<Rightarrow> (let idx = (CURRENT_PROCESS s + i) mod MAX_PROCESSES in Inr (Some idx, s\<lparr>CURRENT_PROCESS := idx\<rparr>))
           | None \<Rightarrow> Inr (None, s)))"

definition load_pctx :: "nat \<Rightarrow> ExceptionContext \<Rightarrow> kstate \<Rightarrow> halt + (ExceptionContext \<times> kstate)" where
  "load_pctx pidx ectx s =
     kbind (ptable_get pidx s) (\<lambda>sl. case sl of
       Some process \<Rightarrow>
         (let s = s\<lparr>CURRENT_PROCESS := pidx\<rparr>;
              s = update_slot pidx (set_state Running) s;
              s = s\<lparr>cpu := set_current_process (pid process) (cpu s)\<rparr>
          in Inr (update_from_pctx (pctx process) ectx, s))
     | None \<Rightarrow> Inl (Panic ''in Scheduler::load_pctx(), process not found!''))"

definition wakeup :: "u64 \<Rightarrow> kstate \<Rightarrow> kstate" where
  "wakeup channel s = s\<lparr>PROCESS_TABLE := map (map_option (\<lambda>p.
     if state p = Blocked \<and> chan p = channel then (set_state Ready p)\<lparr>block_reason := None, chan := 0\<rparr> else p)) (PROCESS_TABLE s)\<rparr>"

definition read_LSR :: "kstate \<Rightarrow> halt + (u32 \<times> kstate)" where
  "read_LSR s = (case LSR s of [] \<Rightarrow> Inl Spin | v # rest \<Rightarrow> Inr (v, s\<lparr>LSR := rest\<rparr>))"

definition awake_common_chans :: "kstate \<Rightarrow> halt + kstate" where
  "awake_common_chans s = kbind (read_LSR s) (\<lambda>(v, s). Inr (if v AND 1 = 1 then wakeup AWAITING_UART_READ s else s))"

lemma awake_consumes: "awake_common_chans s = Inr s' \<Longrightarrow> length (LSR s') < length (LSR s)"
  by (auto simp: awake_common_chans_def read_LSR_def wakeup_def split: list.splits if_splits)

lemma choose_LSR: "choose_next_process s = Inr (r, s') \<Longrightarrow> LSR s' = LSR s"
  by (auto simp: choose_next_process_def Let_def split: if_splits option.splits)

function schedule_next :: "ExceptionContext \<Rightarrow> kstate \<Rightarrow> halt + (ExceptionContext \<times> kstate)" where
  "schedule_next ectx s =
     (case choose_next_process s of
        Inl h \<Rightarrow> Inl h
      | Inr (Some next_process, s') \<Rightarrow> load_pctx next_process ectx s'
      | Inr (None, s') \<Rightarrow>
          if any_blocked s' \<noteq> None
          then (case awake_common_chans s' of Inl h \<Rightarrow> Inl h | Inr s'' \<Rightarrow> schedule_next ectx s'')
          else Inl The_End)"
  by pat_completeness auto

termination
  by (relation "measure (\<lambda>(ectx, s). length (LSR s))") (auto dest!: awake_consumes choose_LSR)

declare schedule_next.simps [simp del]

definition update_last_running_pctx :: "ProcessContext \<Rightarrow> kstate \<Rightarrow> halt + kstate" where
  "update_last_running_pctx new_pctx s =
     with_slot (CURRENT_PROCESS s) ''Last running process disappeared for unaccounted reason!'' (set_pctx new_pctx) s"

definition reset_timer :: "kstate \<Rightarrow> halt + kstate" where
  "reset_timer s = kbind (set_milliseconds TIMESLICE_MILISECONDS s) (\<lambda>s. Inr (timer_enable s))"

definition timeslice_up :: "kstate \<Rightarrow> halt + kstate" where
  "timeslice_up s =
     kbind (with_slot (CURRENT_PROCESS s) ''Current process disappeared for unaccounted reason!'' (set_state Ready) s) reset_timer"

definition sleep :: "u64 \<Rightarrow> BlockReason \<Rightarrow> kstate \<Rightarrow> halt + kstate" where
  "sleep channel reason s =
     with_slot (CURRENT_PROCESS s) ''Scheduler::sleep() was called when no process was active!''
       (\<lambda>p. p\<lparr>chan := channel, block_reason := Some reason\<rparr>) s"

definition sleep_for_mutex :: "u64 \<Rightarrow> kstate \<Rightarrow> halt + kstate" where
  "sleep_for_mutex mutex s =
     with_slot (CURRENT_PROCESS s) ''Scheduler::sleep_for_mutex() was called when no process was active!''
       (\<lambda>p. p\<lparr>block_reason := Some BlockReason.Mutex, chan := mutex\<rparr>) s"

definition timer_handle_irq :: "ExceptionContext \<Rightarrow> kstate \<Rightarrow> halt + (ExceptionContext \<times> kstate)" where
  "timer_handle_irq ctx s =
     kbind (set_seconds 1 s) (\<lambda>s.
     let s = timer_disable s in
     if was_from_user_el0 ctx then kbind (timeslice_up s) (schedule_next ctx)
     else kbind (reset_timer s) (\<lambda>s. Inr (ctx, s)))"

section \<open>The invariant\<close>

definition sched_inv :: "kstate \<Rightarrow> bool" where
  "sched_inv s \<longleftrightarrow> length (PROCESS_TABLE s) = 50 \<and> CURRENT_PROCESS s < 50
     \<and> (\<forall>i < 50. in_state Running (PROCESS_TABLE s ! i) \<longrightarrow> i = CURRENT_PROCESS s)"

definition ready_from :: "kstate \<Rightarrow> nat \<Rightarrow> bool" where
  "ready_from s i \<longleftrightarrow> in_state Ready (PROCESS_TABLE s ! ((CURRENT_PROCESS s + i) mod 50))"

lemma find_upt_Some: "find P [a..<b] = Some i \<longleftrightarrow> a \<le> i \<and> i < b \<and> P i \<and> (\<forall>j. a \<le> j \<and> j < i \<longrightarrow> \<not> P j)"
proof -
  have "find P [a..<b] = Some i \<longleftrightarrow> (\<exists>k. k < b - a \<and> P (a + k) \<and> i = a + k \<and> (\<forall>j < k. \<not> P (a + j)))"
    by (auto simp: find_Some_iff)
  also have "\<dots> \<longleftrightarrow> a \<le> i \<and> i < b \<and> P i \<and> (\<forall>j. a \<le> j \<and> j < i \<longrightarrow> \<not> P j)"
    by (auto simp: le_iff_add intro!: exI [of _ "i - a"])
  finally show ?thesis .
qed

lemma choose_running:
  "sched_inv s \<Longrightarrow> in_state Running (PROCESS_TABLE s ! CURRENT_PROCESS s) \<Longrightarrow> choose_next_process s = Inr (Some (CURRENT_PROCESS s), s)"
  by (simp add: choose_next_process_def ptable_get_def sched_inv_def)

lemma choose_ready:
  assumes "sched_inv s" "\<not> in_state Running (PROCESS_TABLE s ! CURRENT_PROCESS s)"
    "1 \<le> i" "i \<le> 50" "ready_from s i" "\<And>j. 1 \<le> j \<Longrightarrow> j < i \<Longrightarrow> \<not> ready_from s j"
  shows "choose_next_process s = Inr (Some ((CURRENT_PROCESS s + i) mod 50), s\<lparr>CURRENT_PROCESS := (CURRENT_PROCESS s + i) mod 50\<rparr>)"
proof -
  have "find (ready_from s) [1..<51] = Some i" using assms(3-6) by (auto simp: find_upt_Some)
  then show ?thesis
    using assms(1,2) by (simp add: choose_next_process_def ptable_get_def sched_inv_def MAX_PROCESSES_def ready_from_def [abs_def] Let_def del: upt_rec_numeral upt.simps)
qed

lemma circle:
  assumes "c < (50 :: nat)" "i < 50"
  shows "\<exists>d. 1 \<le> d \<and> d \<le> 50 \<and> (c + d) mod 50 = i"
  by (rule exI [of _ "if c < i then i - c else i + 50 - c"]) (use assms in auto)

lemma choose_none:
  assumes "sched_inv s" "\<And>i. i < 50 \<Longrightarrow> \<not> in_state Running (PROCESS_TABLE s ! i) \<and> \<not> in_state Ready (PROCESS_TABLE s ! i)"
  shows "choose_next_process s = Inr (None, s)"
proof -
  have "find (ready_from s) [1..<51] = None" using assms(2) by (auto simp: find_None_iff ready_from_def)
  then show ?thesis
    using assms(1) assms(2) [of "CURRENT_PROCESS s"]
    by (simp add: choose_next_process_def ptable_get_def sched_inv_def MAX_PROCESSES_def ready_from_def [abs_def] Let_def del: upt_rec_numeral upt.simps)
qed

section \<open>Dispatching\<close>

definition dispatched :: "nat \<Rightarrow> Process \<Rightarrow> kstate \<Rightarrow> kstate" where
  "dispatched i p s = s\<lparr>CURRENT_PROCESS := i, PROCESS_TABLE := (PROCESS_TABLE s)[i := Some (set_state Running p)],
     cpu := set_current_process (pid p) (cpu s)\<rparr>"

lemma load_pctx_Some:
  "i < length (PROCESS_TABLE s) \<Longrightarrow> PROCESS_TABLE s ! i = Some p \<Longrightarrow>
   load_pctx i ectx s = Inr (update_from_pctx (pctx p) ectx, dispatched i p s)"
  by (simp add: load_pctx_def ptable_get_def dispatched_def update_slot_def Let_def)

lemma dispatched_inv:
  assumes "sched_inv s" "i < 50" "PROCESS_TABLE s ! i = Some p" "\<And>j. j < 50 \<Longrightarrow> j \<noteq> i \<Longrightarrow> \<not> in_state Running (PROCESS_TABLE s ! j)"
  shows "sched_inv (dispatched i p s)"
  using assms by (auto simp: sched_inv_def dispatched_def nth_list_update)

lemma schedule_next_ready:
  assumes inv: "sched_inv s" and nr: "\<not> in_state Running (PROCESS_TABLE s ! CURRENT_PROCESS s)"
    and i: "1 \<le> i" "i \<le> 50" "ready_from s i" "\<And>j. 1 \<le> j \<Longrightarrow> j < i \<Longrightarrow> \<not> ready_from s j"
  shows "\<exists>p. PROCESS_TABLE s ! ((CURRENT_PROCESS s + i) mod 50) = Some p \<and> state p = Ready
     \<and> schedule_next ectx s = Inr (update_from_pctx (pctx p) ectx, dispatched ((CURRENT_PROCESS s + i) mod 50) p s)
     \<and> sched_inv (dispatched ((CURRENT_PROCESS s + i) mod 50) p s)"
proof -
  let ?k = "(CURRENT_PROCESS s + i) mod 50"
  have k: "?k < 50" by simp
  obtain p where p: "PROCESS_TABLE s ! ?k = Some p" "state p = Ready" using i(3) by (auto simp: ready_from_def in_state_def split: option.splits)
  have "load_pctx ?k ectx (s\<lparr>CURRENT_PROCESS := ?k\<rparr>) = Inr (update_from_pctx (pctx p) ectx, dispatched ?k p s)"
    using p inv load_pctx_Some [of ?k "s\<lparr>CURRENT_PROCESS := ?k\<rparr>" p ectx] by (simp add: sched_inv_def dispatched_def)
  then have "schedule_next ectx s = Inr (update_from_pctx (pctx p) ectx, dispatched ?k p s)"
    by (subst schedule_next.simps) (simp add: choose_ready [OF inv nr i])
  moreover have "sched_inv (dispatched ?k p s)"
    using inv nr by (intro dispatched_inv [OF inv k p(1)]) (auto simp: sched_inv_def)
  ultimately show ?thesis using p by blast
qed

lemma schedule_next_running:
  assumes "sched_inv s" "PROCESS_TABLE s ! CURRENT_PROCESS s = Some p" "state p = Running"
  shows "schedule_next ectx s = Inr (update_from_pctx (pctx p) ectx, dispatched (CURRENT_PROCESS s) p s)"
    "sched_inv (dispatched (CURRENT_PROCESS s) p s)"
proof -
  have "choose_next_process s = Inr (Some (CURRENT_PROCESS s), s)" using assms by (intro choose_running) (auto simp: in_state_def)
  then show "schedule_next ectx s = Inr (update_from_pctx (pctx p) ectx, dispatched (CURRENT_PROCESS s) p s)"
    using assms(1,2) by (subst schedule_next.simps) (auto simp: sched_inv_def load_pctx_Some)
  show "sched_inv (dispatched (CURRENT_PROCESS s) p s)" using assms by (intro dispatched_inv) (auto simp: sched_inv_def)
qed

lemma nearest_ready:
  assumes "sched_inv s" "j < 50" "in_state Ready (PROCESS_TABLE s ! j)" "1 \<le> d" "d \<le> 50" "(CURRENT_PROCESS s + d) mod 50 = j"
  shows "\<exists>i. 1 \<le> i \<and> i \<le> d \<and> ready_from s i \<and> (\<forall>k. 1 \<le> k \<longrightarrow> k < i \<longrightarrow> \<not> ready_from s k)"
proof -
  have P: "1 \<le> d \<and> ready_from s d" using assms by (simp add: ready_from_def)
  define i where "i = (LEAST i. 1 \<le> i \<and> ready_from s i)"
  have "1 \<le> i \<and> ready_from s i" unfolding i_def by (rule LeastI [of _ d]) (rule P)
  moreover have "i \<le> d" unfolding i_def by (rule Least_le) (rule P)
  moreover have "\<not> ready_from s k" if "1 \<le> k" "k < i" for k using not_less_Least [of k "\<lambda>i. 1 \<le> i \<and> ready_from s i"] that i_def by auto
  ultimately show ?thesis by blast
qed

section \<open>Idling\<close>

lemma wakeup_inv: "sched_inv s \<Longrightarrow> sched_inv (wakeup c s)"
  by (auto simp: sched_inv_def wakeup_def in_state_def set_state_def split: option.splits if_splits)

lemma awake_inv: "sched_inv s \<Longrightarrow> awake_common_chans s = Inr s' \<Longrightarrow> sched_inv s'"
  by (auto simp: awake_common_chans_def read_LSR_def split: list.splits if_splits intro!: wakeup_inv) (simp_all add: sched_inv_def)

definition idle :: "kstate \<Rightarrow> bool" where
  "idle s \<longleftrightarrow> (\<forall>i < 50. \<not> in_state Running (PROCESS_TABLE s ! i) \<and> \<not> in_state Ready (PROCESS_TABLE s ! i))"

lemma any_blocked_iff: "any_blocked s = None \<longleftrightarrow> (\<forall>sl \<in> set (PROCESS_TABLE s). \<not> in_state Blocked sl)"
proof -
  have "Option.bind (find (in_state Blocked) xs) id = None \<longleftrightarrow> (\<forall>sl \<in> set xs. \<not> in_state Blocked sl)" for xs
    by (induction xs) (auto simp: in_state_def split: option.splits)
  then show ?thesis by (simp add: any_blocked_def)
qed

lemma schedule_next_idle:
  assumes "sched_inv s" "idle s"
  shows "schedule_next ectx s = (if \<exists>i < 50. in_state Blocked (PROCESS_TABLE s ! i)
     then kbind (awake_common_chans s) (schedule_next ectx) else Inl The_End)"
proof -
  have c: "choose_next_process s = Inr (None, s)" using assms by (intro choose_none) (auto simp: idle_def)
  have "any_blocked s \<noteq> None \<longleftrightarrow> (\<exists>i < 50. in_state Blocked (PROCESS_TABLE s ! i))"
    using assms(1) by (auto simp only: any_blocked_iff sched_inv_def all_set_conv_all_nth)
  then show ?thesis by (subst schedule_next.simps) (auto simp: c kbind_def split: sum.splits)
qed

lemma schedule_next_waits:
  assumes "sched_inv s" "idle s" "j < 50" "PROCESS_TABLE s ! j = Some q" "state q = Blocked" "chan q = AWAITING_UART_READ"
    "LSR s = ns @ v # rest" "\<forall>n \<in> set ns. n AND 1 \<noteq> 1" "v AND 1 = 1"
  shows "schedule_next ectx s = schedule_next ectx ((wakeup AWAITING_UART_READ s)\<lparr>LSR := rest\<rparr>)"
  using assms
proof (induction ns arbitrary: s)
  case Nil
  have "awake_common_chans s = Inr ((wakeup AWAITING_UART_READ s)\<lparr>LSR := rest\<rparr>)"
    using Nil.prems(7,9) by (simp add: awake_common_chans_def read_LSR_def wakeup_def)
  moreover have "\<exists>i < 50. in_state Blocked (PROCESS_TABLE s ! i)" using Nil.prems(3-5) by (auto simp: in_state_def)
  ultimately show ?case by (subst schedule_next_idle [OF Nil.prems(1,2)]) (simp only: if_True kbind_simps)
next
  case (Cons n ns)
  let ?s = "s\<lparr>LSR := ns @ v # rest\<rparr>"
  have "awake_common_chans s = Inr ?s" using Cons.prems(7,8) by (simp add: awake_common_chans_def read_LSR_def)
  moreover have "\<exists>i < 50. in_state Blocked (PROCESS_TABLE s ! i)" using Cons.prems(3-5) by (auto simp: in_state_def)
  ultimately have "schedule_next ectx s = schedule_next ectx ?s"
    by (subst schedule_next_idle [OF Cons.prems(1,2)]) (simp only: if_True kbind_simps)
  also have "\<dots> = schedule_next ectx ((wakeup AWAITING_UART_READ ?s)\<lparr>LSR := rest\<rparr>)"
    using Cons.prems by (intro Cons.IH) (auto simp: sched_inv_def idle_def)
  also have "(wakeup AWAITING_UART_READ ?s)\<lparr>LSR := rest\<rparr> = (wakeup AWAITING_UART_READ s)\<lparr>LSR := rest\<rparr>"
    by (simp add: wakeup_def)
  finally show ?case .
qed

lemma in_state_iff: "in_state st sl \<longleftrightarrow> (\<exists>p. sl = Some p \<and> state p = st)"
  by (auto simp: in_state_def split: option.splits)

lemma sched_cases:
  assumes "sched_inv s"
  obtains (run) p where "PROCESS_TABLE s ! CURRENT_PROCESS s = Some p" "state p = Running"
    | (ready) j where "\<not> in_state Running (PROCESS_TABLE s ! CURRENT_PROCESS s)" "j < 50" "in_state Ready (PROCESS_TABLE s ! j)"
    | (idle) "idle s"
proof (cases "in_state Running (PROCESS_TABLE s ! CURRENT_PROCESS s)")
  case True
  then show ?thesis using run unfolding in_state_iff by blast
next
  case False
  then show ?thesis using assms ready idle unfolding sched_inv_def idle_def by metis
qed

lemma schedule_next_outcome:
  assumes "sched_inv s" "schedule_next ectx s = Inr (ectx', s')"
  shows "\<exists>i p s0. i < 50 \<and> PROCESS_TABLE s0 ! i = Some p \<and> sched_inv s0 \<and> sched_inv s' \<and> s' = dispatched i p s0 \<and> ectx' = update_from_pctx (pctx p) ectx"
  using assms
proof (induction "length (LSR s)" arbitrary: s rule: less_induct)
  case less
  from less.prems(1) show ?case
  proof (cases rule: sched_cases)
    case (run p)
    have "CURRENT_PROCESS s < 50" using less.prems(1) by (simp add: sched_inv_def)
    moreover from less.prems(2) have "ectx' = update_from_pctx (pctx p) ectx" "s' = dispatched (CURRENT_PROCESS s) p s"
      by (simp_all add: schedule_next_running(1) [OF less.prems(1) run, of ectx])
    ultimately show ?thesis using schedule_next_running(2) [OF less.prems(1) run] run(1) less.prems(1) by blast
  next
    case (ready j)
    have "CURRENT_PROCESS s < 50" using less.prems(1) by (simp add: sched_inv_def)
    from circle [OF this ready(2)] obtain d where "1 \<le> d" "d \<le> 50" "(CURRENT_PROCESS s + d) mod 50 = j" by blast
    from nearest_ready [OF less.prems(1) ready(2,3) this] obtain i where
      i: "1 \<le> i" "i \<le> d" "ready_from s i" "\<And>k. 1 \<le> k \<Longrightarrow> k < i \<Longrightarrow> \<not> ready_from s k" by blast
    have "i \<le> 50" using i(2) \<open>d \<le> 50\<close> by simp
    from schedule_next_ready [OF less.prems(1) ready(1) i(1) this i(3,4), of ectx] obtain p where
      p: "PROCESS_TABLE s ! ((CURRENT_PROCESS s + i) mod 50) = Some p"
      "schedule_next ectx s = Inr (update_from_pctx (pctx p) ectx, dispatched ((CURRENT_PROCESS s + i) mod 50) p s)"
      "sched_inv (dispatched ((CURRENT_PROCESS s + i) mod 50) p s)" by blast
    have "(CURRENT_PROCESS s + i) mod 50 < 50" by simp
    moreover have "ectx' = update_from_pctx (pctx p) ectx" "s' = dispatched ((CURRENT_PROCESS s + i) mod 50) p s"
      using less.prems(2) p(2) by simp_all
    ultimately show ?thesis using p less.prems(1) by blast
  next
    case idle
    note n = schedule_next_idle [OF less.prems(1) idle, of ectx]
    then have "kbind (awake_common_chans s) (schedule_next ectx) = Inr (ectx', s')" using less.prems(2) by (metis Inl_not_Inr)
    then obtain s1 where s1: "awake_common_chans s = Inr s1" "schedule_next ectx s1 = Inr (ectx', s')" by auto
    show ?thesis by (rule less.hyps [OF awake_consumes [OF s1(1)] awake_inv [OF less.prems(1) s1(1)] s1(2)])
  qed
qed

section \<open>Fairness\<close>

lemma fair_step:
  assumes inv: "sched_inv s" and nr: "\<not> in_state Running (PROCESS_TABLE s ! CURRENT_PROCESS s)"
    and j: "j < 50" "PROCESS_TABLE s ! j = Some p" "state p = Ready" and d: "1 \<le> d" "d \<le> 50" "(CURRENT_PROCESS s + d) mod 50 = j"
  shows "\<exists>c t. schedule_next e s = Inr (c, t)
     \<and> (CURRENT_PROCESS t = j \<and> c = update_from_pctx (pctx p) e \<or> (\<exists>d' < d. 1 \<le> d' \<and> (CURRENT_PROCESS t + d') mod 50 = j))"
proof -
  have "in_state Ready (PROCESS_TABLE s ! j)" using j by (simp add: in_state_def)
  from nearest_ready [OF inv j(1) this d] obtain i where
    i: "1 \<le> i" "i \<le> d" "ready_from s i" "\<And>k. 1 \<le> k \<Longrightarrow> k < i \<Longrightarrow> \<not> ready_from s k" by blast
  have "i \<le> 50" using i(2) d(2) by simp
  from schedule_next_ready [OF inv nr i(1) this i(3,4), of e] obtain q where
    q: "PROCESS_TABLE s ! ((CURRENT_PROCESS s + i) mod 50) = Some q"
    "schedule_next e s = Inr (update_from_pctx (pctx q) e, dispatched ((CURRENT_PROCESS s + i) mod 50) q s)" by blast
  show ?thesis
  proof (cases "i = d")
    case True
    then show ?thesis using q d(3) j(2) by (auto simp: dispatched_def)
  next
    case False
    have "((CURRENT_PROCESS s + i) mod 50 + (d - i)) mod 50 = (CURRENT_PROCESS s + i + (d - i)) mod 50" by (rule mod_add_left_eq)
    then have "((CURRENT_PROCESS s + i) mod 50 + (d - i)) mod 50 = j" using i(2) d(3) by simp
    then have "\<exists>d' < d. 1 \<le> d' \<and> (CURRENT_PROCESS (dispatched ((CURRENT_PROCESS s + i) mod 50) q s) + d') mod 50 = j"
      using False i(1,2) by (intro exI [of _ "d - i"]) (simp add: dispatched_def)
    then show ?thesis using q(2) by blast
  qed
qed

lemma fair_run:
  assumes inv: "\<And>k. k < 50 \<Longrightarrow> sched_inv (S k)" and nr: "\<And>k. k < 50 \<Longrightarrow> \<not> in_state Running (PROCESS_TABLE (S k) ! CURRENT_PROCESS (S k))"
    and j: "j < 50"
    and step: "\<And>k c t. k < 49 \<Longrightarrow> schedule_next (C k) (S k) = Inr (c, t) \<Longrightarrow> CURRENT_PROCESS (S (Suc k)) = CURRENT_PROCESS t"
    and wait: "\<And>k. k < 50 \<Longrightarrow> (\<exists>p. PROCESS_TABLE (S k) ! j = Some p \<and> state p = Ready) \<or> (\<exists>i < k. CURRENT_PROCESS (S (Suc i)) = j)"
    and d: "1 \<le> d" "k + d \<le> 50" "(CURRENT_PROCESS (S k) + d) mod 50 = j" and none: "\<And>i. i < k \<Longrightarrow> CURRENT_PROCESS (S (Suc i)) \<noteq> j"
  shows "\<exists>k' < 50. \<exists>p t. PROCESS_TABLE (S k') ! j = Some p \<and> schedule_next (C k') (S k') = Inr (update_from_pctx (pctx p) (C k'), t) \<and> CURRENT_PROCESS t = j"
  using d none
proof (induction d arbitrary: k rule: less_induct)
  case (less d)
  have k: "k < 50" using less.prems by simp
  obtain p where p: "PROCESS_TABLE (S k) ! j = Some p" "state p = Ready" using wait [OF k] less.prems(4) by blast
  have "d \<le> 50" using less.prems(2) by simp
  from fair_step [OF inv [OF k] nr [OF k] j p less.prems(1) this less.prems(3), of "C k"] obtain c t where
    t: "schedule_next (C k) (S k) = Inr (c, t)" and
    cs: "CURRENT_PROCESS t = j \<and> c = update_from_pctx (pctx p) (C k) \<or> (\<exists>d' < d. 1 \<le> d' \<and> (CURRENT_PROCESS t + d') mod 50 = j)" by blast
  show ?case
  proof (cases "CURRENT_PROCESS t = j \<and> c = update_from_pctx (pctx p) (C k)")
    case True
    then show ?thesis using t p(1) k by blast
  next
    case False
    then obtain d' where d': "d' < d" "1 \<le> d'" "(CURRENT_PROCESS t + d') mod 50 = j" using cs by blast
    have k1: "Suc k < 50" using d' less.prems(2) by simp
    then have eq: "CURRENT_PROCESS (S (Suc k)) = CURRENT_PROCESS t" using step [OF _ t] by simp
    have tj: "CURRENT_PROCESS t < 50" using inv [OF k1] eq by (simp add: sched_inv_def)
    have "CURRENT_PROCESS t \<noteq> j"
    proof
      assume "CURRENT_PROCESS t = j"
      then have "(j + d') mod 50 = j" "d' < 50" using d' \<open>d \<le> 50\<close> by auto
      then show False using d'(2) j by (cases "j + d' < 50") (simp_all add: le_mod_geq)
    qed
    then show ?thesis using d' less.prems(2,4) eq k1 by (intro less.IH [OF d'(1), of "Suc k"]) (auto simp: less_Suc_eq)
  qed
qed

section \<open>Runs of the scheduler\<close>

text \<open>
  The events that change the process states and the current process: timer interrupts, wake-ups, the preparations for sleeping, saving
  a context, and a process that gives up the processor.
\<close>

inductive sched_step :: "kstate \<Rightarrow> kstate \<Rightarrow> bool" where
  irq: "timer_handle_irq ctx s = Inr (ctx', s') \<Longrightarrow> sched_step s s'"
| wake: "sched_step s (wakeup c s)"
| poll: "awake_common_chans s = Inr s' \<Longrightarrow> sched_step s s'"
| to_sleep: "sleep c r s = Inr s' \<Longrightarrow> sched_step s s'"
| to_mutex: "sleep_for_mutex c s = Inr s' \<Longrightarrow> sched_step s s'"
| save: "update_last_running_pctx c s = Inr s' \<Longrightarrow> sched_step s s'"
| yield: "schedule_next ctx (update_slot (CURRENT_PROCESS s) (block r) s) = Inr (ctx', s') \<Longrightarrow> sched_step s s'"

lemma update_slot_sel:
  "PROCESS_TABLE (update_slot i f s) = (PROCESS_TABLE s)[i := map_option f (PROCESS_TABLE s ! i)]"
  "CURRENT_PROCESS (update_slot i f s) = CURRENT_PROCESS s" "LSR (update_slot i f s) = LSR s" "cpu (update_slot i f s) = cpu s"
  by (simp_all add: update_slot_def)

lemma update_slot_inv:
  assumes "sched_inv s" "\<And>p. state (f p) = Running \<Longrightarrow> state p = Running \<or> i = CURRENT_PROCESS s"
  shows "sched_inv (update_slot i f s)"
proof -
  let ?t = "PROCESS_TABLE s"
  have l: "length ?t = 50" "CURRENT_PROCESS s < 50" and r: "\<And>i. i < 50 \<Longrightarrow> in_state Running (?t ! i) \<Longrightarrow> i = CURRENT_PROCESS s"
    using assms(1) by (auto simp: sched_inv_def)
  have "j = CURRENT_PROCESS s" if j: "j < 50" "in_state Running (?t[i := map_option f (?t ! i)] ! j)" for j
  proof (cases "j = i")
    case True
    then obtain p where p: "?t ! i = Some p" "state (f p) = Running" using j l by (auto simp: in_state_iff)
    then show ?thesis using assms(2) [OF p(2)] r [OF j(1)] True by (auto simp: in_state_iff)
  next
    case False
    then show ?thesis using j r by simp
  qed
  then have "\<forall>j < 50. in_state Running (?t[i := map_option f (?t ! i)] ! j) \<longrightarrow> j = CURRENT_PROCESS s" by blast
  with l show ?thesis unfolding sched_inv_def update_slot_sel length_list_update by blast
qed

lemma with_slot_Inr: "with_slot i msg f s = Inr s' \<Longrightarrow> s' = update_slot i f s"
  by (cases "PROCESS_TABLE s ! i") (simp_all add: with_slot_def ptable_get_def split: if_splits)

lemma with_slot_inv:
  assumes "sched_inv s" "with_slot (CURRENT_PROCESS s) msg f s = Inr s'"
  shows "sched_inv s'"
proof -
  have "s' = update_slot (CURRENT_PROCESS s) f s" using assms(2) by (rule with_slot_Inr)
  then show ?thesis using update_slot_inv [OF assms(1), of f "CURRENT_PROCESS s"] by simp
qed

lemma timer_inv:
  "sched_inv s \<Longrightarrow> set_seconds n s = Inr s' \<Longrightarrow> sched_inv s'"
  "sched_inv s \<Longrightarrow> set_milliseconds n s = Inr s' \<Longrightarrow> sched_inv s'"
  "sched_inv s \<Longrightarrow> sched_inv (timer_enable s)" "sched_inv s \<Longrightarrow> sched_inv (timer_disable s)"
  by (auto simp: sched_inv_def set_seconds_spec set_milliseconds_spec split: if_splits)

lemma reset_timer_inv: "sched_inv s \<Longrightarrow> reset_timer s = Inr s' \<Longrightarrow> sched_inv s'"
  by (auto simp: reset_timer_def intro: timer_inv)

lemma timeslice_up_inv: "sched_inv s \<Longrightarrow> timeslice_up s = Inr s' \<Longrightarrow> sched_inv s'"
  by (auto simp: timeslice_up_def intro: reset_timer_inv with_slot_inv)

lemma schedule_next_inv: "sched_inv s \<Longrightarrow> schedule_next ctx s = Inr (ctx', s') \<Longrightarrow> sched_inv s'"
  using schedule_next_outcome by blast

lemma timer_handle_irq_inv: "sched_inv s \<Longrightarrow> timer_handle_irq ctx s = Inr (ctx', s') \<Longrightarrow> sched_inv s'"
proof -
  assume inv: "sched_inv s" and h: "timer_handle_irq ctx s = Inr (ctx', s')"
  then obtain s1 where s1: "set_seconds 1 s = Inr s1" by (auto simp: timer_handle_irq_def)
  have i: "sched_inv (timer_disable s1)" by (rule timer_inv(4) [OF timer_inv(1) [OF inv s1]])
  show ?thesis
  proof (cases "was_from_user_el0 ctx")
    case True
    then obtain s2 where "timeslice_up (timer_disable s1) = Inr s2" "schedule_next ctx s2 = Inr (ctx', s')"
      using h s1 by (auto simp: timer_handle_irq_def Let_def)
    then show ?thesis using i by (metis timeslice_up_inv schedule_next_inv)
  next
    case False
    then have "reset_timer (timer_disable s1) = Inr s'" using h s1 by (auto simp: timer_handle_irq_def Let_def)
    then show ?thesis by (rule reset_timer_inv [OF i])
  qed
qed

lemma sched_step_inv: "sched_step s s' \<Longrightarrow> sched_inv s \<Longrightarrow> sched_inv s'"
proof (induction rule: sched_step.induct)
  case (yield ctx s r ctx' s')
  have "sched_inv (update_slot (CURRENT_PROCESS s) (block r) s)" using yield.prems by (rule update_slot_inv) simp
  then show ?case using yield.hyps by (rule schedule_next_inv)
qed (auto simp: sleep_def sleep_for_mutex_def update_last_running_pctx_def intro: timer_handle_irq_inv wakeup_inv awake_inv with_slot_inv)

text \<open>A small system: one process in slot 0, in a given state, all other slots empty.\<close>

definition lone_process :: "ProcessState \<Rightarrow> u64 \<Rightarrow> Process" where
  "lone_process st c = \<lparr>pid = 1, name = replicate 32 0, state = st, block_reason = None, parent_pid = 0,
     pctx = ProcessContext_new 0x400000 0x401000 0 0x107000, chan = c, exit_code = 0\<rparr>"

definition lone :: "ProcessState \<Rightarrow> u64 \<Rightarrow> u32 list \<Rightarrow> kstate" where
  "lone st c l = (boot_state (demo_pg 0xffffff8000108000) 0xffffff8000107000)\<lparr>
     PROCESS_TABLE := Some (lone_process st c) # replicate 49 None, CURRENT_PROCESS := 0, LSR := l\<rparr>"

lemma lone_slots: "i < 50 \<Longrightarrow> PROCESS_TABLE (lone st c l) ! i = (if i = 0 then Some (lone_process st c) else None)"
  by (cases i) (simp_all add: lone_def)

lemma lone_inv: "sched_inv (lone st c l)" "CURRENT_PROCESS (lone st c l) = 0" "LSR (lone st c l) = l"
  using lone_slots by (simp_all add: sched_inv_def in_state_iff) (simp_all add: lone_def)

lemma lone_ready:
  "\<not> in_state Running (PROCESS_TABLE (lone Ready c l) ! CURRENT_PROCESS (lone Ready c l))"
  "in_state Ready (PROCESS_TABLE (lone Ready c l) ! ((CURRENT_PROCESS (lone Ready c l) + 50) mod 50))"
  "\<forall>k. 1 \<le> k \<and> k < 50 \<longrightarrow> \<not> in_state Ready (PROCESS_TABLE (lone Ready c l) ! ((CURRENT_PROCESS (lone Ready c l) + k) mod 50))"
  using lone_slots [of _ Ready c l] by (simp_all add: lone_inv in_state_iff lone_process_def)

definition demo_ectx :: ExceptionContext where
  "demo_ectx = \<lparr>regs = replicate 31 0, elr = 0, spsr = 0, sp_el0 = 0, sp_el1 = 0, ttbr0 = 0, etype = E_IRQ, esource = EL064, esr = 0, far = 0\<rparr>"

section \<open>Properties\<close>

text \<open>C7. Round robin: when the current process is no longer running, \<^verbatim>\<open>schedule_next\<close> resumes the first ready process in circular order after it. It restores
  exactly that process's saved context, makes it the one running process and the CPU's current process, and leaves every other slot alone.\<close>

theorem schedule_round_robin:
  assumes "sched_inv s" "\<not> in_state Running (PROCESS_TABLE s ! CURRENT_PROCESS s)"
    "1 \<le> i" "i \<le> 50" "in_state Ready (PROCESS_TABLE s ! ((CURRENT_PROCESS s + i) mod 50))"
    "\<forall>k. 1 \<le> k \<and> k < i \<longrightarrow> \<not> in_state Ready (PROCESS_TABLE s ! ((CURRENT_PROCESS s + k) mod 50))"
  shows "\<exists>p s'. PROCESS_TABLE s ! ((CURRENT_PROCESS s + i) mod 50) = Some p \<and> schedule_next ectx s = Inr (update_from_pctx (pctx p) ectx, s')
     \<and> sched_inv s' \<and> CURRENT_PROCESS s' = (CURRENT_PROCESS s + i) mod 50 \<and> current_pid (cpu s') = Some (pid p)
     \<and> (\<forall>j < 50. PROCESS_TABLE s' ! j = (if j = CURRENT_PROCESS s' then Some (p\<lparr>state := Running\<rparr>) else PROCESS_TABLE s ! j))"
proof -
  have "ready_from s i" "\<And>k. 1 \<le> k \<Longrightarrow> k < i \<Longrightarrow> \<not> ready_from s k" using assms(5,6) by (simp_all add: ready_from_def)
  from schedule_next_ready [OF assms(1-4) this, of ectx] assms(1) show ?thesis
    by (auto simp: dispatched_def set_current_process_def set_state_def sched_inv_def)
qed

theorem schedule_round_robin_witness:
  "\<exists>s'. schedule_next demo_ectx (lone Ready 0 []) = Inr (update_from_pctx (pctx (lone_process Ready 0)) demo_ectx, s')
     \<and> CURRENT_PROCESS s' = 0 \<and> current_pid (cpu s') = Some 1"
proof -
  from schedule_round_robin [OF lone_inv(1) [of Ready 0 "[]"] lone_ready(1) _ _ lone_ready(2) lone_ready(3), of demo_ectx]
  show ?thesis by (auto simp: lone_inv lone_slots) (simp add: lone_process_def)
qed

text \<open>C15. No starvation: a process that stays ready gets the processor within fifty calls of \<^verbatim>\<open>schedule_next\<close>, whatever happens to the other processes
  between the calls.\<close>

theorem schedule_fair:
  assumes "\<forall>k < 50. sched_inv (S k) \<and> \<not> in_state Running (PROCESS_TABLE (S k) ! CURRENT_PROCESS (S k))" "j < 50"
    "\<forall>k < 49. \<forall>c t. schedule_next (C k) (S k) = Inr (c, t) \<longrightarrow> CURRENT_PROCESS (S (Suc k)) = CURRENT_PROCESS t"
    "\<forall>k < 50. (\<exists>p. PROCESS_TABLE (S k) ! j = Some p \<and> state p = Ready) \<or> (\<exists>i < k. CURRENT_PROCESS (S (Suc i)) = j)"
  shows "\<exists>k < 50. \<exists>p t. PROCESS_TABLE (S k) ! j = Some p \<and> schedule_next (C k) (S k) = Inr (update_from_pctx (pctx p) (C k), t) \<and> CURRENT_PROCESS t = j"
proof -
  have "CURRENT_PROCESS (S 0) < 50" using assms(1) by (simp add: sched_inv_def)
  from circle [OF this assms(2)] obtain d where "1 \<le> d" "0 + d \<le> 50" "(CURRENT_PROCESS (S 0) + d) mod 50 = j" by auto
  then show ?thesis using fair_run [of S j C d 0] assms by blast
qed

theorem schedule_fair_witness:
  "\<exists>t. schedule_next demo_ectx (lone Ready 0 []) = Inr (update_from_pctx (pctx (lone_process Ready 0)) demo_ectx, t) \<and> CURRENT_PROCESS t = 0"
proof -
  let ?S = "\<lambda>k :: nat. lone Ready 0 []"
  have "ready_from (lone Ready 0 []) 50" "\<And>k. 1 \<le> k \<Longrightarrow> k < 50 \<Longrightarrow> \<not> ready_from (lone Ready 0 []) k"
    using lone_ready(2,3) by (simp_all add: ready_from_def)
  from schedule_next_ready [OF lone_inv(1) lone_ready(1) _ _ this, of demo_ectx]
  have "schedule_next demo_ectx (lone Ready 0 []) = Inr (c, t) \<Longrightarrow> CURRENT_PROCESS t = 0" for c t
    by (auto simp: lone_inv dispatched_def)
  then have "\<forall>k < 49. \<forall>c t. schedule_next demo_ectx (?S k) = Inr (c, t) \<longrightarrow> CURRENT_PROCESS (?S (Suc k)) = CURRENT_PROCESS t"
    by (simp add: lone_inv)
  moreover have "\<forall>k < 50. sched_inv (?S k) \<and> \<not> in_state Running (PROCESS_TABLE (?S k) ! CURRENT_PROCESS (?S k))"
    using lone_inv(1) lone_ready(1) by blast
  moreover have "PROCESS_TABLE (lone Ready 0 []) ! 0 = Some (lone_process Ready 0)" "state (lone_process Ready 0) = Ready"
    by (simp_all add: lone_slots lone_process_def)
  ultimately show ?thesis using schedule_fair [of ?S 0 "\<lambda>k. demo_ectx"] by auto
qed

text \<open>C34. Idling ends: when nobody can run but some process waits for input, \<^verbatim>\<open>schedule_next\<close> polls the UART and returns at the first reading with data,
  having used no further reading, with a process that was waiting for input.\<close>

theorem schedule_idle_until_input:
  assumes "sched_inv s" "idle s" "j < 50" "PROCESS_TABLE s ! j = Some q" "state q = Blocked" "chan q = AWAITING_UART_READ"
    "LSR s = ns @ v # rest" "\<forall>n \<in> set ns. n AND 1 \<noteq> 1" "v AND 1 = 1"
  shows "\<exists>i p s'. i < 50 \<and> PROCESS_TABLE s ! i = Some p \<and> state p = Blocked \<and> chan p = AWAITING_UART_READ
     \<and> schedule_next ectx s = Inr (update_from_pctx (pctx p) ectx, s') \<and> CURRENT_PROCESS s' = i \<and> LSR s' = rest"
proof -
  let ?w = "(wakeup AWAITING_UART_READ s)\<lparr>LSR := rest\<rparr>"
  have inv: "sched_inv ?w" using wakeup_inv [OF assms(1)] by (simp add: sched_inv_def)
  have slot: "PROCESS_TABLE ?w ! i = map_option (\<lambda>p. if state p = Blocked \<and> chan p = AWAITING_UART_READ
      then (set_state Ready p)\<lparr>block_reason := None, chan := 0\<rparr> else p) (PROCESS_TABLE s ! i)" if "i < 50" for i
    using assms(1) that by (simp add: wakeup_def sched_inv_def)
  have nr: "\<not> in_state Running (PROCESS_TABLE ?w ! i)" if "i < 50" for i
    using assms(2) that unfolding idle_def slot [OF that] by (auto simp: in_state_iff set_state_def split: if_splits)
  have rj: "in_state Ready (PROCESS_TABLE ?w ! j)" unfolding slot [OF assms(3)] using assms(4-6) by (simp add: in_state_iff set_state_def)
  have c: "CURRENT_PROCESS ?w < 50" using inv by (simp add: sched_inv_def)
  from circle [OF c assms(3)] obtain d where d: "1 \<le> d" "d \<le> 50" "(CURRENT_PROCESS ?w + d) mod 50 = j" by blast
  from nearest_ready [OF inv assms(3) rj d] obtain i where
    i: "1 \<le> i" "i \<le> d" "ready_from ?w i" "\<And>k. 1 \<le> k \<Longrightarrow> k < i \<Longrightarrow> \<not> ready_from ?w k" by blast
  let ?k = "(CURRENT_PROCESS ?w + i) mod 50"
  have k: "?k < 50" by simp
  have "i \<le> 50" using i(2) d(2) by simp
  from schedule_next_ready [OF inv nr [OF c] i(1) this i(3,4), of ectx] obtain p where
    p: "PROCESS_TABLE ?w ! ?k = Some p" "state p = Ready" "schedule_next ectx ?w = Inr (update_from_pctx (pctx p) ectx, dispatched ?k p ?w)" by blast
  from p(1) obtain p0 where p0: "PROCESS_TABLE s ! ?k = Some p0"
    "p = (if state p0 = Blocked \<and> chan p0 = AWAITING_UART_READ then (set_state Ready p0)\<lparr>block_reason := None, chan := 0\<rparr> else p0)"
    unfolding slot [OF k] by auto
  have "state p0 \<noteq> Ready" using assms(2) p0(1) k unfolding idle_def in_state_iff by blast
  then have "state p0 = Blocked" "chan p0 = AWAITING_UART_READ" "pctx p = pctx p0" using p(2) p0(2) by (auto simp: set_state_def split: if_splits)
  then show ?thesis using schedule_next_waits [OF assms, of ectx] p(3) p0(1) k
    by (intro exI [of _ ?k] exI [of _ p0] exI [of _ "dispatched ?k p ?w"]) (simp add: dispatched_def)
qed

theorem schedule_idle_until_input_witness:
  "\<exists>i s'. schedule_next demo_ectx (lone Blocked AWAITING_UART_READ [0, 0x20, 0x21, 7]) = Inr (update_from_pctx (pctx (lone_process Blocked AWAITING_UART_READ)) demo_ectx, s')
     \<and> LSR s' = [7]"
proof -
  let ?s = "lone Blocked AWAITING_UART_READ [0, 0x20, 0x21, 7]"
  have i: "idle ?s" using lone_slots by (simp add: idle_def in_state_iff lone_process_def)
  have l: "LSR ?s = [0, 0x20] @ 0x21 # [7]" by (simp add: lone_inv)
  have p: "PROCESS_TABLE ?s ! 0 = Some (lone_process Blocked AWAITING_UART_READ)" by (simp add: lone_slots)
  have q: "state (lone_process Blocked AWAITING_UART_READ) = Blocked" "chan (lone_process Blocked AWAITING_UART_READ) = AWAITING_UART_READ"
    by (simp_all add: lone_process_def)
  from schedule_idle_until_input [OF lone_inv(1) i _ p q l, of demo_ectx] show ?thesis
    by (auto simp: lone_slots split: if_splits)
qed

text \<open>C35. The system stops, by \<^verbatim>\<open>the_end\<close>, exactly when no process is running, ready or blocked.\<close>

theorem the_end_iff:
  assumes "sched_inv s"
  shows "schedule_next ectx s = Inl The_End \<longleftrightarrow> (\<forall>i < 50. \<forall>p. PROCESS_TABLE s ! i = Some p \<longrightarrow> state p = Terminated)"
  using assms
proof (induction "length (LSR s)" arbitrary: s rule: less_induct)
  case less
  have c: "CURRENT_PROCESS s < 50" using less.prems by (simp add: sched_inv_def)
  from less.prems show ?case
  proof (cases rule: sched_cases)
    case (run p)
    then show ?thesis using schedule_next_running(1) [OF less.prems run, of ectx] c by auto
  next
    case (ready j)
    from circle [OF c ready(2)] obtain d where d: "1 \<le> d" "d \<le> 50" "(CURRENT_PROCESS s + d) mod 50 = j" by blast
    obtain p where p: "PROCESS_TABLE s ! j = Some p" "state p = Ready" using ready(3) by (auto simp: in_state_iff)
    from fair_step [OF less.prems ready(1,2) p d, of ectx] p ready(2) show ?thesis by auto
  next
    case idle
    show ?thesis
    proof (cases "\<exists>i < 50. in_state Blocked (PROCESS_TABLE s ! i)")
      case False
      have "state p = Terminated" if "i < 50" "PROCESS_TABLE s ! i = Some p" for i p
        using False idle that by (cases "state p") (auto simp: idle_def in_state_iff)
      then show ?thesis unfolding schedule_next_idle [OF less.prems idle] if_not_P [OF False] by blast
    next
      case True
      then have e: "schedule_next ectx s = kbind (awake_common_chans s) (schedule_next ectx)" by (simp add: schedule_next_idle [OF less.prems idle])
      obtain i p where p: "i < 50" "PROCESS_TABLE s ! i = Some p" "state p = Blocked" using True by (auto simp: in_state_iff)
      show ?thesis
      proof (cases "awake_common_chans s")
        case (Inl h)
        then have "h = Spin" by (auto simp: awake_common_chans_def read_LSR_def split: list.splits)
        then show ?thesis using e Inl p by auto
      next
        case (Inr s1)
        have "\<exists>q. PROCESS_TABLE s1 ! i = Some q \<and> state q \<noteq> Terminated"
          using Inr p less.prems by (auto simp: awake_common_chans_def read_LSR_def wakeup_def set_state_def sched_inv_def split: list.splits if_splits)
        then show ?thesis using less.hyps [OF awake_consumes [OF Inr] awake_inv [OF less.prems Inr]] e Inr p by auto
      qed
    qed
  qed
qed

theorem the_end_iff_witness:
  "schedule_next demo_ectx (lone Terminated 0 []) = Inl The_End"
  using the_end_iff [OF lone_inv(1) [of Terminated 0 "[]"], of demo_ectx] lone_slots by (auto simp: lone_process_def split: if_splits)

text \<open>C14. Over every run of the scheduler at most one process is running, and it is the current one.\<close>

theorem at_most_one_running:
  assumes "sched_step\<^sup>*\<^sup>* s s'" "sched_inv s" "i < 50" "PROCESS_TABLE s' ! i = Some p" "state p = Running"
  shows "i = CURRENT_PROCESS s'"
proof -
  have "sched_inv s'" using assms(1,2) by (induction rule: rtranclp_induct) (auto intro: sched_step_inv)
  then show ?thesis using assms(3-5) by (auto simp: sched_inv_def in_state_iff)
qed

theorem at_most_one_running_witness:
  "sched_step\<^sup>*\<^sup>* (lone Running 0 []) (wakeup 5 (lone Running 0 [])) \<and> CURRENT_PROCESS (wakeup 5 (lone Running 0 [])) = 0"
proof -
  have st: "sched_step\<^sup>*\<^sup>* (lone Running 0 []) (wakeup 5 (lone Running 0 []))" by (intro r_into_rtranclp sched_step.wake)
  have "PROCESS_TABLE (wakeup 5 (lone Running 0 [])) ! 0 = Some (lone_process Running 0)" by (simp add: wakeup_def lone_def lone_process_def)
  from at_most_one_running [OF st lone_inv(1) _ this] st show ?thesis by (simp add: lone_process_def)
qed

end
