(* ===== verification/KernelIo.thy ===== *)
theory KernelIo
  imports Scheduler
begin

text \<open>
  Mutexes (\<^verbatim>\<open>mutex.rs\<close>), the mini-UART (\<^verbatim>\<open>peripherals.rs\<close>) and console I/O (\<^verbatim>\<open>io.rs\<close>). The kernel has one mutex, that of \<^verbatim>\<open>KERNEL_IO\<close>.

  A process that sleeps in the kernel executes \<^verbatim>\<open>svc #0\<close> and continues when the scheduler resumes it. What the exception handler and the
  other processes do in between is supplied as a list \<open>ws\<close> of state transformers, one per sleep; when the list is empty the process sleeps for good
  (\<open>Spin\<close>). Loops that poll the hardware consume the readings of \<open>LSR\<close> and \<open>UART_RX\<close>.
\<close>

type_synonym wakeups = "(kstate \<Rightarrow> kstate) list"

definition svc0 :: "wakeups \<Rightarrow> kstate \<Rightarrow> halt + (wakeups \<times> kstate)" where
  "svc0 ws s = (case ws of [] \<Rightarrow> Inl Spin | w # ws' \<Rightarrow> Inr (ws', w s))"

section \<open>The mutex\<close>

definition set_mutex :: "(Mutex \<Rightarrow> Mutex) \<Rightarrow> kstate \<Rightarrow> kstate" where
  "set_mutex f s = s\<lparr>KERNEL_IO := (KERNEL_IO s)\<lparr>io_lock := f (io_lock (KERNEL_IO s))\<rparr>\<rparr>"

abbreviation mutex :: "kstate \<Rightarrow> Mutex" where "mutex s \<equiv> io_lock (KERNEL_IO s)"

definition guard_acquire :: "kstate \<Rightarrow> halt + kstate" where
  "guard_acquire s = kbind (spin_acquire (cpu s, guard (mutex s))) (\<lambda>(c, l). Inr (set_mutex (\<lambda>m. m\<lparr>guard := l\<rparr>) (s\<lparr>cpu := c\<rparr>)))"

definition guard_release :: "kstate \<Rightarrow> halt + kstate" where
  "guard_release s = kbind (spin_release (cpu s, guard (mutex s))) (\<lambda>(c, l). Inr (set_mutex (\<lambda>m. m\<lparr>guard := l\<rparr>) (s\<lparr>cpu := c\<rparr>)))"

primrec mutex_wait :: "wakeups \<Rightarrow> kstate \<Rightarrow> halt + (wakeups \<times> kstate)" where
  "mutex_wait [] s = (if mlock (mutex s) then kbind (sleep_for_mutex (KERNEL_IO_ADDR s) s) (\<lambda>s. Inl Spin) else Inr ([], s))"
| "mutex_wait (w # ws) s =
     (if mlock (mutex s) then
        kbind (sleep_for_mutex (KERNEL_IO_ADDR s) s) (\<lambda>s.
        kbind (guard_acquire (w s)) (mutex_wait ws))
      else Inr (w # ws, s))"

definition mutex_acquire :: "wakeups \<Rightarrow> kstate \<Rightarrow> halt + (wakeups \<times> kstate)" where
  "mutex_acquire ws s =
     kbind (guard_acquire s) (\<lambda>s.
     kbind (mutex_wait ws s) (\<lambda>(ws, s).
     let s = set_mutex (\<lambda>m. m\<lparr>mlock := True\<rparr>) s;
         s = (case get_current s of Some proc \<Rightarrow> set_mutex (\<lambda>m. m\<lparr>holder := Some (pid proc)\<rparr>) s | None \<Rightarrow> s) in
     kbind (guard_release s) (\<lambda>s. Inr (ws, s))))"

definition mutex_release :: "kstate \<Rightarrow> halt + kstate" where
  "mutex_release s =
     kbind (guard_acquire s) (\<lambda>s.
     if \<not> mlock (mutex s) then Inl (Panic ''Mutex release error: '') else
     if (case get_current s of Some proc \<Rightarrow> holder (mutex s) \<noteq> Some (pid proc) | None \<Rightarrow> False)
     then Inl (Panic ''Mutex release error: '')
     else
       let s = set_mutex (\<lambda>m. m\<lparr>mlock := False, holder := None\<rparr>) s;
           s = wakeup (KERNEL_IO_ADDR s) s in
       guard_release s)"

definition is_locked :: "kstate \<Rightarrow> halt + (bool \<times> kstate)" where
  "is_locked s = kbind (guard_acquire s) (\<lambda>s. let l = mlock (mutex s) in kbind (guard_release s) (\<lambda>s. Inr (l, s)))"

section \<open>The UART\<close>

definition set_uart :: "(Uart \<Rightarrow> Uart) \<Rightarrow> kstate \<Rightarrow> kstate" where
  "set_uart f s = s\<lparr>KERNEL_IO := (KERNEL_IO s)\<lparr>device := f (device (KERNEL_IO s))\<rparr>\<rparr>"

abbreviation uart :: "kstate \<Rightarrow> Uart" where "uart s \<equiv> device (KERNEL_IO s)"

definition at_w_lock :: "(Cpu \<times> Spinlock \<Rightarrow> halt + (Cpu \<times> Spinlock)) \<Rightarrow> kstate \<Rightarrow> halt + kstate" where
  "at_w_lock f s = kbind (f (cpu s, w_lock (uart s))) (\<lambda>(c, l). Inr (set_uart (\<lambda>u. u\<lparr>w_lock := l\<rparr>) (s\<lparr>cpu := c\<rparr>)))"

definition at_r_lock :: "(Cpu \<times> Spinlock \<Rightarrow> halt + (Cpu \<times> Spinlock)) \<Rightarrow> kstate \<Rightarrow> halt + kstate" where
  "at_r_lock f s = kbind (f (cpu s, r_lock (uart s))) (\<lambda>(c, l). Inr (set_uart (\<lambda>u. u\<lparr>r_lock := l\<rparr>) (s\<lparr>cpu := c\<rparr>)))"

definition write_byte :: "u8 \<Rightarrow> kstate \<Rightarrow> halt + kstate" where
  "write_byte c s =
     kbind (at_w_lock spin_acquire s) (\<lambda>s.
     case dropWhile (\<lambda>v. v AND 0x20 = 0) (LSR s) of
       [] \<Rightarrow> Inl Spin
     | v # rest \<Rightarrow>
         (let s = s\<lparr>LSR := rest, UART_TX := UART_TX s @ [ucast c]\<rparr> in
          at_w_lock spin_release s))"

definition poll_byte :: "kstate \<Rightarrow> halt + (u8 option \<times> kstate)" where
  "poll_byte s =
     kbind (at_r_lock spin_acquire s) (\<lambda>s.
     kbind (read_LSR s) (\<lambda>(v, s).
     if v AND 1 = 0 then kbind (at_r_lock spin_release s) (\<lambda>s. Inr (None, s))
     else
       case UART_RX s of
         [] \<Rightarrow> Inl Spin
       | d # rest \<Rightarrow>
           (let byte = ucast (d AND 0xFF); s = s\<lparr>UART_RX := rest\<rparr> in
            kbind (at_r_lock spin_release s) (\<lambda>s. Inr (Some byte, s)))))"

definition raw_write :: "u8 list \<Rightarrow> kstate \<Rightarrow> kstate" where
  "raw_write bs s = s\<lparr>UART_TX := UART_TX s @ map ucast bs\<rparr>"

definition raw_write_str :: "u8 list \<Rightarrow> kstate \<Rightarrow> kstate" where
  "raw_write_str bs s = s\<lparr>UART_TX := UART_TX s @ map ucast bs\<rparr>"

section \<open>Console input and output\<close>

lemma svc0_consumes: "svc0 ws s = Inr (ws', s') \<Longrightarrow> length ws' < length ws"
  by (auto simp: svc0_def split: list.splits)

lemma mutex_wait_ws:
  "mutex_wait ws s = Inr (ws', s') \<Longrightarrow> length ws' < length ws \<or> ws' = ws \<and> s' = s"
proof (induction ws arbitrary: s)
  case Nil
  then show ?case by (auto split: if_splits)
next
  case (Cons w ws)
  then show ?case by (force split: if_splits)
qed

lemma set_mutex_sel [simp]:
  "LSR (set_mutex f s) = LSR s" "UART_RX (set_mutex f s) = UART_RX s" "UART_TX (set_mutex f s) = UART_TX s"
  "LSR (set_uart g s) = LSR s" "UART_RX (set_uart g s) = UART_RX s" "UART_TX (set_uart g s) = UART_TX s"
  by (simp_all add: set_mutex_def set_uart_def)

lemma lock_LSR:
  "guard_acquire s = Inr s' \<Longrightarrow> LSR s' = LSR s" "guard_release s = Inr s' \<Longrightarrow> LSR s' = LSR s"
  "at_r_lock f s = Inr s' \<Longrightarrow> LSR s' = LSR s" "at_w_lock f s = Inr s' \<Longrightarrow> LSR s' = LSR s"
  by (auto simp: guard_acquire_def guard_release_def at_r_lock_def at_w_lock_def)

lemma mutex_acquire_ws:
  assumes "mutex_acquire ws s = Inr (ws', s')"
  shows "length ws' < length ws \<or> ws' = ws \<and> LSR s' = LSR s"
proof -
  obtain s1 s2 where s: "guard_acquire s = Inr s1" "mutex_wait ws s1 = Inr (ws', s2)"
    using assms by (auto simp: mutex_acquire_def Let_def)
  then have "LSR s' = LSR s2" using assms
    by (auto simp: mutex_acquire_def Let_def dest!: lock_LSR(2) split: option.splits)
  then show ?thesis using mutex_wait_ws [OF s(2)] lock_LSR(1) [OF s(1)] by auto
qed

lemma read_LSR_consumes: "read_LSR s = Inr (v, s') \<Longrightarrow> LSR s = v # LSR s'"
  by (auto simp: read_LSR_def split: list.splits)

lemma poll_byte_LSR:
  assumes "poll_byte s = Inr (c, s')"
  shows "length (LSR s') < length (LSR s)"
proof -
  obtain s1 v s2 where s: "at_r_lock spin_acquire s = Inr s1" "read_LSR s1 = Inr (v, s2)"
    using assms by (auto simp: poll_byte_def)
  have "\<exists>f. at_r_lock spin_release (s2\<lparr>UART_RX := f\<rparr>) = Inr s'"
  proof (cases "v AND 1 = 0")
    case True
    then have "at_r_lock spin_release (s2\<lparr>UART_RX := UART_RX s2\<rparr>) = Inr s'" using assms s by (simp add: poll_byte_def)
    then show ?thesis by blast
  next
    case False
    then show ?thesis using assms s by (cases "UART_RX s2") (auto simp: poll_byte_def Let_def)
  qed
  then have "LSR s' = LSR s2" by (auto dest!: lock_LSR(3))
  moreover have "length (LSR s) = Suc (length (LSR s2))" using arg_cong [OF read_LSR_consumes [OF s(2)], of length] lock_LSR(3) [OF s(1)] by simp
  ultimately show ?thesis by simp
qed

lemma mutex_release_LSR: "mutex_release s = Inr s' \<Longrightarrow> LSR s' = LSR s"
  by (auto simp: mutex_release_def Let_def wakeup_def dest!: lock_LSR(1,2) split: if_splits option.splits)

lemma write_byte_LSR:
  assumes "write_byte c s = Inr s'"
  shows "length (LSR s') < length (LSR s)"
proof -
  obtain s1 where s1: "at_w_lock spin_acquire s = Inr s1" using assms by (auto simp: write_byte_def)
  obtain v rest where d: "dropWhile (\<lambda>v. v AND 0x20 = 0) (LSR s1) = v # rest"
    using assms s1 by (cases "dropWhile (\<lambda>v. v AND 0x20 = 0) (LSR s1)") (auto simp: write_byte_def)
  have "LSR s' = rest" using assms s1 d by (auto simp: write_byte_def Let_def dest!: lock_LSR(4))
  moreover have "length (v # rest) \<le> length (LSR s1)" unfolding d [symmetric] by (rule length_dropWhile_le)
  ultimately show ?thesis using lock_LSR(4) [OF s1] by simp
qed

definition less_io :: "wakeups \<times> kstate \<Rightarrow> wakeups \<times> kstate \<Rightarrow> bool" where
  "less_io a b \<longleftrightarrow> length (fst a) < length (fst b) \<or> length (fst a) = length (fst b) \<and> length (LSR (snd a)) < length (LSR (snd b))"

function getch_poll :: "wakeups \<Rightarrow> kstate \<Rightarrow> halt + (u8 \<times> wakeups \<times> kstate)" where
  "getch_poll ws s =
     kbind (poll_byte s) (\<lambda>(c, s). case c of
       None \<Rightarrow>
         kbind (mutex_release s) (\<lambda>s.
         kbind (sleep AWAITING_UART_READ AwaitingIO s) (\<lambda>s.
         kbind (svc0 ws s) (\<lambda>(ws, s).
         kbind (mutex_acquire ws s) (\<lambda>(ws, s). getch_poll ws s))))
     | Some c \<Rightarrow> Inr (c, ws, s))"
  by pat_completeness auto

termination
  by (relation "measure (\<lambda>(ws, s). length ws)") (auto dest!: svc0_consumes mutex_acquire_ws)

declare getch_poll.simps [simp del]

lemma getch_poll_less: "getch_poll ws s = Inr (c, ws', s') \<Longrightarrow> less_io (ws', s') (ws, s)"
proof (induction ws s rule: getch_poll.induct)
  case (1 ws s)
  obtain b s1 where p: "poll_byte s = Inr (b, s1)" using 1(2) by (subst (asm) getch_poll.simps) auto
  show ?case
  proof (cases b)
    case (Some x)
    then show ?thesis using 1(2) p poll_byte_LSR [OF p] by (subst (asm) getch_poll.simps) (auto simp: less_io_def)
  next
    case None
    obtain s2 s3 ws4 s4 ws5 s5 where q: "mutex_release s1 = Inr s2" "sleep AWAITING_UART_READ AwaitingIO s2 = Inr s3"
      "svc0 ws s3 = Inr (ws4, s4)" "mutex_acquire ws4 s4 = Inr (ws5, s5)" "getch_poll ws5 s5 = Inr (c, ws', s')"
      using 1(2) p None by (subst (asm) getch_poll.simps) auto
    have "less_io (ws', s') (ws5, s5)" using 1(1) [OF p refl None q(1,2,3) refl q(4) refl q(5)] .
    then show ?thesis using svc0_consumes [OF q(3)] mutex_acquire_ws [OF q(4)] by (auto simp: less_io_def)
  qed
qed

function getch :: "wakeups \<Rightarrow> kstate \<Rightarrow> halt + (u8 \<times> wakeups \<times> kstate)" where
  "getch ws s =
     kbind (mutex_acquire ws s) (\<lambda>(ws, s).
     kbind (getch_poll ws s) (\<lambda>(c, ws, s).
     if c = 8 \<or> c = 127 then kbind (mutex_release s) (\<lambda>s. Inr (c, ws, s))
     else if c = 13 then kbind (write_byte 10 s) (\<lambda>s. kbind (mutex_release s) (\<lambda>s. Inr (10, ws, s)))
     else if c = 10 then kbind (mutex_release s) (\<lambda>s. getch ws s)
     else kbind (write_byte c s) (\<lambda>s. kbind (mutex_release s) (\<lambda>s. Inr (c, ws, s)))))"
  by pat_completeness auto

termination
  by (relation "{(a, b). less_io a b}")
    (auto simp: less_io_def dest!: mutex_acquire_ws getch_poll_less mutex_release_LSR
      intro!: wf_subset [OF wf_measures [of "[\<lambda>(ws, s). length ws, \<lambda>(ws, s). length (LSR s)]"]])

declare getch.simps [simp del]

lemma getch_less: "getch ws s = Inr (c, ws', s') \<Longrightarrow> less_io (ws', s') (ws, s)"
proof (induction ws s rule: getch.induct)
  case (1 ws s)
  obtain ws1 s1 k ws2 s2 where p: "mutex_acquire ws s = Inr (ws1, s1)" "getch_poll ws1 s1 = Inr (k, ws2, s2)"
    using 1(2) by (subst (asm) getch.simps) auto
  have l: "less_io (ws2, s2) (ws, s)" using mutex_acquire_ws [OF p(1)] getch_poll_less [OF p(2)] by (auto simp: less_io_def)
  show ?case
  proof (cases "k = 10")
    case True
    then obtain s3 where q: "mutex_release s2 = Inr s3" "getch ws2 s3 = Inr (c, ws', s')"
      using 1(2) p by (subst (asm) getch.simps) auto
    have "less_io (ws', s') (ws2, s3)" using p q True by (intro 1(1)) auto
    then show ?thesis using l mutex_release_LSR [OF q(1)] by (auto simp: less_io_def)
  next
    case False
    have "ws' = ws2 \<and> length (LSR s') \<le> length (LSR s2)"
      using 1(2) p False by (subst (asm) getch.simps) (auto dest!: mutex_release_LSR write_byte_LSR split: if_splits)
    then show ?thesis using l by (auto simp: less_io_def)
  qed
qed

lemma kstore_LSR: "kstore a b s = Inr s' \<Longrightarrow> LSR s' = LSR s"
  by (auto simp: kstore_def split: option.splits)

function read_loop :: "u64 \<Rightarrow> nat \<Rightarrow> nat \<Rightarrow> wakeups \<Rightarrow> kstate \<Rightarrow> halt + (nat \<times> wakeups \<times> kstate)" where
  "read_loop buf len r ws s =
     (if r < len then
        kbind (getch ws s) (\<lambda>(c, ws, s).
        if c = 8 \<or> c = 127 then
          (if 0 < r then
             kbind (mutex_acquire ws s) (\<lambda>(ws, s).
             kbind (write_byte 8 s) (\<lambda>s.
             kbind (write_byte 32 s) (\<lambda>s.
             kbind (write_byte 8 s) (\<lambda>s.
             kbind (mutex_release s) (\<lambda>s. read_loop buf len (r - 1) ws s)))))
           else read_loop buf len r ws s)
        else
          kbind (kstore (buf + of_nat r) c s) (\<lambda>s.
          if c = 10 then Inr (r + 1, ws, s) else read_loop buf len (r + 1) ws s))
      else Inr (r, ws, s))"
  by pat_completeness auto

termination
  by (relation "{(a, b). less_io (snd (snd (snd a))) (snd (snd (snd b)))}")
    (auto simp: less_io_def dest!: getch_less kstore_LSR mutex_acquire_ws write_byte_LSR mutex_release_LSR
      intro!: wf_subset [OF wf_measures [of "[\<lambda>(buf, len, r, ws, s). length ws, \<lambda>(buf, len, r, ws, s). length (LSR s)]"]])

declare read_loop.simps [simp del]

definition kio_read :: "u64 \<Rightarrow> nat \<Rightarrow> wakeups \<Rightarrow> kstate \<Rightarrow> halt + (nat \<times> wakeups \<times> kstate)" where
  "kio_read buf len ws s = read_loop buf len 0 ws s"

definition poll_char :: "wakeups \<Rightarrow> kstate \<Rightarrow> halt + (u8 option \<times> wakeups \<times> kstate)" where
  "poll_char ws s =
     kbind (poll_byte s) (\<lambda>(b, s). case b of
       None \<Rightarrow> Inr (None, ws, s)
     | Some c \<Rightarrow>
         if c = 8 \<or> c = 127 then Inr (Some c, ws, s)
         else if c = 13 then
           kbind (mutex_acquire ws s) (\<lambda>(ws, s). kbind (write_byte 10 s) (\<lambda>s. kbind (mutex_release s) (\<lambda>s. Inr (Some 10, ws, s))))
         else if c = 10 then Inr (None, ws, s)
         else
           kbind (mutex_acquire ws s) (\<lambda>(ws, s). kbind (write_byte c s) (\<lambda>s. kbind (mutex_release s) (\<lambda>s. Inr (Some c, ws, s)))))"

definition write_crlf :: "u8 \<Rightarrow> kstate \<Rightarrow> halt + kstate" where
  "write_crlf b s = kbind (if b = 10 then write_byte 13 s else Inr s) (write_byte b)"

definition kio_write :: "u8 list \<Rightarrow> wakeups \<Rightarrow> kstate \<Rightarrow> halt + (wakeups \<times> kstate)" where
  "kio_write buf ws s =
     kbind (mutex_acquire ws s) (\<lambda>(ws, s).
     kbind (for_halt write_crlf buf s) (\<lambda>s.
     kbind (mutex_release s) (\<lambda>s. Inr (ws, s))))"

definition kio_print :: "u8 list \<Rightarrow> wakeups \<Rightarrow> kstate \<Rightarrow> halt + (wakeups \<times> kstate)" where
  "kio_print args ws s =
     kbind (mutex_acquire ws s) (\<lambda>(ws, s).
     kbind (for_halt write_crlf args s) (\<lambda>s.
     kbind (mutex_release s) (\<lambda>s. Inr (ws, s))))"

end
