(* ===== verification/LoadElf.thy ===== *)
theory LoadElf
  imports PageRange
begin

text \<open>
  The ELF structures of \<^verbatim>\<open>elf.rs\<close> and the loader \<^verbatim>\<open>load_elf\<close> with \<^verbatim>\<open>copy_to_pages\<close> from \<^verbatim>\<open>paging.rs\<close>. A file is a list of bytes;
  the fields of the two \<^verbatim>\<open>repr(C)\<close> structures are read at their offsets, little endian. The loop that maps the pages of a segment
  has fuel \<open>2 ^ 52\<close>, the number of pages of a 64-bit space: a longer run would meet a page it has mapped before, and
  \<^verbatim>\<open>alloc_page\<close> panics there. Address arithmetic wraps as in the release build. The bounds test on program headers can
  wrap too; the read outside the file that it then lets through is an abort here.
\<close>

definition ELF_MAGIC :: u32 where "ELF_MAGIC = 0x464C457F"

definition PT_LOAD :: u32 where "PT_LOAD = 1"

record Elf64Hdr =
  magic :: u32
  elf :: "u8 list"
  e_type :: u16
  machine :: u16
  version :: u32
  e_entry :: u64
  phoff :: u64
  shoff :: u64
  e_flags :: u32
  ehsize :: u16
  phentsize :: u16
  phnum :: u16
  shentsize :: u16
  shnum :: u16
  shstrndx :: u16

record Elf64ProgHdr =
  p_type :: u32
  p_flags :: u32
  p_offset :: u64
  virtaddr :: u64
  phyaddr :: u64
  filesize :: u64
  memsize :: u64
  align :: u64

definition field :: "nat \<Rightarrow> nat \<Rightarrow> u8 list \<Rightarrow> 'a::len word" where
  "field off n bytes = from_le (take n (drop off bytes))"

definition read_hdr :: "u8 list \<Rightarrow> Elf64Hdr" where
  "read_hdr b = \<lparr>magic = field 0 4 b, elf = take 12 (drop 4 b), e_type = field 16 2 b, machine = field 18 2 b,
     version = field 20 4 b, e_entry = field 24 8 b, phoff = field 32 8 b, shoff = field 40 8 b, e_flags = field 48 4 b,
     ehsize = field 52 2 b, phentsize = field 54 2 b, phnum = field 56 2 b, shentsize = field 58 2 b, shnum = field 60 2 b,
     shstrndx = field 62 2 b\<rparr>"

definition read_phdr :: "u8 list \<Rightarrow> Elf64ProgHdr" where
  "read_phdr b = \<lparr>p_type = field 0 4 b, p_flags = field 4 4 b, p_offset = field 8 8 b, virtaddr = field 16 8 b,
     phyaddr = field 24 8 b, filesize = field 32 8 b, memsize = field 40 8 b, align = field 48 8 b\<rparr>"

definition verify :: "Elf64Hdr \<Rightarrow> bool" where
  "verify h \<longleftrightarrow> magic h = ELF_MAGIC"

definition mkfrombytes :: "u8 list \<Rightarrow> Elf64Hdr option" where
  "mkfrombytes bytes =
     (if length bytes < 64 then None
      else let header = read_hdr bytes in if verify header then Some header else None)"

section \<open>Copying into mapped pages\<close>

definition put_bytes :: "ram \<Rightarrow> u64 \<Rightarrow> u8 list \<Rightarrow> ram" where
  "put_bytes m a bs = (\<lambda>x. if unat (x - a) < length bs then bs ! unat (x - a) else m x)"

lemma page_rest:
  "unat (PAGE_SIZE - (va AND (PAGE_SIZE - 1))) = 4096 - unat va mod 4096" "0 < unat (PAGE_SIZE - (va AND (PAGE_SIZE - 1)))"
proof -
  have "unat (va AND 0xFFF) = unat va mod 4096" by (rule unat_and_fff)
  moreover have "unat va mod 4096 < 4096" by simp
  ultimately show a: "unat (PAGE_SIZE - (va AND (PAGE_SIZE - 1))) = 4096 - unat va mod 4096"
    by (simp add: PAGE_SIZE_def unat_sub word_le_nat_alt)
  show "0 < unat (PAGE_SIZE - (va AND (PAGE_SIZE - 1)))" unfolding a by simp
qed

function copy_loop :: "u8 list \<Rightarrow> nat \<Rightarrow> u64 \<Rightarrow> u64 option \<Rightarrow> pgstate \<Rightarrow> (string + unit) \<times> pgstate" where
  "copy_loop src src_offset current_va ttbr0_val s =
     (if src_offset < length src then
        (case ttbr0_to_ttbr1 current_va ttbr0_val s of
           None \<Rightarrow> (Inl ''Destination page not mapped'', s)
         | Some dst \<Rightarrow>
             (let bytes_this_page = min (unat (PAGE_SIZE - (current_va AND (PAGE_SIZE - 1)))) (length src - src_offset)
              in copy_loop src (src_offset + bytes_this_page) (current_va + of_nat bytes_this_page) ttbr0_val
                   (s\<lparr>ram := put_bytes (ram s) dst (take bytes_this_page (drop src_offset src))\<rparr>)))
      else (Inr (), s))"
  by pat_completeness auto

termination
proof (relation "measure (\<lambda>(src, off, va, t, s). length src - off)", goal_cases)
  case 1
  show ?case by simp
next
  case (2 src src_offset current_va ttbr0_val s dst n)
  have "0 < n" unfolding 2(3) using 2(1) page_rest(2) [of current_va] by simp
  with 2(1) show ?case by simp
qed

definition copy_to_pages :: "u8 list \<Rightarrow> u64 \<Rightarrow> u64 option \<Rightarrow> pgstate \<Rightarrow> (string + unit) \<times> pgstate" where
  "copy_to_pages src dst_va ttbr0_val s = copy_loop src 0 dst_va ttbr0_val s"

section \<open>Loading a segment\<close>

primrec map_segment :: "nat \<Rightarrow> u64 \<Rightarrow> u64 \<Rightarrow> u64 \<Rightarrow> pgstate \<Rightarrow> halt + pgstate" where
  "map_segment 0 current_page_va va_end t s = Inl Spin"
| "map_segment (Suc fuel) current_page_va va_end t s =
     (if current_page_va < va_end
      then kbind (alloc_page current_page_va (Some t) s)
             (\<lambda>(_, s). map_segment fuel (current_page_va + 4096) va_end t s)
      else Inr s)"

lemma zero_step:
  assumes "(zero_va :: u64) < va_end"
  defines "n \<equiv> min (4096 - (zero_va AND 0xFFF)) (va_end - zero_va)"
  shows "unat (zero_va + n) = unat zero_va + unat n" "unat zero_va + unat n \<le> unat va_end" "0 < unat n"
proof -
  have d: "unat (va_end - zero_va) = unat va_end - unat zero_va" using assms(1) by (simp add: unat_sub)
  have "unat n \<le> unat (va_end - zero_va)" by (simp add: n_def flip: word_le_nat_alt)
  then have l: "unat zero_va + unat n \<le> unat va_end" using d assms(1) by (simp add: word_less_nat_alt)
  then show "unat zero_va + unat n \<le> unat va_end" "unat (zero_va + n) = unat zero_va + unat n"
    using unat_bound [of va_end] by (simp_all add: unat_word_ariths)
  have "unat (4096 - (zero_va AND 0xFFF)) > 0" using page_rest(2) [of zero_va] by (simp add: PAGE_SIZE_def)
  moreover have "unat (va_end - zero_va) > 0" using d assms(1) by (simp add: word_less_nat_alt)
  ultimately show "0 < unat n" by (simp add: n_def min_def)
qed

function zero_bss :: "u64 \<Rightarrow> u64 \<Rightarrow> u64 \<Rightarrow> pgstate \<Rightarrow> halt + pgstate" where
  "zero_bss zero_va va_end t s =
     (if zero_va < va_end then
        (case ttbr0_to_ttbr1 zero_va (Some t) s of
           None \<Rightarrow> Inl (Panic ''load_elf: missing page while zeroing BSS'')
         | Some frame_va \<Rightarrow>
             (let offset_in_page = zero_va AND 0xFFF;
                  bytes_to_zero = min (4096 - offset_in_page) (va_end - zero_va)
              in zero_bss (zero_va + bytes_to_zero) va_end t
                   (s\<lparr>ram := write_bytes (ram s) (frame_va + offset_in_page) 0 bytes_to_zero\<rparr>)))
      else Inr s)"
  by pat_completeness auto

termination
proof (relation "measure (\<lambda>(va, va_end, t, s). unat va_end - unat va)", goal_cases)
  case 1
  show ?case by simp
next
  case (2 zero_va va_end t s frame_va off n)
  show ?case using zero_step [OF 2(1)] 2(1) unfolding 2(3,4) by (simp add: word_less_nat_alt)
qed

definition slice :: "u8 list \<Rightarrow> u64 \<Rightarrow> u64 \<Rightarrow> halt + u8 list" where
  "slice bytes a b =
     (if b < a then Inl (Panic ''slice index starts at'')
      else if length bytes < unat b then Inl (Panic ''range end index out of range for slice'')
      else Inr (take (unat b - unat a) (drop (unat a) bytes)))"

definition load_segment :: "u8 list \<Rightarrow> Elf64ProgHdr \<Rightarrow> u64 \<Rightarrow> pgstate \<Rightarrow> halt + pgstate" where
  "load_segment bytes ph t s =
     (let va_start = virtaddr ph; va_end = va_start + memsize ph; file_end = va_start + filesize ph in
      kbind (map_segment (2 ^ 52) (va_start AND NOT 0xFFF) va_end t s) (\<lambda>s.
      kbind (if 0 < filesize ph
             then kbind (slice bytes (p_offset ph) (p_offset ph + filesize ph)) (\<lambda>src.
                  case copy_to_pages src va_start (Some t) s of
                    (Inl e, s) \<Rightarrow> Inl (Panic ''load_elf: copy_to_pages failed'')
                  | (Inr _, s) \<Rightarrow> Inr s)
             else Inr s) (\<lambda>s.
      if file_end < va_end then zero_bss file_end va_end t s else Inr s)))"

primrec load_segments :: "u8 list \<Rightarrow> u64 \<Rightarrow> u64 \<Rightarrow> nat list \<Rightarrow> bool \<Rightarrow> u64 \<Rightarrow> pgstate \<Rightarrow> halt + (bool \<times> u64 \<times> pgstate)" where
  "load_segments bytes start t [] loaded_any max_addr s = Inr (loaded_any, max_addr, s)"
| "load_segments bytes start t (i # is) loaded_any max_addr s =
     (let offset = start + of_nat i * 56 in
      if length bytes < unat (offset + 56) then Inr (loaded_any, max_addr, s)
      else if length bytes < unat offset + 56 then Inl Unhandled_Exception
      else let ph = read_phdr (drop (unat offset) bytes) in
        if p_type ph = PT_LOAD
        then kbind (load_segment bytes ph t s) (\<lambda>s.
             let va_end = virtaddr ph + memsize ph in
             load_segments bytes start t is True (if max_addr < va_end then va_end else max_addr) s)
        else load_segments bytes start t is loaded_any max_addr s)"

definition load_elf :: "u8 list \<Rightarrow> pgstate \<Rightarrow> halt + ((string + u64 \<times> u64 \<times> u64) \<times> pgstate)" where
  "load_elf bytes s =
     (case mkfrombytes bytes of
        None \<Rightarrow> Inr (Inl ''Invalid ELF file header'', s)
      | Some header \<Rightarrow>
          (case get_free_frame_pa s of
             (None, s) \<Rightarrow> Inl (Panic ''No free frames available for new process'')
           | (Some t, s) \<Rightarrow>
               kbind (load_segments bytes (phoff header) t [0..<unat (phnum header)] False 0 s) (\<lambda>(loaded_any, max_addr, s).
               if \<not> loaded_any then Inr (Inl ''No loadable segments found in ELF file'', s)
               else
                 let entry_point = e_entry header;
                     stack_top = (max_addr + 0x16000) AND NOT 0xf in
                 kbind (for_halt (\<lambda>i s. kbind (alloc_page (stack_top - of_nat i * 4096 - 1) (Some t) s) (\<lambda>(_, s). Inr s)) [0..<14] s)
                   (\<lambda>s. Inr (Inr (entry_point, stack_top, t), s)))))"

declare copy_loop.simps [simp del] zero_bss.simps [simp del]

end
