(* ===== verification/UserMem.thy ===== *)
theory UserMem
  imports LoadElf
begin

text \<open>
  An address space as its user sees it: \<open>umem s t x\<close> is the byte at virtual address \<open>x\<close> under the table \<open>t\<close>, if it is mapped.
  Writing bytes into one page, and \<^verbatim>\<open>copy_to_pages\<close> over many, are ordinary writes to this view.
\<close>

definition umem :: "pgstate \<Rightarrow> u64 \<Rightarrow> nat \<Rightarrow> u8 option" where
  "umem s t x = map_option (\<lambda>a. ram s (ttbr1_to_va a)) (ttbr0_to_pa (of_nat x) (Some t) s)"

lemma keeps_put_bytes:
  assumes "is_frame_pa p" "o' + length bs \<le> 4096"
  shows "keeps {p} m (put_bytes m (ttbr1_to_va p + of_nat o') bs)"
    and "k < 4096 \<Longrightarrow> put_bytes m (ttbr1_to_va p + of_nat o') bs (ttbr1_to_va p + of_nat k) =
       (if o' \<le> k \<and> k < o' + length bs then bs ! (k - o') else m (ttbr1_to_va p + of_nat k))"
proof -
  have al: "page_aligned (ttbr1_to_va p)" by (rule frame_va_aligned [OF assms(1)])
  have inside: "\<exists>k < 4096. x = ttbr1_to_va p + of_nat k \<and> o' \<le> k \<and> k < o' + length bs"
    if "unat (x - (ttbr1_to_va p + of_nat o')) < length bs" for x
  proof -
    let ?d = "unat (x - (ttbr1_to_va p + of_nat o'))"
    have "x = ttbr1_to_va p + of_nat (o' + ?d)" by simp
    then show ?thesis using that assms(2) by (intro exI [of _ "o' + ?d"]) auto
  qed
  show "keeps {p} m (put_bytes m (ttbr1_to_va p + of_nat o') bs)"
    unfolding keeps_def same_frame_def
  proof (intro allI impI)
    fix q x assume q: "is_frame_pa q \<and> q \<notin> {p}" and x: "frame_of x = ttbr1_to_va q"
    have "\<not> unat (x - (ttbr1_to_va p + of_nat o')) < length bs"
    proof
      assume "unat (x - (ttbr1_to_va p + of_nat o')) < length bs"
      from inside [OF this] obtain k where "k < 4096" "x = ttbr1_to_va p + of_nat k" by blast
      then have "frame_of x = ttbr1_to_va p" using al by simp
      then show False using x q assms(1) by simp
    qed
    then show "m x = put_bytes m (ttbr1_to_va p + of_nat o') bs x" by (simp add: put_bytes_def)
  qed
  show "put_bytes m (ttbr1_to_va p + of_nat o') bs (ttbr1_to_va p + of_nat k) =
       (if o' \<le> k \<and> k < o' + length bs then bs ! (k - o') else m (ttbr1_to_va p + of_nat k))" if k: "k < 4096"
  proof (cases "o' \<le> k")
    case True
    then have "(ttbr1_to_va p + of_nat k) - (ttbr1_to_va p + of_nat o') = (of_nat (k - o') :: u64)" by simp
    then have "unat ((ttbr1_to_va p + of_nat k) - (ttbr1_to_va p + of_nat o')) = k - o'" using k by (simp add: unat_small)
    then show ?thesis using True by (auto simp: put_bytes_def)
  next
    case False
    have "\<not> unat ((ttbr1_to_va p + of_nat k) - (ttbr1_to_va p + of_nat o')) < length bs"
    proof
      assume "unat ((ttbr1_to_va p + of_nat k) - (ttbr1_to_va p + of_nat o')) < length bs"
      from inside [OF this] obtain j where "j < 4096" "ttbr1_to_va p + of_nat k = ttbr1_to_va p + of_nat j" "o' \<le> j" by blast
      then show False using page_offset_inj [OF al k] False by auto
    qed
    then show ?thesis using False by (simp add: put_bytes_def)
  qed
qed

lemma u64_of_unat: "unat (w :: u64) = n \<Longrightarrow> w = of_nat n"
  by auto

lemma unat_va_nat: "x < 2 ^ 39 \<Longrightarrow> unat (of_nat x :: u64) = x"
  by (rule unat_small) simp

lemma va_page_nat: "x < 2 ^ 39 \<Longrightarrow> unat (va_page (of_nat x)) = x div 4096"
  using unat_va_nat [of x] by (simp add: unat_va_page)

lemma va_page_nat_eq: "x < 2 ^ 39 \<Longrightarrow> y < 2 ^ 39 \<Longrightarrow> va_page (of_nat x) = va_page (of_nat y) \<longleftrightarrow> x div 4096 = y div 4096"
  by (simp add: word_unat_eq_iff va_page_nat)

lemma va_offset_nat: "x < 2 ^ 39 \<Longrightarrow> unat (of_nat x AND 0xFFF :: u64) = x mod 4096"
  using unat_va_nat [of x] by (simp add: unat_and_fff)

lemma umem_node:
  assumes "owned s t ps" "x < 2 ^ 39"
  shows "umem s t x = map_option (\<lambda>p. ram s (ttbr1_to_va p + of_nat (x mod 4096))) (node (ram s) t (path (of_nat x)))"
proof (cases "node (ram s) t (path (of_nat x))")
  case None
  then show ?thesis by (simp add: umem_def ttbr0_to_pa_node translation_table_def)
next
  case (Some p)
  have "is_frame_pa p" using owned_node [OF assms(1) Some] by simp
  from ttbr1_to_va_offset [OF this, of "of_nat x"]
  have "ttbr1_to_va (p + (of_nat x AND 0xFFF)) = ttbr1_to_va p + of_nat (x mod 4096)"
    by (simp only: va_offset_nat [OF assms(2)])
  then show ?thesis using Some by (simp add: umem_def ttbr0_to_pa_node translation_table_def)
qed

lemma same_page_iff:
  assumes "x mod 4096 + n \<le> (4096 :: nat)"
  shows "x \<le> y \<and> y < x + n \<longleftrightarrow> y div 4096 = x div 4096 \<and> x mod 4096 \<le> y mod 4096 \<and> y mod 4096 < x mod 4096 + n"
proof -
  define q r q' r' where d: "q = x div 4096" "r = x mod 4096" "q' = y div 4096" "r' = y mod 4096"
  have x: "x = 4096 * q + r" and y: "y = 4096 * q' + r'" and r: "r' < 4096" "r + n \<le> 4096"
    using assms by (simp_all add: d)
  have "4096 * q + r \<le> 4096 * q' + r' \<and> 4096 * q' + r' < 4096 * q + r + n \<longleftrightarrow> q' = q \<and> r \<le> r' \<and> r' < r + n"
    using r by (cases "q' < q"; cases "q < q'") auto
  then show ?thesis unfolding d [symmetric] by (simp only: x y)
qed

lemma umem_put:
  assumes o: "owned s t ps" and x: "x < 2 ^ 39" and n: "x mod 4096 + length bs \<le> 4096"
    and a: "ttbr0_to_ttbr1 (of_nat x) (Some t) s = Some a"
  defines "s' \<equiv> s\<lparr>ram := put_bytes (ram s) a bs\<rparr>"
  shows "owned s' t ps" "all_frames s' t ps = all_frames s t ps"
    "\<And>va. ttbr0_to_pa va (Some t) s' = ttbr0_to_pa va (Some t) s"
    "\<And>y. y < 2 ^ 39 \<Longrightarrow> umem s' t y = (if x \<le> y \<and> y < x + length bs then Some (bs ! (y - x)) else umem s t y)"
    "keeps (set_mset (all_frames s t ps)) (ram s) (ram s')"
proof -
  obtain p where p: "node (ram s) t (path (of_nat x)) = Some p" "a = ttbr1_to_va (p + (of_nat x AND 0xFFF))"
    using a by (auto simp: ttbr0_to_ttbr1_def ttbr0_to_pa_node translation_table_def)
  have fp: "is_frame_pa p" "p \<in> set_mset (all_frames s t ps)" using owned_node [OF o p(1)] by (auto simp: all_frames_def)
  have a': "a = ttbr1_to_va p + of_nat (x mod 4096)"
    unfolding p(2) ttbr1_to_va_offset [OF fp(1)] va_offset_nat [OF x] ..
  note k = keeps_put_bytes [OF fp(1) n, where m = "ram s"]
  have s': "s' = s\<lparr>ram := put_bytes (ram s) (ttbr1_to_va p + of_nat (x mod 4096)) bs\<rparr>" by (simp add: s'_def a')
  note w = owned_data_write [OF o p(1) k(1)]
  show o': "owned s' t ps" and "all_frames s' t ps = all_frames s t ps"
    and tr: "\<And>va. ttbr0_to_pa va (Some t) s' = ttbr0_to_pa va (Some t) s"
    unfolding s' by (rule w)+
  show "keeps (set_mset (all_frames s t ps)) (ram s) (ram s')"
    unfolding s' using keeps_mono [OF k(1)] fp(2) by simp
  fix y :: nat assume y: "y < 2 ^ 39"
  have nd: "node (ram s') t (path (of_nat y)) = node (ram s) t (path (of_nat y))"
  proof -
    have "{p} \<inter> set (tree_tables (ram s) 1 t) = {}" using leaf_not_table [OF p(1), of 1] ownedD(2) [OF o] by simp
    from keeps_tree(2) [OF k(1) ownedD(2) [OF o] this] show ?thesis unfolding s' by simp
  qed
  show "umem s' t y = (if x \<le> y \<and> y < x + length bs then Some (bs ! (y - x)) else umem s t y)"
  proof (cases "y div 4096 = x div 4096")
    case True
    then have "path (of_nat y) = path (of_nat x)" using x y by (simp add: path_eq_iff va_page_nat_eq)
    moreover have "y mod 4096 - x mod 4096 = y - x" using True by (metis div_mult_mod_eq add_diff_cancel_left)
    ultimately show ?thesis
      unfolding umem_node [OF o' y] umem_node [OF o y] nd same_page_iff [OF n]
      using True p(1) k(2) [of "y mod 4096"] by (simp add: s')
  next
    case False
    have "ram s' (ttbr1_to_va q + of_nat (y mod 4096)) = ram s (ttbr1_to_va q + of_nat (y mod 4096))"
      if q: "node (ram s) t (path (of_nat y)) = Some q" for q
    proof -
      have "q \<noteq> p" using owned_inj [OF o q, of "of_nat x"] p(1) False va_page_nat_eq [OF y x] by auto
      moreover have "is_frame_pa q" using owned_node [OF o q] by simp
      ultimately show ?thesis unfolding s' using same_frame_byte [OF k(1)] by simp
    qed
    then show ?thesis
      unfolding umem_node [OF o' y] umem_node [OF o y] nd same_page_iff [OF n] using False
      by (cases "node (ram s) t (path (of_nat y))") simp_all
  qed
qed

section \<open>Copying over many pages\<close>

definition same_space :: "u64 \<Rightarrow> u64 list \<Rightarrow> pgstate \<Rightarrow> pgstate \<Rightarrow> bool" where
  "same_space t ps s s' \<longleftrightarrow> owned s' t ps \<and> all_frames s' t ps = all_frames s t ps
     \<and> (\<forall>va. ttbr0_to_pa va (Some t) s' = ttbr0_to_pa va (Some t) s)
     \<and> keeps (set_mset (all_frames s t ps)) (ram s) (ram s') \<and> ttbr0_el1 s' = ttbr0_el1 s"

lemma same_space_refl: "owned s t ps \<Longrightarrow> same_space t ps s s"
  by (simp add: same_space_def)

lemma same_space_trans: "same_space t ps s s' \<Longrightarrow> same_space t ps s' s'' \<Longrightarrow> same_space t ps s s''"
  using keeps_trans [of "set_mset (all_frames s t ps)" "ram s" "ram s'" "set_mset (all_frames s t ps)" "ram s''"]
  by (simp add: same_space_def)

lemma same_space_put:
  "owned s t ps \<Longrightarrow> x < 2 ^ 39 \<Longrightarrow> x mod 4096 + length bs \<le> 4096 \<Longrightarrow> ttbr0_to_ttbr1 (of_nat x) (Some t) s = Some a \<Longrightarrow>
   same_space t ps s (s\<lparr>ram := put_bytes (ram s) a bs\<rparr>)"
  unfolding same_space_def using umem_put(1,2,3,5) by simp

lemma copy_loop_spec:
  "owned s t ps \<Longrightarrow> d + length src \<le> 2 ^ 39 \<Longrightarrow> (\<And>x. d + off \<le> x \<Longrightarrow> x < d + length src \<Longrightarrow> mapped (of_nat x) t s) \<Longrightarrow>
   \<exists>s'. copy_loop src off (of_nat (d + off)) (Some t) s = (Inr (), s') \<and> same_space t ps s s'
     \<and> (\<forall>y < 2 ^ 39. umem s' t y = (if d + off \<le> y \<and> y < d + length src then Some (src ! (y - d)) else umem s t y))"
proof (induction "length src - off" arbitrary: off s rule: less_induct)
  case less
  show ?case
  proof (cases "off < length src")
    case False
    then show ?thesis using less.prems(1) by (subst copy_loop.simps) (auto simp: same_space_refl)
  next
    case True
    let ?x = "d + off"
    define n where "n = min (4096 - ?x mod 4096) (length src - off)"
    let ?bs = "take n (drop off src)"
    have x: "?x < 2 ^ 39" using True less.prems(2) by simp
    have n: "0 < n" "n \<le> length src - off" "length ?bs = n" "?x mod 4096 + n \<le> 4096"
      using True by (auto simp: n_def)
    have nn: "min (unat (PAGE_SIZE - (of_nat ?x AND (PAGE_SIZE - 1)))) (length src - off) = n"
      unfolding page_rest(1) n_def unat_va_nat [OF x] ..
    obtain a where a: "ttbr0_to_ttbr1 (of_nat ?x) (Some t) s = Some a"
      using less.prems(3) [of ?x] True by (auto simp: ttbr0_to_ttbr1_def)
    let ?s = "s\<lparr>ram := put_bytes (ram s) a ?bs\<rparr>"
    have n': "?x mod 4096 + length ?bs \<le> 4096" using n by simp
    note u = umem_put [OF less.prems(1) x n' a]
    have "mapped (of_nat y) t ?s" if "d + (off + n) \<le> y" "y < d + length src" for y
      using less.prems(3) [of y] that u(3) by simp
    moreover have "length src - (off + n) < length src - off" using n(1) True by simp
    ultimately obtain s' where s': "copy_loop src (off + n) (of_nat (d + (off + n))) (Some t) ?s = (Inr (), s')"
      "same_space t ps ?s s'"
      "\<forall>y < 2 ^ 39. umem s' t y = (if d + (off + n) \<le> y \<and> y < d + length src then Some (src ! (y - d)) else umem ?s t y)"
      using less.hyps [of "off + n" ?s] u(1) less.prems(2) by blast
    have "copy_loop src off (of_nat ?x) (Some t) s = copy_loop src (off + n) (of_nat ?x + of_nat n) (Some t) ?s"
      using True a nn by (subst copy_loop.simps) (simp add: Let_def)
    also have "of_nat ?x + of_nat n = (of_nat (d + (off + n)) :: u64)" by (simp add: add.assoc)
    finally have "copy_loop src off (of_nat ?x) (Some t) s = (Inr (), s')" using s'(1) by simp
    moreover have "same_space t ps s s'"
      by (rule same_space_trans [OF same_space_put [OF less.prems(1) x n' a] s'(2)])
    moreover have "umem s' t y = (if ?x \<le> y \<and> y < d + length src then Some (src ! (y - d)) else umem s t y)" if "y < 2 ^ 39" for y
    proof -
      have "?bs ! (y - ?x) = src ! (y - d)" if "?x \<le> y" "y < ?x + n"
        using that n(2) by (simp add: nth_drop)
      then show ?thesis using s'(3) u(4) [OF that] that n(2,3) by auto
    qed
    ultimately show ?thesis by blast
  qed
qed

lemma copy_to_pages_spec:
  assumes "owned s t ps" "unat va + length src \<le> 2 ^ 39" "\<And>x. unat va \<le> x \<Longrightarrow> x < unat va + length src \<Longrightarrow> mapped (of_nat x) t s"
  shows "\<exists>s'. copy_to_pages src va (Some t) s = (Inr (), s') \<and> same_space t ps s s'
     \<and> (\<forall>y < 2 ^ 39. umem s' t y = (if unat va \<le> y \<and> y < unat va + length src then Some (src ! (y - unat va)) else umem s t y))"
  using copy_loop_spec [of s t ps "unat va" src 0] assms by (simp add: copy_to_pages_def)

section \<open>Clearing and mapping a segment\<close>

lemma write_bytes_put: "write_bytes m a 0 n = put_bytes m a (replicate (unat n) 0)"
  by (rule ext) (simp add: write_bytes_def put_bytes_def word_less_nat_alt)

lemma zero_bss_spec:
  "owned s t ps \<Longrightarrow> e \<le> 2 ^ 39 \<Longrightarrow> z mod 4096 = 0 \<or> e \<le> z \<Longrightarrow> z \<le> 2 ^ 39 \<Longrightarrow>
   (\<And>x. z \<le> x \<Longrightarrow> x < e \<Longrightarrow> mapped (of_nat x) t s) \<Longrightarrow>
   \<exists>s'. zero_bss (of_nat z) (of_nat e) t s = Inr s' \<and> same_space t ps s s'
     \<and> (\<forall>y < 2 ^ 39. umem s' t y = (if z \<le> y \<and> y < e then Some 0 else umem s t y))"
proof (induction "e - z" arbitrary: z s rule: less_induct)
  case less
  have ue: "unat (of_nat e :: u64) = e" "unat (of_nat z :: u64) = z"
    using less.prems(2,4) by (simp_all add: unat_small)
  show ?case
  proof (cases "z < e")
    case False
    then have "\<not> (of_nat z :: u64) < of_nat e" using ue by (simp add: word_less_nat_alt)
    then show ?thesis using False less.prems(1) by (subst zero_bss.simps) (auto simp: same_space_refl)
  next
    case True
    then have z: "z < 2 ^ 39" and al: "z mod 4096 = 0" using less.prems(2,3) by auto
    have lt: "(of_nat z :: u64) < of_nat e" using True ue by (simp add: word_less_nat_alt)
    define n where "n = min 4096 (e - z)"
    have off: "(of_nat z AND 0xFFF :: u64) = 0"
      using va_offset_nat [OF z] al by (simp add: unat_eq_zero)
    have nn: "unat (min (4096 - (of_nat z AND 0xFFF)) (of_nat e - of_nat z) :: u64) = n"
    proof -
      have "unat (of_nat e - of_nat z :: u64) = e - z"
        using unat_sub [of "of_nat z :: u64" "of_nat e"] lt ue by (simp add: word_le_nat_alt word_less_nat_alt)
      then show ?thesis by (simp add: off n_def min_def word_le_nat_alt)
    qed
    then have nw: "(min (4096 - (of_nat z AND 0xFFF)) (of_nat e - of_nat z) :: u64) = of_nat n"
      by (metis of_nat_unat ucast_id)
    have un: "unat (of_nat n :: u64) = n" using nn nw by simp
    obtain a where a: "ttbr0_to_ttbr1 (of_nat z) (Some t) s = Some a"
      using less.prems(5) [of z] True by (auto simp: ttbr0_to_ttbr1_def)
    let ?bs = "replicate n 0"
    let ?s = "s\<lparr>ram := put_bytes (ram s) a ?bs\<rparr>"
    have n': "z mod 4096 + length ?bs \<le> 4096" using al by (simp add: n_def)
    note u = umem_put [OF less.prems(1) z n' a]
    have mp: "mapped (of_nat y) t ?s" if "z + n \<le> y" "y < e" for y
      using less.prems(5) [of y] that u(3) by simp
    have md: "(z + n) mod 4096 = 0 \<or> e \<le> z + n" using al by (auto simp: n_def min_def)
    have le: "z + n \<le> 2 ^ 39" "e - (z + n) < e - z" using True less.prems(2) by (auto simp: n_def)
    from less.hyps [OF le(2) u(1) less.prems(2) md le(1) mp] obtain s' where s': "zero_bss (of_nat (z + n)) (of_nat e) t ?s = Inr s'" "same_space t ps ?s s'"
      "\<forall>y < 2 ^ 39. umem s' t y = (if z + n \<le> y \<and> y < e then Some 0 else umem ?s t y)"
      by blast
    have "zero_bss (of_nat z) (of_nat e) t s = zero_bss (of_nat z + of_nat n) (of_nat e) t ?s"
      using lt a nw un by (subst zero_bss.simps) (simp add: Let_def off write_bytes_put)
    then have "zero_bss (of_nat z) (of_nat e) t s = Inr s'" using s'(1) by simp
    moreover have "same_space t ps s s'"
      by (rule same_space_trans [OF same_space_put [OF less.prems(1) z n' a] s'(2)])
    moreover have "umem s' t y = (if z \<le> y \<and> y < e then Some 0 else umem s t y)" if "y < 2 ^ 39" for y
    proof -
      have "z + n \<le> e" using True by (simp add: n_def)
      then show ?thesis using s'(3) u(4) [OF that] that by auto
    qed
    ultimately show ?thesis by blast
  qed
qed

definition pages_from :: "nat \<Rightarrow> nat \<Rightarrow> u64 list" where
  "pages_from p n = map (\<lambda>k. of_nat (p + 4096 * k)) [0..<n]"

lemma pages_from_Suc: "pages_from p (Suc n) = of_nat p # pages_from (p + 4096) n"
proof -
  have "[0..<Suc n] = 0 # map Suc [0..<n]" by (simp only: map_Suc_upt upt_conv_Cons zero_less_Suc)
  then show ?thesis unfolding pages_from_def by (simp only: list.map map_map comp_def) (simp add: algebra_simps)
qed

lemma map_segment_pages:
  "e \<le> 2 ^ 39 \<Longrightarrow> p \<le> 2 ^ 40 \<Longrightarrow> n = (e - p + 4095) div 4096 \<Longrightarrow> n < fuel \<Longrightarrow>
   map_segment fuel (of_nat p) (of_nat e) t s = alloc_all t (pages_from p n) s"
proof (induction n arbitrary: p fuel s)
  case 0
  then obtain f where f: "fuel = Suc f" by (cases fuel) auto
  have "e \<le> p" using 0(3) by linarith
  then have "\<not> (of_nat p :: u64) < of_nat e" using 0 by (simp add: word_less_nat_alt unat_small)
  then show ?case by (simp add: f pages_from_def)
next
  case (Suc n)
  then obtain f where f: "fuel = Suc f" by (cases fuel) auto
  have pe: "p < e" using Suc.prems(3) by (cases "p < e") auto
  then have lt: "(of_nat p :: u64) < of_nat e" using Suc.prems(1,2) by (simp add: word_less_nat_alt unat_small)
  have n: "n = (e - (p + 4096) + 4095) div 4096" using Suc.prems(3) pe by (simp add: nat_diff_split)
  have "map_segment f (of_nat (p + 4096)) (of_nat e) t = alloc_all t (pages_from (p + 4096) n)"
    using Suc.prems pe n f by (intro ext Suc.IH) auto
  then have "map_segment f (of_nat p + 4096) (of_nat e) t = alloc_all t (pages_from (p + 4096) n)" by simp
  then show ?case using lt by (simp add: f pages_from_Suc)
qed

lemma pages_from_pages:
  assumes "p mod 4096 = 0" "p + 4096 * n \<le> 2 ^ 39"
  shows "distinct (map va_page (pages_from p n))"
    "x < 2 ^ 39 \<Longrightarrow> va_page (of_nat x) \<in> va_page ` set (pages_from p n) \<longleftrightarrow> p \<le> x \<and> x < p + 4096 * n"
proof -
  obtain q where q: "p = 4096 * q" using assms(1) by auto
  have b: "p + 4096 * k < 2 ^ 39" if "k < n" for k using that assms(2) by simp
  have eq: "va_page (of_nat x) = va_page (of_nat (p + 4096 * k)) \<longleftrightarrow> x div 4096 = q + k" if "x < 2 ^ 39" "k < n" for x k
    using va_page_nat_eq [OF that(1) b [OF that(2)]] q by simp
  show "distinct (map va_page (pages_from p n))"
    unfolding pages_from_def map_map comp_def distinct_map
  proof (intro conjI inj_onI)
    fix k l assume kl: "k \<in> set [0..<n]" "l \<in> set [0..<n]" and e: "va_page (of_nat (p + 4096 * k)) = va_page (of_nat (p + 4096 * l))"
    then have "(p + 4096 * k) div 4096 = q + l" using eq [OF b, of k l] by simp
    then show "k = l" by (simp add: q)
  qed simp
  assume x: "x < 2 ^ 39"
  have "va_page (of_nat x) \<in> va_page ` set (pages_from p n) \<longleftrightarrow> (\<exists>k \<in> {0..<n}. va_page (of_nat x) = va_page (of_nat (p + 4096 * k)))"
    by (auto simp: pages_from_def image_iff)
  also have "\<dots> \<longleftrightarrow> (\<exists>k \<in> {0..<n}. x div 4096 = q + k)" using eq x by (intro bex_cong) auto
  also have "\<dots> \<longleftrightarrow> p \<le> x \<and> x < p + 4096 * n"
  proof
    assume "p \<le> x \<and> x < p + 4096 * n"
    then have "x div 4096 - q \<in> {0..<n}" "x div 4096 = q + (x div 4096 - q)" unfolding q by auto
    then show "\<exists>k \<in> {0..<n}. x div 4096 = q + k" by blast
  qed (auto simp: q)
  finally show "va_page (of_nat x) \<in> va_page ` set (pages_from p n) \<longleftrightarrow> p \<le> x \<and> x < p + 4096 * n" .
qed

section \<open>The contract of loading one segment\<close>

text \<open>
  A segment that the loader handles well: it lies in the lower half, fits in the file, no page of it is mapped yet, and its
  zero-filled part, if there is one, starts on a page boundary.
\<close>

definition segment_ok :: "u8 list \<Rightarrow> Elf64ProgHdr \<Rightarrow> u64 \<Rightarrow> pgstate \<Rightarrow> bool" where
  "segment_ok bytes ph t s \<longleftrightarrow> unat (virtaddr ph) + unat (memsize ph) + 4096 \<le> 2 ^ 39
     \<and> unat (filesize ph) \<le> unat (memsize ph) \<and> unat (p_offset ph) + unat (filesize ph) \<le> length bytes
     \<and> length bytes < 2 ^ 64
     \<and> (memsize ph = filesize ph \<or> (unat (virtaddr ph) + unat (filesize ph)) mod 4096 = 0)
     \<and> (\<forall>x. unat (virtaddr ph) div 4096 * 4096 \<le> x \<and> x < unat (virtaddr ph) + unat (memsize ph) \<longrightarrow> \<not> mapped (of_nat x) t s)"

definition segment_pages :: "Elf64ProgHdr \<Rightarrow> nat" where
  "segment_pages ph = (unat (virtaddr ph) + unat (memsize ph) - unat (virtaddr ph) div 4096 * 4096 + 4095) div 4096"

definition file_byte :: "u8 list \<Rightarrow> Elf64ProgHdr \<Rightarrow> nat \<Rightarrow> u8" where
  "file_byte bytes ph k = (if k < unat (filesize ph) then bytes ! (unat (p_offset ph) + k) else 0)"

lemma copy_segment:
  assumes o: "owned s t ps" and sl: "unat (p_offset ph) + unat (filesize ph) \<le> length bytes" "length bytes < 2 ^ 64"
    and le: "unat (virtaddr ph) + unat (filesize ph) \<le> 2 ^ 39"
    and mp: "\<And>x. unat (virtaddr ph) \<le> x \<Longrightarrow> x < unat (virtaddr ph) + unat (filesize ph) \<Longrightarrow> mapped (of_nat x) t s"
  shows "\<exists>s'. (if 0 < filesize ph
             then kbind (slice bytes (p_offset ph) (p_offset ph + filesize ph)) (\<lambda>src.
                  case copy_to_pages src (virtaddr ph) (Some t) s of
                    (Inl e, s) \<Rightarrow> Inl (Panic ''load_elf: copy_to_pages failed'')
                  | (Inr _, s) \<Rightarrow> Inr s)
             else Inr s) = Inr s' \<and> same_space t ps s s'
     \<and> (\<forall>y < 2 ^ 39. umem s' t y =
          (if unat (virtaddr ph) \<le> y \<and> y < unat (virtaddr ph) + unat (filesize ph)
           then Some (bytes ! (unat (p_offset ph) + (y - unat (virtaddr ph)))) else umem s t y))"
proof (cases "0 < filesize ph")
  case False
  then have "unat (filesize ph) = 0" by (simp add: word_less_nat_alt)
  then show ?thesis using False same_space_refl [OF o] by (intro exI [of _ s]) auto
next
  case True
  let ?src = "take (unat (filesize ph)) (drop (unat (p_offset ph)) bytes)"
  have u: "unat (p_offset ph + filesize ph) = unat (p_offset ph) + unat (filesize ph)"
    using sl by (simp add: unat_word_ariths)
  then have "slice bytes (p_offset ph) (p_offset ph + filesize ph) = Inr ?src"
    using sl(1) by (simp add: slice_def word_less_nat_alt)
  moreover have l: "length ?src = unat (filesize ph)" using sl(1) by simp
  moreover obtain s' where "copy_to_pages ?src (virtaddr ph) (Some t) s = (Inr (), s')" "same_space t ps s s'"
    "\<forall>y < 2 ^ 39. umem s' t y = (if unat (virtaddr ph) \<le> y \<and> y < unat (virtaddr ph) + unat (filesize ph)
       then Some (?src ! (y - unat (virtaddr ph))) else umem s t y)"
    using copy_to_pages_spec [OF o, of "virtaddr ph" ?src, unfolded l] le mp by blast
  ultimately show ?thesis using True sl(1) by (intro exI [of _ s']) auto
qed

lemma same_frame_at:
  "same_frame m m' (ttbr1_to_va p) \<Longrightarrow> is_frame_pa p \<Longrightarrow> m' (ttbr1_to_va p + of_nat (x mod 4096)) = m (ttbr1_to_va p + of_nat (x mod 4096))"
  by (simp add: same_frame_def frame_va_aligned)

lemma round_up_pages:
  fixes p e :: nat
  assumes "p \<le> e"
  shows "e \<le> p + 4096 * ((e - p + 4095) div 4096)" "p + 4096 * ((e - p + 4095) div 4096) \<le> e + 4095"
    "k < (e - p + 4095) div 4096 \<Longrightarrow> p + 4096 * k < e"
proof -
  define d where "d = e - p"
  have e: "e = p + d" using assms by (simp add: d_def)
  show "e \<le> p + 4096 * ((e - p + 4095) div 4096)" "p + 4096 * ((e - p + 4095) div 4096) \<le> e + 4095"
    "k < (e - p + 4095) div 4096 \<Longrightarrow> p + 4096 * k < e"
    unfolding e by simp_all
qed

text \<open>The pages of a segment, from the one that holds its first byte: their number, and which addresses they cover.\<close>

lemma segment_range:
  fixes ph :: Elf64ProgHdr
  defines "v \<equiv> unat (virtaddr ph)"
  defines "e \<equiv> v + unat (memsize ph)"
  assumes "e + 4096 \<le> 2 ^ 39"
  shows "v div 4096 * 4096 + 4096 * segment_pages ph \<le> 2 ^ 39" "segment_pages ph < 2 ^ 52" "k < segment_pages ph \<Longrightarrow> v div 4096 * 4096 + 4096 * k < e"
    "x < e \<Longrightarrow> x < v div 4096 * 4096 + 4096 * segment_pages ph"
    "v div 4096 * 4096 \<le> x \<and> x < v div 4096 * 4096 + 4096 * segment_pages ph \<longleftrightarrow> v div 4096 \<le> x div 4096 \<and> x div 4096 * 4096 < e"
proof -
  let ?p = "v div 4096 * 4096" and ?n = "segment_pages ph"
  have "?p \<le> e" unfolding e_def by (simp add: trans_le_add1)
  note r = round_up_pages [OF this, unfolded e_def v_def, folded segment_pages_def, folded v_def, folded e_def]
  show "?p + 4096 * ?n \<le> 2 ^ 39" "?n < 2 ^ 52" using r(2) assms(3) by simp_all
  show lt: "k < ?n \<Longrightarrow> ?p + 4096 * k < e" and gt: "x < e \<Longrightarrow> x < ?p + 4096 * ?n" for k x using r(1,3) by simp_all
  show "?p \<le> x \<and> x < ?p + 4096 * ?n \<longleftrightarrow> v div 4096 \<le> x div 4096 \<and> x div 4096 * 4096 < e"
  proof (intro iffI conjI; elim conjE)
    assume a: "?p \<le> x" "x < ?p + 4096 * ?n"
    then show q: "v div 4096 \<le> x div 4096" by (simp add: less_eq_div_iff_mult_less_eq)
    have "x < (v div 4096 + ?n) * 4096" using a(2) by (simp add: algebra_simps)
    then have "x div 4096 < v div 4096 + ?n" by (rule less_mult_imp_div_less)
    then have "x div 4096 - v div 4096 < ?n" using q by simp
    then have "?p + 4096 * (x div 4096 - v div 4096) < e" by (rule lt)
    then show "x div 4096 * 4096 < e" using q by (simp add: diff_mult_distrib2)
  next
    assume a: "v div 4096 \<le> x div 4096" "x div 4096 * 4096 < e"
    then show "?p \<le> x" by (simp add: less_eq_div_iff_mult_less_eq)
    have "x div 4096 * 4096 < (v div 4096 + ?n) * 4096" using gt [OF a(2)] by (simp add: algebra_simps)
    then have "x div 4096 < v div 4096 + ?n" by simp
    then show "x < ?p + 4096 * ?n" by (simp add: div_less_iff_less_mult algebra_simps)
  qed
qed

lemma segment_okD:
  assumes "segment_ok bytes ph t s"
  shows "unat (virtaddr ph) + unat (memsize ph) + 4096 \<le> 2 ^ 39" "unat (filesize ph) \<le> unat (memsize ph)"
    "unat (p_offset ph) + unat (filesize ph) \<le> length bytes" "length bytes < 2 ^ 64"
    "memsize ph = filesize ph \<or> (unat (virtaddr ph) + unat (filesize ph)) mod 4096 = 0"
    "unat (virtaddr ph) div 4096 * 4096 \<le> x \<Longrightarrow> x < unat (virtaddr ph) + unat (memsize ph) \<Longrightarrow> \<not> mapped (of_nat x) t s"
  using assms by (auto simp: segment_ok_def)

text \<open>The first step of loading a segment maps its pages; what was mapped stays as it was.\<close>

lemma map_segment_spec:
  assumes o: "owned s t ps" and ok: "segment_ok bytes ph t s" and len: "3 * segment_pages ph \<le> length ps"
  shows "\<exists>s' ps'. map_segment (2 ^ 52) (virtaddr ph AND NOT 0xFFF) (virtaddr ph + memsize ph) t s = Inr s' \<and> owned s' t ps' \<and> all_frames s' t ps' = all_frames s t ps
     \<and> length ps \<le> length ps' + 3 * segment_pages ph
     \<and> (\<forall>x < 2 ^ 39. mapped (of_nat x) t s' \<longleftrightarrow> mapped (of_nat x) t s
          \<or> unat (virtaddr ph) div 4096 \<le> x div 4096 \<and> x div 4096 * 4096 < unat (virtaddr ph) + unat (memsize ph))
     \<and> (\<forall>x < 2 ^ 39. mapped (of_nat x) t s \<longrightarrow> umem s' t x = umem s t x) \<and> keeps (set_mset (all_frames s t ps)) (ram s) (ram s')"
proof -
  let ?v = "unat (virtaddr ph)" and ?n = "segment_pages ph"
  let ?e = "?v + unat (memsize ph)" and ?p = "?v div 4096 * 4096"
  note bd = segment_okD(1) [OF ok] and nb = segment_range [OF segment_okD(1) [OF ok]]
  have pv: "?p \<le> ?v" "?p mod 4096 = 0" by simp_all
  have "unat (virtaddr ph AND NOT 0xFFF) = ?p" using unat_frame_of [of "virtaddr ph"] unfolding frame_of_def by simp
  then have w: "virtaddr ph AND NOT 0xFFF = of_nat ?p" "virtaddr ph + memsize ph = of_nat ?e" by (rule u64_of_unat) simp
  have ms: "map_segment (2 ^ 52) (of_nat ?p) (of_nat ?e) t s = alloc_all t (pages_from ?p ?n) s"
    using bd pv(1) nb(2) by (intro map_segment_pages) (auto simp: segment_pages_def)
  note pp = pages_from_pages [OF pv(2) nb(1)]
  have "\<not> mapped va t s" if va: "va \<in> set (pages_from ?p ?n)" for va
  proof -
    obtain k where "k < ?n" "va = of_nat (?p + 4096 * k)" using va by (auto simp: pages_from_def simp del: of_nat_add of_nat_mult)
    then show ?thesis using segment_okD(6) [OF ok, of "?p + 4096 * k"] nb(3) by simp
  qed
  then obtain s1 ps1 where s1: "alloc_all t (pages_from ?p ?n) s = Inr s1" "owned s1 t ps1" "length ps \<le> length ps1 + 3 * ?n"
    "all_frames s1 t ps1 = all_frames s t ps"
    "\<And>va. mapped va t s1 \<longleftrightarrow> mapped va t s \<or> va_page va \<in> va_page ` set (pages_from ?p ?n)"
    "\<And>va p. node (ram s) t (path va) = Some p \<Longrightarrow> node (ram s1) t (path va) = Some p \<and> same_frame (ram s) (ram s1) (ttbr1_to_va p)"
    "keeps (set_mset (all_frames s t ps)) (ram s) (ram s1)"
    using alloc_all_spec [OF o pp(1)] len by (auto simp: pages_from_def)
  have "umem s1 t x = umem s t x" if "x < 2 ^ 39" "mapped (of_nat x) t s" for x
    using that(2) s1(6) [of "of_nat x"] same_frame_at [of "ram s" "ram s1" _ x] ownedD(2) [OF o] owned_node [OF o]
    by (auto simp: umem_node [OF o that(1)] umem_node [OF s1(2) that(1)] ttbr0_to_pa_node translation_table_def)
  moreover have "mapped (of_nat x) t s1 \<longleftrightarrow> mapped (of_nat x) t s \<or> ?v div 4096 \<le> x div 4096 \<and> x div 4096 * 4096 < ?e" if "x < 2 ^ 39" for x
    using s1(5) [of "of_nat x"] pp(2) [OF that] nb(5) [of x] by blast
  ultimately show ?thesis unfolding w ms using s1(1-4,7) by blast
qed

text \<open>The last step clears the part that is not in the file.\<close>

lemma zero_rest:
  assumes o: "owned s t ps" and ef: "e \<le> 2 ^ 39" "f \<le> e" "f mod 4096 = 0 \<or> e \<le> f" and m: "\<And>x. f \<le> x \<Longrightarrow> x < e \<Longrightarrow> mapped (of_nat x) t s"
  shows "\<exists>s'. (if (of_nat f :: u64) < of_nat e then zero_bss (of_nat f) (of_nat e) t s else Inr s) = Inr s' \<and> same_space t ps s s'
     \<and> (\<forall>y < 2 ^ 39. umem s' t y = (if f \<le> y \<and> y < e then Some 0 else umem s t y))"
proof (cases "(of_nat f :: u64) < of_nat e")
  case True
  have "f \<le> 2 ^ 39" using ef by simp
  with True show ?thesis using zero_bss_spec [OF o ef(1,3) _ m] by auto
next
  case False
  then have "\<not> f < e" using ef(1,2) by (simp add: word_less_nat_alt unat_small)
  then show ?thesis using False same_space_refl [OF o] by auto
qed

lemma load_segment_spec:
  assumes o: "owned s t ps" and ok: "segment_ok bytes ph t s" and len: "3 * segment_pages ph \<le> length ps"
  shows "\<exists>s' ps'. load_segment bytes ph t s = Inr s' \<and> owned s' t ps' \<and> all_frames s' t ps' = all_frames s t ps
     \<and> length ps \<le> length ps' + 3 * segment_pages ph
     \<and> (\<forall>x < 2 ^ 39. umem s' t x =
          (if unat (virtaddr ph) \<le> x \<and> x < unat (virtaddr ph) + unat (memsize ph)
           then Some (file_byte bytes ph (x - unat (virtaddr ph)))
           else if mapped (of_nat x) t s then umem s t x else umem s' t x))
     \<and> (\<forall>x < 2 ^ 39. mapped (of_nat x) t s' \<longleftrightarrow> mapped (of_nat x) t s
          \<or> unat (virtaddr ph) div 4096 \<le> x div 4096 \<and> x div 4096 * 4096 < unat (virtaddr ph) + unat (memsize ph))
     \<and> keeps (set_mset (all_frames s t ps)) (ram s) (ram s')"
proof -
  let ?v = "unat (virtaddr ph)"
  let ?e = "?v + unat (memsize ph)" and ?f = "?v + unat (filesize ph)"
  note d = segment_okD [OF ok]
  have w: "virtaddr ph + memsize ph = of_nat ?e" "virtaddr ph + filesize ph = of_nat ?f" by simp_all
  obtain s1 ps1 where s1: "map_segment (2 ^ 52) (virtaddr ph AND NOT 0xFFF) (virtaddr ph + memsize ph) t s = Inr s1" "owned s1 t ps1" "all_frames s1 t ps1 = all_frames s t ps"
    "length ps \<le> length ps1 + 3 * segment_pages ph"
    "\<And>x. x < 2 ^ 39 \<Longrightarrow> mapped (of_nat x) t s1 \<longleftrightarrow> mapped (of_nat x) t s \<or> ?v div 4096 \<le> x div 4096 \<and> x div 4096 * 4096 < ?e"
    "\<And>x. x < 2 ^ 39 \<Longrightarrow> mapped (of_nat x) t s \<Longrightarrow> umem s1 t x = umem s t x" "keeps (set_mset (all_frames s t ps)) (ram s) (ram s1)"
    using map_segment_spec [OF o ok len] by blast
  have m1: "mapped (of_nat x) t s1" if "?v \<le> x" "x < ?e" for x
  proof -
    have "x div 4096 * 4096 \<le> x" by simp
    then have "x div 4096 * 4096 < ?e" using that(2) by (rule le_less_trans)
    moreover have "x < 2 ^ 39" using that(2) d(1) by simp
    ultimately show ?thesis using div_le_mono [OF that(1), of 4096] s1(5) by blast
  qed
  let ?copy = "\<lambda>s. if 0 < filesize ph
             then kbind (slice bytes (p_offset ph) (p_offset ph + filesize ph)) (\<lambda>src.
                  case copy_to_pages src (virtaddr ph) (Some t) s of
                    (Inl e, s) \<Rightarrow> Inl (Panic ''load_elf: copy_to_pages failed'')
                  | (Inr _, s) \<Rightarrow> Inr s)
             else Inr s"
  obtain s2 where s2: "?copy s1 = Inr s2" "same_space t ps1 s1 s2"
    "\<And>y. y < 2 ^ 39 \<Longrightarrow> umem s2 t y = (if ?v \<le> y \<and> y < ?f then Some (bytes ! (unat (p_offset ph) + (y - ?v))) else umem s1 t y)"
    using copy_segment [OF s1(2) d(3,4) _ m1] d(1,2) by auto
  have o2: "owned s2 t ps1" using s2(2) by (simp add: same_space_def)
  obtain s3 where s3: "(if (of_nat ?f :: u64) < of_nat ?e then zero_bss (of_nat ?f) (of_nat ?e) t s2 else Inr s2) = Inr s3" "same_space t ps1 s2 s3"
    "\<And>y. y < 2 ^ 39 \<Longrightarrow> umem s3 t y = (if ?f \<le> y \<and> y < ?e then Some 0 else umem s2 t y)"
    using zero_rest [OF o2, of ?e ?f] d(1,2,5) m1 s2(2) by (auto simp: same_space_def simp del: of_nat_add)
  note ss = same_space_trans [OF s2(2) s3(2)]
  have "load_segment bytes ph t s = Inr s3" unfolding load_segment_def Let_def s1(1) unfolding w using s2(1) s3(1) by simp
  moreover have "umem s3 t x = (if ?v \<le> x \<and> x < ?e then Some (file_byte bytes ph (x - ?v))
           else if mapped (of_nat x) t s then umem s t x else umem s3 t x)" if x: "x < 2 ^ 39" for x
    unfolding s3(3) [OF x] s2(3) [OF x] using s1(6) [OF x] d(2) by (auto simp: file_byte_def)
  moreover have "mapped (of_nat x) t s3 \<longleftrightarrow> mapped (of_nat x) t s \<or> ?v div 4096 \<le> x div 4096 \<and> x div 4096 * 4096 < ?e" if "x < 2 ^ 39" for x
    using s1(5) [OF that] ss by (simp add: same_space_def)
  moreover have "owned s3 t ps1" "all_frames s3 t ps1 = all_frames s t ps" "keeps (set_mset (all_frames s t ps)) (ram s) (ram s3)"
    using ss s1(3) keeps_trans [OF s1(7), of "set_mset (all_frames s t ps)" "ram s3"] by (simp_all add: same_space_def)
  ultimately show ?thesis using s1(4) by (intro exI [of _ s3] exI [of _ ps1]) simp
qed

section \<open>Properties\<close>

text \<open>Copying into mapped pages writes exactly the given bytes at the given virtual addresses, across page boundaries, and nothing
  else of the address space changes: neither its translations nor any other byte a user of it can read.\<close>

lemma copy_to_pages_correct:
  assumes "owned s t ps" "unat va + length src \<le> 2 ^ 39" "\<And>x. unat va \<le> x \<Longrightarrow> x < unat va + length src \<Longrightarrow> mapped (of_nat x) t s"
  shows "\<exists>s'. copy_to_pages src va (Some t) s = (Inr (), s') \<and> owned s' t ps
     \<and> (\<forall>w. ttbr0_to_pa w (Some t) s' = ttbr0_to_pa w (Some t) s)
     \<and> (\<forall>y < 2 ^ 39. umem s' t y = (if unat va \<le> y \<and> y < unat va + length src then Some (src ! (y - unat va)) else umem s t y))"
  using copy_to_pages_spec [OF assms] by (auto simp: same_space_def)

lemma demo_page:
  "\<exists>s ps. alloc_all 0x107000 [0x400000] (demo_pg 0xffffff8000108000) = Inr s \<and> owned s 0x107000 ps
     \<and> (\<forall>x. 0x400000 \<le> x \<and> x < 0x401000 \<longrightarrow> mapped (of_nat x) 0x107000 s)"
proof -
  have d: "distinct (map va_page [0x400000])" by simp
  have "\<not> mapped va 0x107000 (demo_pg 0xffffff8000108000)" if "va \<in> set [0x400000]" for va
    using demo_states(3) by simp
  from alloc_all_spec [OF demo_states(1) d _ this] obtain s ps where s:
    "alloc_all 0x107000 [0x400000] (demo_pg 0xffffff8000108000) = Inr s" "owned s 0x107000 ps"
    "\<forall>va. mapped va 0x107000 s \<longleftrightarrow> mapped va 0x107000 (demo_pg 0xffffff8000108000) \<or> va_page va \<in> va_page ` set [0x400000]"
    by (auto simp del: alloc_all.simps)
  have "va_page (of_nat x) = va_page 0x400000" if "0x400000 \<le> x" "x < 0x401000" for x
    using va_page_nat_eq [of x "0x400000"] that by (simp add: div_nat_eqI)
  then show ?thesis using s by auto
qed

lemma copy_to_pages_correct_example:
  "\<exists>s s'. alloc_all 0x107000 [0x400000] (demo_pg 0xffffff8000108000) = Inr s
     \<and> copy_to_pages [7, 8, 9] 0x400ffd (Some 0x107000) s = (Inr (), s') \<and> umem s' 0x107000 0x400fff = Some 9"
proof -
  obtain s ps where s: "alloc_all 0x107000 [0x400000] (demo_pg 0xffffff8000108000) = Inr s" "owned s 0x107000 ps"
    "\<forall>x. 0x400000 \<le> x \<and> x < 0x401000 \<longrightarrow> mapped (of_nat x) 0x107000 s" using demo_page by blast
  have l: "unat (0x400ffd :: u64) + length [7, 8, 9 :: u8] \<le> 2 ^ 39" by simp
  have m: "mapped (of_nat x) 0x107000 s" if "unat (0x400ffd :: u64) \<le> x" "x < unat (0x400ffd :: u64) + length [7, 8, 9 :: u8]" for x
    using s(3) that by simp
  obtain s' where "copy_to_pages [7, 8, 9] 0x400ffd (Some 0x107000) s = (Inr (), s')"
    "\<forall>y < 2 ^ 39. umem s' 0x107000 y = (if unat (0x400ffd :: u64) \<le> y \<and> y < unat (0x400ffd :: u64) + length [7, 8, 9 :: u8]
       then Some ([7, 8, 9] ! (y - unat (0x400ffd :: u64))) else umem s 0x107000 y)"
    using copy_to_pages_correct [OF s(2) l m] by blast
  then show ?thesis using s(1) by (intro exI [of _ s] exI [of _ s']) simp
qed

text \<open>Loading a segment maps exactly the pages it touches, after which every byte of it reads as the byte of the file at that place,
  or zero beyond the file's part; pages that were mapped keep their contents. The zero-filled part must start on a page boundary.\<close>

lemma load_segment_correct:
  assumes "owned s t ps" "segment_ok bytes ph t s" "3 * segment_pages ph \<le> length ps"
  shows "\<exists>s' ps'. load_segment bytes ph t s = Inr s' \<and> owned s' t ps' \<and> all_frames s' t ps' = all_frames s t ps
     \<and> (\<forall>k < unat (memsize ph). umem s' t (unat (virtaddr ph) + k) = Some (file_byte bytes ph k))
     \<and> (\<forall>x < 2 ^ 39. mapped (of_nat x) t s' \<longleftrightarrow> mapped (of_nat x) t s
          \<or> unat (virtaddr ph) div 4096 \<le> x div 4096 \<and> x div 4096 * 4096 < unat (virtaddr ph) + unat (memsize ph))
     \<and> (\<forall>x < 2 ^ 39. mapped (of_nat x) t s \<longrightarrow> umem s' t x = umem s t x)"
proof -
  let ?v = "unat (virtaddr ph)" and ?m = "unat (memsize ph)"
  obtain s' ps' where s': "load_segment bytes ph t s = Inr s'" "owned s' t ps'" "all_frames s' t ps' = all_frames s t ps"
    "\<forall>x < 2 ^ 39. umem s' t x = (if ?v \<le> x \<and> x < ?v + ?m then Some (file_byte bytes ph (x - ?v))
           else if mapped (of_nat x) t s then umem s t x else umem s' t x)"
    "\<forall>x < 2 ^ 39. mapped (of_nat x) t s' \<longleftrightarrow> mapped (of_nat x) t s \<or> ?v div 4096 \<le> x div 4096 \<and> x div 4096 * 4096 < ?v + ?m"
    using load_segment_spec [OF assms] by blast
  have b: "?v + ?m + 4096 \<le> 2 ^ 39" and um: "\<And>x. ?v div 4096 * 4096 \<le> x \<Longrightarrow> x < ?v + ?m \<Longrightarrow> \<not> mapped (of_nat x) t s"
    using assms(2) by (auto simp: segment_ok_def)
  have "umem s' t (?v + k) = Some (file_byte bytes ph k)" if "k < ?m" for k
    using s'(4) [rule_format, of "?v + k"] that b by simp
  moreover have "umem s' t x = umem s t x" if "x < 2 ^ 39" "mapped (of_nat x) t s" for x
  proof -
    have "\<not> (?v \<le> x \<and> x < ?v + ?m)" using um [of x] that(2) order_trans [of "?v div 4096 * 4096" ?v x] by auto
    then show ?thesis using s'(4) [rule_format, OF that(1)] that(2) by (simp only: simp_thms if_True if_False)
  qed
  ultimately show ?thesis using s'(1,2,3,5) by blast
qed

definition demo_ph :: Elf64ProgHdr where
  "demo_ph = \<lparr>p_type = 1, p_flags = 5, p_offset = 1, virtaddr = 0x400ffe, phyaddr = 0, filesize = 3, memsize = 3, align = 0x1000\<rparr>"

lemma load_segment_correct_example:
  "\<exists>s'. load_segment [9, 10, 11, 12] demo_ph 0x107000 (demo_pg 0xffffff8000108000) = Inr s' \<and> umem s' 0x107000 0x401000 = Some 12"
proof -
  have ok: "segment_ok [9, 10, 11, 12] demo_ph 0x107000 (demo_pg 0xffffff8000108000)"
    using demo_states(3) by (simp add: segment_ok_def demo_ph_def)
  have "3 * segment_pages demo_ph \<le> length [0x106000, 0x105000, 0x104000, 0x103000, 0x102000, 0x101000, 0x100000 :: u64]"
    by (simp add: segment_pages_def demo_ph_def)
  from load_segment_correct [OF demo_states(1) ok this] obtain s' where
    "load_segment [9, 10, 11, 12] demo_ph 0x107000 (demo_pg 0xffffff8000108000) = Inr s'"
    and b: "\<And>k. k < unat (memsize demo_ph) \<Longrightarrow> umem s' 0x107000 (unat (virtaddr demo_ph) + k) = Some (file_byte [9, 10, 11, 12] demo_ph k)"
    by blast
  then show ?thesis using b [of 2] by (intro exI [of _ s']) (simp add: demo_ph_def file_byte_def)
qed

text \<open>C26. When the zero-filled part of a segment does not start on a page boundary, the loader clears the wrong bytes: the translated
  address already contains the offset within the page, and the offset is added to it a second time, so the first byte of the part
  keeps its old contents.\<close>

theorem zero_bss_misplaced:
  assumes "z < e" "ttbr0_to_ttbr1 z (Some t) s = Some a" "z AND 0xFFF \<noteq> 0" "e - z \<le> 4096 - (z AND 0xFFF)"
  shows "\<exists>s'. zero_bss z e t s = Inr s' \<and> s' = s\<lparr>ram := write_bytes (ram s) (a + (z AND 0xFFF)) 0 (e - z)\<rparr>
     \<and> ram s' a = ram s a"
proof -
  let ?o = "z AND 0xFFF"
  have mn: "min (4096 - ?o) (e - z) = e - z" using assms(4) by (rule min_absorb2)
  have "\<not> a - (a + ?o) < e - z"
  proof -
    have "unat ?o < 4096" by (simp add: unat_and_fff)
    have pos: "0 < unat ?o" using assms(3) by (simp add: unat_gt_0)
    have "unat (?o + (- ?o)) = (unat ?o + unat (- ?o)) mod 2 ^ 64" by (simp only: unat_word_ariths) simp
    then have "(unat ?o + unat (- ?o)) mod 2 ^ 64 = 0" by simp
    then have "4096 \<le> unat (- ?o)" using \<open>unat ?o < 4096\<close> pos by (cases "unat (- ?o) < 4096") auto
    moreover have "unat (e - z) \<le> 4096"
    proof -
      have "unat (4096 - ?o) \<le> 4096" using \<open>unat ?o < 4096\<close> by (simp add: unat_sub word_le_nat_alt)
      then show ?thesis using assms(4) by (simp add: word_le_nat_alt)
    qed
    ultimately show ?thesis by (simp add: word_less_nat_alt)
  qed
  moreover have "zero_bss z e t s = Inr (s\<lparr>ram := write_bytes (ram s) (a + ?o) 0 (e - z)\<rparr>)"
    using assms(1,2) mn by (subst zero_bss.simps) (simp add: Let_def, simp add: zero_bss.simps)
  ultimately show ?thesis by (simp add: write_bytes_def)
qed

theorem zero_bss_misplaced_witness:
  "\<exists>s s'. alloc_all 0x107000 [0x400000] (demo_pg 0xffffff8000108000) = Inr s
     \<and> zero_bss 0x400010 0x400020 0x107000 s = Inr s' \<and> umem s 0x107000 0x400010 \<noteq> None"
proof -
  obtain s ps where s: "alloc_all 0x107000 [0x400000] (demo_pg 0xffffff8000108000) = Inr s" "owned s 0x107000 ps"
    "\<forall>x. 0x400000 \<le> x \<and> x < 0x401000 \<longrightarrow> mapped (of_nat x) 0x107000 s" using demo_page by blast
  have m: "mapped 0x400010 0x107000 s" using s(3) [rule_format, of "0x400010"] by simp
  then obtain a where a: "ttbr0_to_ttbr1 0x400010 (Some 0x107000) s = Some a" by (auto simp: ttbr0_to_ttbr1_def)
  from zero_bss_misplaced [OF _ a, of "0x400020"] s(1) m show ?thesis by (auto simp: umem_def)
qed

end
