(* ===== verification/Console.thy ===== *)
theory Console
  imports KernelIo UserMem
begin

text \<open>
  What console I/O does: in a state where the I/O locks are free and the CPU's interrupt nesting is consistent (\<open>kcpu\<close>: masked while a \<^verbatim>\<open>push_off\<close> is open), printing
  appends exactly the given bytes with carriage returns, and reading a line is a pure line editor on the keys received. The mutex is an
  \<open>exclusive_lock\<close>.
\<close>

section \<open>Lock states in the kernel\<close>

definition kcpu :: "Cpu \<Rightarrow> bool" where
  "kcpu c \<longleftrightarrow> unat (ncli c) < 2 ^ 63 \<and> (if ncli c = 0 then interrupts_enabled c = is_irq_enabled c else \<not> is_irq_enabled c)"

definition taken :: "Cpu \<Rightarrow> Spinlock" where
  "taken c = \<lparr>locked = True, holding_cpuid = Some (cid c)\<rparr>"

lemma kcpu_succ: "kcpu c \<Longrightarrow> ncli c + 1 \<noteq> 0"
  unfolding kcpu_def word_unat_eq_iff by (simp add: unat_word_ariths)

lemma push_off_fields [simp]:
  "current_pid (push_off c) = current_pid c" "ncli (push_off c) = ncli c + 1" "daif (push_off c) = daif c OR 0x80" "\<not> is_irq_enabled (push_off c)"
  by (simp_all add: push_off_def Let_def irq_disable_def is_irq_enabled_bit bit_or_iff bit_0x80)

lemma kcpu_remembers:
  assumes "kcpu c"
  shows "push_off c = c\<lparr>daif := daif c OR 0x80, ncli := ncli c + 1\<rparr>"
  using assms by (simp add: push_off_def Let_def irq_disable_def kcpu_def)

lemma kcpu_pop:
  assumes "kcpu c"
  shows "pop_off (push_off c) = Inr c"
proof -
  have n: "\<not> ncli (push_off c) < 1" using kcpu_succ [OF assms] word_less_1 [of "ncli c + 1"] by simp
  have d: "if ncli c = 0 \<and> interrupts_enabled c then (daif c OR 0x80) AND NOT 0x80 = daif c else daif c OR 0x80 = daif c"
    using assms irq_off_on [of c] irq_enable_disable(2) [of c] by (auto simp: kcpu_def split: if_splits)
  show ?thesis
    unfolding pop_off_def if_not_P [OF n] if_not_P [OF push_off_fields(4)] using d
    by (simp only: kcpu_remembers [OF assms]) (auto simp: Let_def irq_enable_def split: if_splits)
qed

lemma spin_free:
  "kcpu c \<Longrightarrow> spin_acquire (c, Spinlock_new) = Inr (push_off c, taken c)"
  "kcpu c \<Longrightarrow> spin_release (push_off c, taken c) = Inr (c, Spinlock_new)"
  by (simp_all add: spin_acquire_def spin_release_def Spinlock_new_def taken_def kcpu_pop Let_def)

definition io_quiet :: "kstate \<Rightarrow> bool" where
  "io_quiet s \<longleftrightarrow> kcpu (cpu s) \<and> guard (mutex s) = Spinlock_new \<and> w_lock (uart s) = Spinlock_new \<and> r_lock (uart s) = Spinlock_new"

lemma io_quiet_upd [simp]:
  "io_quiet (s\<lparr>LSR := l\<rparr>) = io_quiet s" "io_quiet (s\<lparr>UART_RX := r\<rparr>) = io_quiet s" "io_quiet (s\<lparr>UART_TX := t\<rparr>) = io_quiet s"
  "io_quiet (s\<lparr>pg := g\<rparr>) = io_quiet s" "io_quiet (s\<lparr>PROCESS_TABLE := pt\<rparr>) = io_quiet s"
  "io_quiet (set_mutex (\<lambda>m. m\<lparr>mlock := b\<rparr>) s) = io_quiet s" "io_quiet (set_mutex (\<lambda>m. m\<lparr>holder := h\<rparr>) s) = io_quiet s"
  by (simp_all add: io_quiet_def set_mutex_def)

section \<open>The UART\<close>

lemma write_byte_spec:
  assumes "io_quiet s" "dropWhile (\<lambda>v. v AND 0x20 = 0) (LSR s) = v # rest"
  shows "write_byte c s = Inr (s\<lparr>LSR := rest, UART_TX := UART_TX s @ [ucast c]\<rparr>)"
  using assms by (simp add: write_byte_def at_w_lock_def io_quiet_def spin_free set_uart_def)

lemma poll_byte_spec:
  assumes "io_quiet s" "LSR s = v # rest"
  shows "poll_byte s = (if v AND 1 = 0 then Inr (None, s\<lparr>LSR := rest\<rparr>)
     else case UART_RX s of [] \<Rightarrow> Inl Spin | d # ds \<Rightarrow> Inr (Some (ucast (d AND 0xFF)), s\<lparr>LSR := rest, UART_RX := ds\<rparr>))"
  using assms by (auto simp: poll_byte_def at_r_lock_def io_quiet_def spin_free set_uart_def read_LSR_def split: list.splits)

section \<open>The mutex\<close>

definition no_waiters :: "kstate \<Rightarrow> bool" where
  "no_waiters s \<longleftrightarrow> (\<forall>p. Some p \<in> set (PROCESS_TABLE s) \<longrightarrow> \<not> (state p = Blocked \<and> chan p = KERNEL_IO_ADDR s))"

lemma wakeup_none: "no_waiters s \<Longrightarrow> wakeup (KERNEL_IO_ADDR s) s = s"
proof -
  assume "no_waiters s"
  then have "map (map_option (\<lambda>p. if state p = Blocked \<and> chan p = KERNEL_IO_ADDR s then (set_state Ready p)\<lparr>block_reason := None, chan := 0\<rparr> else p)) (PROCESS_TABLE s)
      = PROCESS_TABLE s"
    by (intro map_idI) (case_tac x; auto simp: no_waiters_def)
  then show ?thesis by (simp add: wakeup_def)
qed

lemma mutex_acquire_spec:
  assumes "io_quiet s" "\<not> mlock (mutex s)"
  shows "mutex_acquire ws s = Inr (ws, set_mutex (\<lambda>m. m\<lparr>mlock := True, holder := (case get_current s of Some p \<Rightarrow> Some (pid p) | None \<Rightarrow> holder m)\<rparr>) s)"
  using assms
  by (cases ws) (auto simp: mutex_acquire_def guard_acquire_def guard_release_def io_quiet_def spin_free set_mutex_def get_current_def find_by_id_def slot_of_def
      split: option.splits)

lemma mutex_release_spec:
  assumes "io_quiet s" "mlock (mutex s)" "\<And>p. get_current s = Some p \<Longrightarrow> holder (mutex s) = Some (pid p)"
  shows "mutex_release s = Inr (wakeup (KERNEL_IO_ADDR s) (set_mutex (\<lambda>m. m\<lparr>mlock := False, holder := None\<rparr>) s))"
  using assms
  by (auto simp: mutex_release_def guard_acquire_def guard_release_def io_quiet_def spin_free set_mutex_def get_current_def find_by_id_def slot_of_def wakeup_def
      split: option.splits)

definition mutex_ok :: "kstate \<Rightarrow> bool" where
  "mutex_ok s \<longleftrightarrow> io_quiet s \<and> (mlock (mutex s) \<longrightarrow> (\<forall>p. get_current s = Some p \<longrightarrow> holder (mutex s) = Some (pid p)))"

lemma get_current_mutex [simp]: "get_current (set_mutex f s) = get_current s"
  by (simp add: get_current_def find_by_id_def slot_of_def set_mutex_def)

lemma mutex_upd [simp]:
  "mutex (set_mutex f s) = f (mutex s)" "cpu (set_mutex f s) = cpu s" "uart (set_mutex f s) = uart s"
  "mutex (wakeup c s) = mutex s" "uart (wakeup c s) = uart s" "cpu (wakeup c s) = cpu s"
  "PROCESS_TABLE (set_mutex f s) = PROCESS_TABLE s" "KERNEL_IO_ADDR (set_mutex f s) = KERNEL_IO_ADDR s"
  by (simp_all add: set_mutex_def wakeup_def)

interpretation mx: exclusive_lock "\<lambda>s. kbind (mutex_acquire [] s) (\<lambda>(ws, s). Inr s)" mutex_release "\<lambda>s. mlock (mutex s)" mutex_ok
proof
  fix s assume ok: "mutex_ok s"
  then have q: "io_quiet s" by (simp add: mutex_ok_def)
  let ?t = "set_mutex (\<lambda>m. m\<lparr>mlock := True, holder := (case get_current s of Some p \<Rightarrow> Some (pid p) | None \<Rightarrow> holder m)\<rparr>) s"
  show "\<exists>s'. kbind (mutex_acquire [] s) (\<lambda>(ws, s). Inr s) = Inr s' \<and> mlock (mutex s') \<and> mutex_ok s'" if "\<not> mlock (mutex s)"
    using q by (intro exI [of _ ?t]) (simp add: mutex_acquire_spec [OF q that] mutex_ok_def io_quiet_def)
  show "\<exists>h. kbind (mutex_acquire [] s) (\<lambda>(ws, s). Inr s) = Inl h" if "mlock (mutex s)"
    using q that by (auto simp: mutex_acquire_def guard_acquire_def io_quiet_def spin_free kbind_def split: sum.splits)
  show "\<exists>s'. mutex_release s = Inr s' \<and> \<not> mlock (mutex s') \<and> mutex_ok s'" if "mlock (mutex s)"
    using mutex_release_spec [OF q that] ok q that by (simp add: mutex_ok_def io_quiet_def)
  show "\<exists>h. mutex_release s = Inl h" if "\<not> mlock (mutex s)"
    using q that by (simp add: mutex_release_def guard_acquire_def io_quiet_def spin_free)
qed

definition io_idle :: "kstate \<Rightarrow> bool" where
  "io_idle s \<longleftrightarrow> io_quiet s \<and> mutex s = Mutex_new \<and> no_waiters s"

lemma io_idle_upd [simp]:
  "io_idle (s\<lparr>LSR := l\<rparr>) = io_idle s" "io_idle (s\<lparr>UART_RX := r\<rparr>) = io_idle s" "io_idle (s\<lparr>UART_TX := t\<rparr>) = io_idle s"
  "io_idle (s\<lparr>pg := g\<rparr>) = io_idle s"
  by (simp_all add: io_idle_def no_waiters_def)

text \<open>A section between acquiring and releasing the mutex that only moves bytes leaves everything else as it was.\<close>

definition with_mutex :: "kstate \<Rightarrow> kstate" where
  "with_mutex s = set_mutex (\<lambda>m. m\<lparr>mlock := True, holder := map_option pid (get_current s)\<rparr>) s"

lemma with_mutex_sel [simp]:
  "LSR (with_mutex s) = LSR s" "UART_RX (with_mutex s) = UART_RX s" "UART_TX (with_mutex s) = UART_TX s"
  by (simp_all add: with_mutex_def)

lemma io_idle_acquire: "io_idle s \<Longrightarrow> mutex_acquire ws s = Inr (ws, with_mutex s)"
  using mutex_acquire_spec [of s ws] by (auto simp: io_idle_def Mutex_new_def with_mutex_def set_mutex_def split: option.splits)

lemma io_quiet_with_mutex: "io_idle s \<Longrightarrow> io_quiet (with_mutex s)"
  by (simp add: io_idle_def with_mutex_def io_quiet_def Mutex_new_def)

lemma io_idle_release:
  assumes "io_idle s"
  shows "mutex_release ((with_mutex s)\<lparr>LSR := l, UART_RX := r, UART_TX := t\<rparr>) = Inr (s\<lparr>LSR := l, UART_RX := r, UART_TX := t\<rparr>)"
proof -
  let ?s = "(with_mutex s)\<lparr>LSR := l, UART_RX := r, UART_TX := t\<rparr>" and ?t = "s\<lparr>LSR := l, UART_RX := r, UART_TX := t\<rparr>"
  have g: "get_current ?s = get_current s" by (simp add: get_current_def find_by_id_def slot_of_def with_mutex_def set_mutex_def)
  have m: "set_mutex (\<lambda>m. m\<lparr>mlock := False, holder := None\<rparr>) ?s = ?t"
    using assms by (simp add: io_idle_def with_mutex_def set_mutex_def Mutex_new_def)
  have "mutex_release ?s = Inr (wakeup (KERNEL_IO_ADDR ?s) (set_mutex (\<lambda>m. m\<lparr>mlock := False, holder := None\<rparr>) ?s))"
  proof (rule mutex_release_spec)
    show "io_quiet ?s" using io_quiet_with_mutex [OF assms] by simp
    show "mlock (mutex ?s)" by (simp add: with_mutex_def)
    show "holder (mutex ?s) = Some (pid p)" if "get_current ?s = Some p" for p using that unfolding g by (simp add: with_mutex_def)
  qed
  also have "\<dots> = Inr (wakeup (KERNEL_IO_ADDR ?t) ?t)" unfolding m by (simp add: with_mutex_def)
  also have "wakeup (KERNEL_IO_ADDR ?t) ?t = ?t" using assms by (intro wakeup_none) (simp add: io_idle_def no_waiters_def)
  finally show ?thesis .
qed

lemma io_idle_release_tx:
  assumes "io_idle s"
  shows "mutex_release ((with_mutex s)\<lparr>LSR := l, UART_TX := t\<rparr>) = Inr (s\<lparr>LSR := l, UART_TX := t\<rparr>)"
proof -
  have e: "(with_mutex s)\<lparr>LSR := l, UART_RX := UART_RX s, UART_TX := t\<rparr> = (with_mutex s)\<lparr>LSR := l, UART_TX := t\<rparr>"
    by (simp add: with_mutex_def set_mutex_def)
  show ?thesis using io_idle_release [OF assms, where l = l and r = "UART_RX s" and t = t] unfolding e by simp
qed

section \<open>Output\<close>

primrec after_tx :: "nat \<Rightarrow> u32 list \<Rightarrow> u32 list option" where
  "after_tx 0 l = Some l"
| "after_tx (Suc n) l = (case dropWhile (\<lambda>v. v AND 0x20 = 0) l of [] \<Rightarrow> None | v # r \<Rightarrow> after_tx n r)"

definition crlf :: "u8 list \<Rightarrow> u8 list" where
  "crlf bs = concat (map (\<lambda>b. if b = 10 then [13, 10] else [b]) bs)"

lemma after_tx_enough: "n \<le> length (filter (\<lambda>v. v AND 0x20 \<noteq> 0) l) \<Longrightarrow> \<exists>r. after_tx n l = Some r"
proof (induction n arbitrary: l)
  case 0
  then show ?case by simp
next
  case (Suc n)
  have f: "filter (\<lambda>v. v AND 0x20 \<noteq> 0) l = filter (\<lambda>v. v AND 0x20 \<noteq> 0) (dropWhile (\<lambda>v. v AND 0x20 = 0) l)"
    by (induction l) auto
  obtain v r where "dropWhile (\<lambda>v. v AND 0x20 = 0) l = v # r" using Suc.prems f by (cases "dropWhile (\<lambda>v. v AND 0x20 = 0) l") auto
  then show ?case using Suc.IH [of r] Suc.prems f by (auto split: if_splits)
qed

lemma write_bytes_spec:
  "io_quiet s \<Longrightarrow> after_tx (length bs) (LSR s) = Some l \<Longrightarrow>
   for_halt write_byte bs s = Inr (s\<lparr>LSR := l, UART_TX := UART_TX s @ map ucast bs\<rparr>)"
proof (induction bs arbitrary: s)
  case Nil
  then show ?case by simp
next
  case (Cons b bs)
  then obtain v r where d: "dropWhile (\<lambda>v. v AND 0x20 = 0) (LSR s) = v # r" "after_tx (length bs) r = Some l"
    by (auto split: list.splits)
  have "for_halt write_byte bs (s\<lparr>LSR := r, UART_TX := UART_TX s @ [ucast b]\<rparr>)
      = Inr (s\<lparr>LSR := l, UART_TX := UART_TX s @ [ucast b] @ map ucast bs\<rparr>)"
    using Cons.prems(1) d(2) Cons.IH [of "s\<lparr>LSR := r, UART_TX := UART_TX s @ [ucast b]\<rparr>"] by simp
  then show ?case using write_byte_spec [OF Cons.prems(1) d(1), of b] by simp
qed

lemma write_crlf_bytes: "for_halt write_crlf bs s = for_halt write_byte (crlf bs) s"
proof (induction bs arbitrary: s)
  case Nil
  then show ?case by (simp add: crlf_def)
next
  case (Cons b bs)
  have "write_crlf b s = for_halt write_byte (if b = 10 then [13, 10] else [b]) s"
    by (auto simp: write_crlf_def kbind_def split: sum.splits)
  moreover have "for_halt write_crlf bs = for_halt write_byte (crlf bs)" using Cons.IH by (rule ext)
  ultimately show ?case by (simp add: crlf_def for_halt_append)
qed

lemma kio_print_spec:
  assumes "io_idle s" "after_tx (length (crlf bs)) (LSR s) = Some l"
  shows "kio_print bs ws s = Inr (ws, s\<lparr>LSR := l, UART_TX := UART_TX s @ map ucast (crlf bs)\<rparr>)"
proof -
  have "for_halt write_crlf bs (with_mutex s) = Inr ((with_mutex s)\<lparr>LSR := l, UART_TX := UART_TX s @ map ucast (crlf bs)\<rparr>)"
    unfolding write_crlf_bytes using write_bytes_spec [OF io_quiet_with_mutex [OF assms(1)], of "crlf bs" l] assms(2) by simp
  then show ?thesis
    using io_idle_release_tx [OF assms(1), where l = l and t = "UART_TX s @ map ucast (crlf bs)"]
    by (simp add: kio_print_def io_idle_acquire [OF assms(1)])
qed

section \<open>Waiting for input\<close>

text \<open>
  \<open>wait_key l ls\<close> follows the polling for one key: \<open>l\<close> are the readings of the line status register until the process sleeps, \<open>ls\<close> those after each time it is woken up. It
  yields what is left of both when a reading shows data. \<open>console_user t\<close>: the current process, whose address space has the root \<open>t\<close>, is in a state in which it may use
  the console and go to sleep on it. \<open>resumes t w l\<close>: whatever happens while it sleeps (\<open>w\<close>), it comes back as such a user with its memory as it was, no
  other process has used the UART, and the readings that follow are \<open>l\<close>.
\<close>

fun wait_key :: "u32 list \<Rightarrow> u32 list list \<Rightarrow> (u32 list \<times> u32 list list) option" where
  "wait_key [] ls = None"
| "wait_key (v # r) [] = (if v AND 1 \<noteq> 0 then Some (r, []) else None)"
| "wait_key (v # r) (l # ls) = (if v AND 1 \<noteq> 0 then Some (r, l # ls) else wait_key l ls)"

definition console_user :: "u64 \<Rightarrow> kstate \<Rightarrow> bool" where
  "console_user t s \<longleftrightarrow> io_idle s \<and> (\<exists>ps. owned (pg s) t ps) \<and> translation_table None (pg s) = t \<and> (\<exists>s'. sleep AWAITING_UART_READ AwaitingIO s = Inr s')"

definition same_memory :: "u64 \<Rightarrow> kstate \<Rightarrow> kstate \<Rightarrow> bool" where
  "same_memory t s s' \<longleftrightarrow> (\<forall>y < 2 ^ 39. umem (pg s') t y = umem (pg s) t y)"

definition resumes :: "u64 \<Rightarrow> (kstate \<Rightarrow> kstate) \<Rightarrow> u32 list \<Rightarrow> bool" where
  "resumes t w l \<longleftrightarrow> (\<forall>s s'. console_user t s \<and> sleep AWAITING_UART_READ AwaitingIO s = Inr s' \<longrightarrow>
     console_user t (w s') \<and> same_memory t s' (w s') \<and> LSR (w s') = l \<and> UART_RX (w s') = UART_RX s' \<and> UART_TX (w s') = UART_TX s')"

lemma sleep_upd:
  "sleep c r (s\<lparr>LSR := l\<rparr>) = map_sum id (\<lambda>s. s\<lparr>LSR := l\<rparr>) (sleep c r s)" "sleep c r (s\<lparr>UART_RX := x\<rparr>) = map_sum id (\<lambda>s. s\<lparr>UART_RX := x\<rparr>) (sleep c r s)"
  "sleep c r (s\<lparr>UART_TX := x\<rparr>) = map_sum id (\<lambda>s. s\<lparr>UART_TX := x\<rparr>) (sleep c r s)" "sleep c r (s\<lparr>pg := g\<rparr>) = map_sum id (\<lambda>s. s\<lparr>pg := g\<rparr>) (sleep c r s)"
  by (simp_all add: sleep_def with_slot_def ptable_get_def update_slot_def kbind_def split: option.splits)

lemma sleep_keeps: "sleep c r s = Inr s' \<Longrightarrow> pg s' = pg s \<and> UART_RX s' = UART_RX s \<and> UART_TX s' = UART_TX s"
  by (auto simp: sleep_def with_slot_def update_slot_def split: option.splits)

lemma map_sum_Inr: "(\<exists>y. map_sum id f r = Inr y) \<longleftrightarrow> (\<exists>y. r = Inr y)"
  by (cases r) auto

lemma console_user_upd [simp]:
  "console_user t (s\<lparr>LSR := l\<rparr>) = console_user t s" "console_user t (s\<lparr>UART_RX := x\<rparr>) = console_user t s" "console_user t (s\<lparr>UART_TX := x\<rparr>) = console_user t s"
  by (simp_all add: console_user_def sleep_upd map_sum_Inr)

lemma same_memory_refl [simp]: "same_memory t s s"
  by (simp add: same_memory_def)

lemma same_memory_trans: "same_memory t s s' \<Longrightarrow> same_memory t s' s'' \<Longrightarrow> same_memory t s s''"
  by (simp add: same_memory_def)

lemma getch_poll_waits:
  assumes "console_user t s" "wait_key (LSR s) ls = Some (l', ls')" "list_all2 (resumes t) ws ls" "UART_RX s = d # ds"
  shows "\<exists>ws' s1. getch_poll ws (with_mutex s) = Inr (ucast (d AND 0xFF), ws', (with_mutex s1)\<lparr>LSR := l', UART_RX := ds\<rparr>)
     \<and> console_user t s1 \<and> same_memory t s s1 \<and> UART_TX s1 = UART_TX s \<and> list_all2 (resumes t) ws' ls'"
  using assms
proof (induction ls arbitrary: ws s)
  case Nil
  then obtain v r where l: "LSR s = v # r" "v AND 1 \<noteq> 0" "l' = r" "ls' = []" by (cases "LSR s") (auto split: if_splits)
  have i: "io_idle s" using Nil.prems(1) by (simp add: console_user_def)
  have "getch_poll ws (with_mutex s) = Inr (ucast (d AND 0xFF), ws, (with_mutex s)\<lparr>LSR := r, UART_RX := ds\<rparr>)"
    using poll_byte_spec [OF io_quiet_with_mutex [OF i], of v r] l Nil.prems(4) by (subst getch_poll.simps) simp
  then show ?case using Nil.prems l by (intro exI [of _ ws] exI [of _ s]) simp
next
  case (Cons m ls)
  obtain v r where l: "LSR s = v # r" using Cons.prems(2) by (cases "LSR s") auto
  have i: "io_idle s" using Cons.prems(1) by (simp add: console_user_def)
  show ?case
  proof (cases "v AND 1 = 0")
    case False
    have "getch_poll ws (with_mutex s) = Inr (ucast (d AND 0xFF), ws, (with_mutex s)\<lparr>LSR := r, UART_RX := ds\<rparr>)"
      using poll_byte_spec [OF io_quiet_with_mutex [OF i], of v r] l False Cons.prems(4) by (subst getch_poll.simps) simp
    then show ?thesis using Cons.prems l False by (intro exI [of _ ws] exI [of _ s]) simp
  next
    case True
    obtain w ws1 where ws: "ws = w # ws1" "resumes t w m" "list_all2 (resumes t) ws1 ls" using Cons.prems(3) by (cases ws) auto
    let ?s = "s\<lparr>LSR := r\<rparr>"
    have u: "console_user t ?s" using Cons.prems(1) by simp
    then obtain s2 where s2: "sleep AWAITING_UART_READ AwaitingIO ?s = Inr s2" by (auto simp: console_user_def)
    note k = sleep_keeps [OF s2]
    have w: "console_user t (w s2)" "same_memory t s2 (w s2)" "LSR (w s2) = m" "UART_RX (w s2) = UART_RX s2" "UART_TX (w s2) = UART_TX s2"
      using ws(2) u s2 unfolding resumes_def by blast+
    have iw: "io_idle (w s2)" using w(1) by (simp add: console_user_def)
    have wk: "wait_key (LSR (w s2)) ls = Some (l', ls')" using Cons.prems(2) l True w(3) by simp
    have rx: "UART_RX (w s2) = d # ds" using w(4) k Cons.prems(4) by simp
    obtain ws' s1 where IH: "getch_poll ws1 (with_mutex (w s2)) = Inr (ucast (d AND 0xFF), ws', (with_mutex s1)\<lparr>LSR := l', UART_RX := ds\<rparr>)"
      "console_user t s1" "same_memory t (w s2) s1" "UART_TX s1 = UART_TX (w s2)" "list_all2 (resumes t) ws' ls'"
      using Cons.IH [OF w(1) wk ws(3) rx] by blast
    have e: "(with_mutex s)\<lparr>LSR := r, UART_TX := UART_TX s\<rparr> = (with_mutex s)\<lparr>LSR := r\<rparr>" "s\<lparr>LSR := r, UART_TX := UART_TX s\<rparr> = ?s"
      by (simp_all add: with_mutex_def set_mutex_def)
    have rel: "mutex_release ((with_mutex s)\<lparr>LSR := r\<rparr>) = Inr ?s" using io_idle_release_tx [OF i, where l = r and t = "UART_TX s"] unfolding e .
    have "getch_poll ws (with_mutex s) = getch_poll ws1 (with_mutex (w s2))"
      using poll_byte_spec [OF io_quiet_with_mutex [OF i], of v r] l True rel s2
      by (subst getch_poll.simps) (simp add: ws(1) svc0_def io_idle_acquire [OF iw])
    moreover have "same_memory t s s1" using same_memory_trans [OF w(2) IH(3)] k by (simp add: same_memory_def)
    moreover have "UART_TX s1 = UART_TX s" using IH(4) w(5) k by simp
    ultimately show ?thesis using IH by auto
  qed
qed

lemma ucast_key: "ucast ((ucast (k :: u8) :: u32) AND 0xFF) = k"
proof -
  have m: "(0xFF :: u32) = mask 8" by (simp add: mask_eq_exp_minus_1)
  show ?thesis unfolding m by (intro bit_word_eqI) (simp add: bit_simps)
qed

definition took :: "u32 list \<Rightarrow> u32 list \<Rightarrow> u32 list \<Rightarrow> kstate \<Rightarrow> kstate" where
  "took l ds e s = s\<lparr>LSR := l, UART_RX := ds, UART_TX := UART_TX s @ e\<rparr>"

lemma took_sel [simp]:
  "LSR (took l ds e s) = l" "UART_RX (took l ds e s) = ds" "UART_TX (took l ds e s) = UART_TX s @ e"
  "pg (took l ds e s) = pg s" "io_idle (took l ds e s) = io_idle s" "console_user t (took l ds e s) = console_user t s"
  "same_memory t s (took l ds e s') = same_memory t s s'"
  by (simp_all add: took_def same_memory_def)

text \<open>What \<^verbatim>\<open>getch\<close> itself echoes for a key.\<close>

definition key_echo :: "u8 \<Rightarrow> u8 list" where
  "key_echo k = (if k = 8 \<or> k = 127 \<or> k = 10 then [] else if k = 13 then [10] else [k])"

lemma getch_waits:
  assumes "console_user t s" "wait_key (LSR s) ls = Some (l1, ls1)" "list_all2 (resumes t) ws ls" "UART_RX s = ucast k # ds"
    "after_tx (length (key_echo k)) l1 = Some l2"
  shows "\<exists>ws' s1. console_user t s1 \<and> same_memory t s s1 \<and> UART_TX s1 = UART_TX s \<and> list_all2 (resumes t) ws' ls1
     \<and> getch ws s = (if k = 10 then getch ws' (took l2 ds [] s1) else Inr (if k = 13 then 10 else k, ws', took l2 ds (map ucast (key_echo k)) s1))"
proof -
  obtain ws' s1 where p: "getch_poll ws (with_mutex s) = Inr (k, ws', (with_mutex s1)\<lparr>LSR := l1, UART_RX := ds\<rparr>)"
    and s1: "console_user t s1" "same_memory t s s1" "UART_TX s1 = UART_TX s" "list_all2 (resumes t) ws' ls1"
    using getch_poll_waits [OF assms(1-4)] unfolding ucast_key by blast
  have i: "io_idle s" "io_idle s1" using assms(1) s1(1) by (simp_all add: console_user_def)
  let ?m = "(with_mutex s1)\<lparr>LSR := l1, UART_RX := ds\<rparr>"
  have q: "io_quiet ?m" using io_quiet_with_mutex [OF i(2)] by simp
  have rel: "mutex_release ((with_mutex s1)\<lparr>LSR := l, UART_RX := ds, UART_TX := UART_TX s1 @ e\<rparr>) = Inr (took l ds e s1)" for l e
    using io_idle_release [OF i(2), where l = l and r = ds and t = "UART_TX s1 @ e"] by (simp add: took_def)
  show ?thesis
  proof (cases "key_echo k = []")
    case True
    then have k: "k = 8 \<or> k = 127 \<or> k = 10" "l2 = l1" using assms(5) by (auto simp: key_echo_def split: if_splits)
    have e: "(with_mutex s1)\<lparr>LSR := l1, UART_RX := ds, UART_TX := UART_TX s1 @ []\<rparr> = ?m" by (simp add: with_mutex_def set_mutex_def)
    have "mutex_release ?m = Inr (took l1 ds [] s1)" using rel [where l = l1 and e = "[]"] unfolding e .
    then show ?thesis using k s1 True
      by (intro exI [of _ ws'] exI [of _ s1]) (subst getch.simps, auto simp add: io_idle_acquire [OF i(1)] p)
  next
    case False
    then have k: "k \<noteq> 8" "k \<noteq> 127" "k \<noteq> 10" "key_echo k = [if k = 13 then 10 else k]" by (auto simp: key_echo_def split: if_splits)
    then obtain v where v: "dropWhile (\<lambda>v. v AND 0x20 = 0) l1 = v # l2" using assms(5) by (auto split: list.splits)
    have w: "write_byte b ?m = Inr ((with_mutex s1)\<lparr>LSR := l2, UART_RX := ds, UART_TX := UART_TX s1 @ [ucast b]\<rparr>)" for b
      using write_byte_spec [OF q, of v l2 b] v by simp
    show ?thesis using k s1 w [of 10] w [of k] rel [where l = l2 and e = "[10]"] rel [where l = l2 and e = "[ucast k]"]
      by (intro exI [of _ ws'] exI [of _ s1]) (subst getch.simps, auto simp add: io_idle_acquire [OF i(1)] p)
  qed
qed

section \<open>The line editor\<close>

text \<open>
  \<open>line_edit n acc keys\<close>: the line that typing \<open>keys\<close> produces in a buffer of \<open>n\<close> bytes that holds \<open>acc\<close>, with the keys left over and the bytes echoed;
  none when the line is not yet complete.
\<close>

fun line_edit :: "nat \<Rightarrow> u8 list \<Rightarrow> u8 list \<Rightarrow> (u8 list \<times> u8 list \<times> u8 list) option" where
  "line_edit n acc ks =
     (if length acc < n then
        (case ks of
           [] \<Rightarrow> None
         | k # ks' \<Rightarrow>
             if k = 8 \<or> k = 127 then
               (if acc = [] then line_edit n acc ks'
                else map_option (\<lambda>(l, r, e). (l, r, [8, 32, 8] @ e)) (line_edit n (butlast acc) ks'))
             else if k = 13 then Some (acc @ [10], ks', [10])
             else if k = 10 then line_edit n acc ks'
             else map_option (\<lambda>(l, r, e). (l, r, k # e)) (line_edit n (acc @ [k]) ks'))
      else Some (acc, ks, []))"

declare line_edit.simps [simp del]

lemma kstore_user:
  assumes "owned (pg s) t ps" "translation_table None (pg s) = t" "x < 2 ^ 39" "mapped (of_nat x) t (pg s)"
  shows "\<exists>g. kstore (of_nat x) b s = Inr (s\<lparr>pg := g\<rparr>) \<and> owned g t ps \<and> translation_table None g = t
     \<and> (\<forall>va. mapped va t g = mapped va t (pg s)) \<and> (\<forall>y < 2 ^ 39. umem g t y = (if y = x then Some b else umem (pg s) t y))"
proof -
  obtain a where a: "ttbr0_to_ttbr1 (of_nat x) (Some t) (pg s) = Some a" using assms(4) by (auto simp: ttbr0_to_ttbr1_def)
  have n: "x mod 4096 + length [b] \<le> 4096" by simp
  note u = umem_put [OF assms(1,3) n a]
  have p: "put_bytes m a [b] = m(a := b)" for m by (rule ext) (auto simp: put_bytes_def unat_eq_0)
  have "of_nat x < (0x8000000000 :: u64)" using assms(3) by (simp add: word_less_nat_alt unat_small)
  moreover have "ttbr0_to_ttbr1 (of_nat x) None (pg s) = Some a" using a assms(2) by (simp add: ttbr0_to_ttbr1_def ttbr0_to_pa_node translation_table_def)
  ultimately have "kstore (of_nat x) b s = Inr (s\<lparr>pg := (pg s)\<lparr>ram := put_bytes (ram (pg s)) a [b]\<rparr>\<rparr>)"
    by (simp add: kstore_def mmu_def p)
  then show ?thesis using u assms(2)
    by (intro exI [of _ "(pg s)\<lparr>ram := put_bytes (ram (pg s)) a [b]\<rparr>"]) (auto simp: translation_table_def)
qed

lemma erase_echo:
  assumes "io_idle s" "after_tx 3 (LSR s) = Some l"
  shows "kbind (mutex_acquire ws s) (\<lambda>(ws, s). kbind (write_byte 8 s) (\<lambda>s. kbind (write_byte 32 s) (\<lambda>s.
      kbind (write_byte 8 s) (\<lambda>s. kbind (mutex_release s) (\<lambda>s. f ws s))))) = f ws (took l (UART_RX s) [8, 32, 8] s)"
proof -
  have "for_halt write_byte [8, 32, 8] (with_mutex s) = Inr ((with_mutex s)\<lparr>LSR := l, UART_TX := UART_TX s @ [8, 32, 8]\<rparr>)"
    using write_bytes_spec [OF io_quiet_with_mutex [OF assms(1)], of "[8, 32, 8]" l] assms(2)
    by (simp del: after_tx.simps for_halt.simps add: numeral_3_eq_3)
  then obtain s1 s2 where w: "write_byte 8 (with_mutex s) = Inr s1" "write_byte 32 s1 = Inr s2"
    "write_byte 8 s2 = Inr ((with_mutex s)\<lparr>LSR := l, UART_TX := UART_TX s @ [8, 32, 8]\<rparr>)" by auto
  show ?thesis
    by (simp add: io_idle_acquire [OF assms(1)] w io_idle_release_tx [OF assms(1)] took_def)
qed

text \<open>
  \<open>reading b n acc t s\<close>: the line \<open>acc\<close> stands in the buffer of \<open>n\<close> bytes at \<open>b\<close> of the address space \<open>t\<close>. \<open>edit_key\<close> is the effect of one key that does not
  end the line, with its echo. \<open>line_io\<close> is the timing of the editor: for every key it waits until the UART has data, then for one moment at which it can send for each byte
  echoed; it yields the readings that are left.
\<close>

definition reading :: "nat \<Rightarrow> nat \<Rightarrow> u8 list \<Rightarrow> u64 \<Rightarrow> kstate \<Rightarrow> bool" where
  "reading b n acc t s \<longleftrightarrow> console_user t s \<and> b + n \<le> 2 ^ 39 \<and> (\<forall>x. b \<le> x \<and> x < b + n \<longrightarrow> umem (pg s) t x \<noteq> None)
     \<and> (\<forall>i < length acc. umem (pg s) t (b + i) = Some (acc ! i)) \<and> length acc \<le> n"

definition elsewhere :: "nat \<Rightarrow> nat \<Rightarrow> u64 \<Rightarrow> kstate \<Rightarrow> kstate \<Rightarrow> bool" where
  "elsewhere b n t s s' \<longleftrightarrow> (\<forall>y < 2 ^ 39. \<not> (b \<le> y \<and> y < b + n) \<longrightarrow> umem (pg s') t y = umem (pg s) t y)"

definition edit_key :: "u8 list \<Rightarrow> u8 \<Rightarrow> u8 list \<times> u8 list" where
  "edit_key acc k = (if k = 8 \<or> k = 127 then (if acc = [] then ([], []) else (butlast acc, [8, 32, 8])) else if k = 10 then (acc, []) else (acc @ [k], [k]))"

lemma line_edit_key:
  assumes "length acc < n" "k \<noteq> 13"
  shows "line_edit n acc (k # ks) = map_option (\<lambda>(l, r, e). (l, r, snd (edit_key acc k) @ e)) (line_edit n (fst (edit_key acc k)) ks)"
  using assms by (subst line_edit.simps) (simp add: edit_key_def option.map_id0 case_prod_beta)

primrec line_io :: "nat \<Rightarrow> u8 list \<Rightarrow> u8 list \<Rightarrow> u32 list \<Rightarrow> u32 list list \<Rightarrow> (u32 list \<times> u32 list list) option" where
  "line_io n acc [] l ls = (if length acc < n then None else Some (l, ls))"
| "line_io n acc (k # ks) l ls =
     (if length acc < n then
        Option.bind (wait_key l ls) (\<lambda>(l, ls).
        let (acc', e) = (if k = 13 then (acc @ [10], [10]) else edit_key acc k) in
        Option.bind (after_tx (length e) l) (\<lambda>l. if k = 13 then Some (l, ls) else line_io n acc' ks l ls))
      else Some (l, ls))"

lemma reading_took [simp]: "reading b n acc t (took l ds e s) = reading b n acc t s"
  by (simp add: reading_def)

lemma elsewhere_took [simp]: "elsewhere b n t s (took l ds e s') = elsewhere b n t s s'" "elsewhere b n t s s"
  by (simp_all add: elsewhere_def)

lemma elsewhere_trans: "elsewhere b n t s s' \<Longrightarrow> elsewhere b n t s' s'' \<Longrightarrow> elsewhere b n t s s''"
  by (simp add: elsewhere_def)

lemma reading_resumed:
  assumes "reading b n acc t s" "console_user t s'" "same_memory t s s'"
  shows "reading b n acc t s'" "elsewhere b n t s s'"
  using assms by (simp_all add: reading_def same_memory_def elsewhere_def)

lemma reading_store:
  assumes "reading b n acc t s" "length acc < n"
  shows "\<exists>g. kstore (of_nat b + of_nat (length acc)) c s = Inr (s\<lparr>pg := g\<rparr>) \<and> reading b n (acc @ [c]) t (s\<lparr>pg := g\<rparr>) \<and> elsewhere b n t s (s\<lparr>pg := g\<rparr>)"
proof -
  have x: "b + length acc < 2 ^ 39" "umem (pg s) t (b + length acc) \<noteq> None" using assms by (simp_all add: reading_def)
  then have "mapped (of_nat (b + length acc)) t (pg s)" by (simp add: umem_def del: of_nat_add)
  moreover obtain ps where "owned (pg s) t ps" "translation_table None (pg s) = t" using assms(1) by (auto simp: reading_def console_user_def)
  ultimately have r: "owned (pg s) t ps" "translation_table None (pg s) = t" "b + length acc < 2 ^ 39" "mapped (of_nat (b + length acc)) t (pg s)"
    using x(1) by simp_all
  from kstore_user [OF r, of c] obtain g where g: "kstore (of_nat (b + length acc)) c s = Inr (s\<lparr>pg := g\<rparr>)" "owned g t ps" "translation_table None g = t"
    "\<forall>y < 2 ^ 39. umem g t y = (if y = b + length acc then Some c else umem (pg s) t y)" by blast
  have "console_user t (s\<lparr>pg := g\<rparr>)" using assms(1) g(2,3) by (auto simp: reading_def console_user_def sleep_upd)
  then show ?thesis using assms g
    by (intro exI [of _ g]) (auto simp: reading_def elsewhere_def less_Suc_eq nth_append)
qed

lemma read_loop_step:
  "length acc < n \<Longrightarrow> getch ws s = Inr (c, ws, s') \<Longrightarrow> c \<noteq> 8 \<Longrightarrow> c \<noteq> 127 \<Longrightarrow> kstore (of_nat b + of_nat (length acc)) c s' = Inr s'' \<Longrightarrow>
   read_loop (of_nat b) n (length acc) ws s = (if c = 10 then Inr (length acc + 1, ws, s'') else read_loop (of_nat b) n (length acc + 1) ws s'')"
  by (subst read_loop.simps) simp

lemma read_key_end:
  assumes "reading b n acc t s" "length acc < n" "wait_key (LSR s) ls = Some (l1, ls1)" "list_all2 (resumes t) ws ls" "UART_RX s = ucast (13 :: u8) # ds"
    "after_tx 1 l1 = Some l2"
  shows "\<exists>ws' s'. read_loop (of_nat b) n (length acc) ws s = Inr (length (acc @ [10]), ws', s') \<and> reading b n (acc @ [10]) t s' \<and> elsewhere b n t s s'
     \<and> LSR s' = l2 \<and> UART_RX s' = ds \<and> UART_TX s' = UART_TX s @ [10] \<and> list_all2 (resumes t) ws' ls1"
proof -
  have u: "console_user t s" and tx: "after_tx (length (key_echo 13)) l1 = Some l2" using assms(1,6) by (simp_all add: reading_def key_echo_def)
  obtain ws' s1 where s1: "console_user t s1" "same_memory t s s1" "UART_TX s1 = UART_TX s" "list_all2 (resumes t) ws' ls1"
    and g: "getch ws s = Inr (10, ws', took l2 ds [10] s1)"
    using getch_waits [OF u assms(3,4,5) tx] by (auto simp: key_echo_def)
  let ?s = "took l2 ds [10] s1"
  note r = reading_resumed [OF assms(1) s1(1,2)]
  obtain g' where g': "kstore (of_nat b + of_nat (length acc)) 10 ?s = Inr (?s\<lparr>pg := g'\<rparr>)" "reading b n (acc @ [10]) t (?s\<lparr>pg := g'\<rparr>)" "elsewhere b n t ?s (?s\<lparr>pg := g'\<rparr>)"
    using reading_store [of b n acc t ?s 10] r(1) assms(2) by auto
  have "elsewhere b n t s (?s\<lparr>pg := g'\<rparr>)" using r(2) g'(3) by (simp add: elsewhere_def)
  moreover have "read_loop (of_nat b) n (length acc) ws s = Inr (length (acc @ [10]), ws', ?s\<lparr>pg := g'\<rparr>)"
    using g g'(1) assms(2) by (subst read_loop.simps) simp
  ultimately show ?thesis using g'(2) s1(3,4) by (intro exI [of _ ws'] exI [of _ "?s\<lparr>pg := g'\<rparr>"]) simp
qed

lemma read_key:
  assumes "reading b n acc t s" "length acc < n" "wait_key (LSR s) ls = Some (l1, ls1)" "list_all2 (resumes t) ws ls" "UART_RX s = ucast k # ds" "k \<noteq> 13"
    "edit_key acc k = (acc', e)" "after_tx (length e) l1 = Some l2"
  shows "\<exists>ws' s'. read_loop (of_nat b) n (length acc) ws s = read_loop (of_nat b) n (length acc') ws' s' \<and> reading b n acc' t s' \<and> elsewhere b n t s s'
     \<and> LSR s' = l2 \<and> UART_RX s' = ds \<and> UART_TX s' = UART_TX s @ map ucast e \<and> list_all2 (resumes t) ws' ls1"
proof -
  have u: "console_user t s" using assms(1) by (simp add: reading_def)
  consider (none) "k = 10 \<or> acc = [] \<and> (k = 8 \<or> k = 127)" | (erase) "k = 8 \<or> k = 127" "acc \<noteq> []" | (char) "k \<notin> {8, 127, 13, 10}" using assms(6) by blast
  then show ?thesis
  proof cases
    case none
    then have ek: "acc' = acc" "e = []" "key_echo k = []" "l2 = l1" using assms(7,8) by (auto simp: edit_key_def key_echo_def)
    then have tx: "after_tx (length (key_echo k)) l1 = Some l1" by simp
    obtain ws' s1 where s1: "console_user t s1" "same_memory t s s1" "UART_TX s1 = UART_TX s" "list_all2 (resumes t) ws' ls1"
      and g: "getch ws s = (if k = 10 then getch ws' (took l1 ds [] s1) else Inr (k, ws', took l1 ds [] s1))"
      using getch_waits [OF u assms(3-5) tx] ek(3) assms(6) by auto
    note r = reading_resumed [OF assms(1) s1(1,2)]
    have "read_loop (of_nat b) n (length acc) ws s = read_loop (of_nat b) n (length acc) ws' (took l1 ds [] s1)"
    proof (cases "k = 10")
      case True
      then show ?thesis using g assms(2) by (subst (1 2) read_loop.simps) simp
    next
      case False
      then show ?thesis using g assms(2) none by (subst read_loop.simps) auto
    qed
    then show ?thesis using r s1 ek by (intro exI [of _ ws'] exI [of _ "took l1 ds [] s1"]) simp
  next
    case erase
    then have ek: "acc' = butlast acc" "e = [8, 32, 8]" using assms(7) by (auto simp: edit_key_def)
    have tx: "after_tx (length (key_echo k)) l1 = Some l1" using erase by (auto simp: key_echo_def)
    obtain ws' s1 where s1: "console_user t s1" "same_memory t s s1" "UART_TX s1 = UART_TX s" "list_all2 (resumes t) ws' ls1"
      and g: "getch ws s = Inr (k, ws', took l1 ds [] s1)"
      using getch_waits [OF u assms(3-5) tx] erase(1) by (auto simp: key_echo_def)
    note r = reading_resumed [OF assms(1) s1(1,2)]
    let ?s = "took l1 ds [] s1"
    have i: "io_idle ?s" "after_tx 3 (LSR ?s) = Some l2" using s1(1) assms(8) ek(2) by (simp_all add: console_user_def numeral_3_eq_3)
    have "took l2 (UART_RX ?s) [8, 32, 8] ?s = took l2 ds [8, 32, 8] s1" by (simp add: took_def)
    from erase_echo [OF i, of ws' "\<lambda>ws s. read_loop (of_nat b) n (length acc - 1) ws s", unfolded this]
    have "read_loop (of_nat b) n (length acc) ws s = read_loop (of_nat b) n (length (butlast acc)) ws' (took l2 ds [8, 32, 8] s1)"
      using g assms(2) erase by (subst read_loop.simps) simp
    moreover have "reading b n (butlast acc) t s1" using r(1) by (auto simp: reading_def nth_butlast)
    ultimately show ?thesis using r(2) s1 ek by (intro exI [of _ ws'] exI [of _ "took l2 ds [8, 32, 8] s1"]) simp
  next
    case char
    then have ek: "acc' = acc @ [k]" "e = [k]" "key_echo k = [k]" using assms(7) by (auto simp: edit_key_def key_echo_def)
    then have tx: "after_tx (length (key_echo k)) l1 = Some l2" using assms(8) by simp
    obtain ws' s1 where s1: "console_user t s1" "same_memory t s s1" "UART_TX s1 = UART_TX s" "list_all2 (resumes t) ws' ls1"
      and g: "getch ws s = Inr (k, ws', took l2 ds [ucast k] s1)"
      using getch_waits [OF u assms(3-5) tx] char ek(3) by auto
    note r = reading_resumed [OF assms(1) s1(1,2)]
    let ?s = "took l2 ds [ucast k] s1"
    obtain g' where g': "kstore (of_nat b + of_nat (length acc)) k ?s = Inr (?s\<lparr>pg := g'\<rparr>)" "reading b n (acc @ [k]) t (?s\<lparr>pg := g'\<rparr>)" "elsewhere b n t ?s (?s\<lparr>pg := g'\<rparr>)"
      using reading_store [of b n acc t ?s k] r(1) assms(2) by auto
    have "elsewhere b n t s (?s\<lparr>pg := g'\<rparr>)" using r(2) g'(3) by (simp add: elsewhere_def)
    moreover have "read_loop (of_nat b) n (length acc) ws s = read_loop (of_nat b) n (length (acc @ [k])) ws' (?s\<lparr>pg := g'\<rparr>)"
      using g g'(1) assms(2) char by (subst read_loop.simps) simp
    ultimately show ?thesis using g'(2) s1(3,4) ek by (intro exI [of _ ws'] exI [of _ "?s\<lparr>pg := g'\<rparr>"]) simp
  qed
qed

lemma read_loop_spec:
  assumes "line_edit n acc ks = Some (line, rest, echo)" "line_io n acc ks (LSR s) ls = Some (l', ls')" "reading b n acc t s" "UART_RX s = map ucast ks"
    "list_all2 (resumes t) ws ls"
  shows "\<exists>ws' s'. read_loop (of_nat b) n (length acc) ws s = Inr (length line, ws', s') \<and> reading b n line t s' \<and> elsewhere b n t s s'
     \<and> LSR s' = l' \<and> UART_RX s' = map ucast rest \<and> UART_TX s' = UART_TX s @ map ucast echo \<and> list_all2 (resumes t) ws' ls'"
  using assms
proof (induction ks arbitrary: acc s echo ls ws)
  case Nil
  then show ?case by (subst read_loop.simps) (auto simp: line_edit.simps [of n acc "[]"] split: if_splits)
next
  case (Cons k ks)
  have rx: "UART_RX s = ucast k # map ucast ks" using Cons.prems(4) by simp
  consider (full) "\<not> length acc < n" | (ret) "length acc < n" "k = 13" | (key) "length acc < n" "k \<noteq> 13" by blast
  then show ?case
  proof cases
    case full
    then show ?thesis using Cons.prems by (subst read_loop.simps) (auto simp: line_edit.simps [of n acc "k # ks"])
  next
    case ret
    then have e: "line = acc @ [10]" "rest = ks" "echo = [10]" using Cons.prems(1) [unfolded line_edit.simps [of n acc "k # ks"]] by auto
    obtain l1 where "wait_key (LSR s) ls = Some (l1, ls')" "after_tx 1 l1 = Some l'"
      using Cons.prems(2) ret by (auto simp: bind_eq_Some_conv simp del: after_tx.simps)
    from read_key_end [OF Cons.prems(3) ret(1) this(1) Cons.prems(5) _ this(2), of "map ucast ks"] show ?thesis using rx ret(2) e by simp
  next
    case key
    obtain acc' e where ek: "edit_key acc k = (acc', e)" by force
    obtain echo' where ed: "line_edit n acc' ks = Some (line, rest, echo')" "echo = e @ echo'" using Cons.prems(1) line_edit_key [OF key] ek by auto
    obtain l1 ls1 l2 where io: "wait_key (LSR s) ls = Some (l1, ls1)" "after_tx (length e) l1 = Some l2" "line_io n acc' ks l2 ls1 = Some (l', ls')"
      using Cons.prems(2) key ek by (auto simp: bind_eq_Some_conv)
    obtain ws1 s1 where s1: "read_loop (of_nat b) n (length acc) ws s = read_loop (of_nat b) n (length acc') ws1 s1" "reading b n acc' t s1"
      "elsewhere b n t s s1" "LSR s1 = l2" "UART_RX s1 = map ucast ks" "UART_TX s1 = UART_TX s @ map ucast e" "list_all2 (resumes t) ws1 ls1"
      using read_key [OF Cons.prems(3) key(1) io(1) Cons.prems(5) rx key(2) ek io(2)] by blast
    have "line_io n acc' ks (LSR s1) ls1 = Some (l', ls')" using io(3) s1(4) by simp
    from Cons.IH [OF ed(1) this s1(2,5,7)] show ?thesis unfolding s1(1) ed(2) using s1(3,6) elsewhere_trans by fastforce
  qed
qed

section \<open>Properties\<close>

text \<open>C30. Printing: with the I/O mutex free and enough moments at which the UART can take a byte, \<^verbatim>\<open>print!\<close> returns after sending exactly the given bytes,
  in order, with a carriage return before each newline, and changes nothing else: the mutex is free again and no process is affected.\<close>

theorem print_correct:
  assumes "io_idle s" "length (crlf bs) \<le> length (filter (\<lambda>v. v AND 0x20 \<noteq> 0) (LSR s))"
  shows "\<exists>l. kio_print bs ws s = Inr (ws, s\<lparr>LSR := l, UART_TX := UART_TX s @ map ucast (crlf bs)\<rparr>)"
  using kio_print_spec [OF assms(1)] after_tx_enough [OF assms(2)] by blast

lemma lone_io: "io_idle (lone Running c l)"
  by (auto simp: io_idle_def io_quiet_def no_waiters_def kcpu_def lone_def lone_process_def boot_state_def boot_cpu_def is_irq_enabled_def
      KernelIO_new_def Mutex_new_def Uart_new_def)

theorem print_correct_witness:
  "\<exists>l. kio_print [0x68, 10] [] (lone Running 0 [0, 0x20, 0x60, 1, 0x21])
     = Inr ([], (lone Running 0 [0, 0x20, 0x60, 1, 0x21])\<lparr>LSR := l, UART_TX := [0x68, 13, 10]\<rparr>)"
  using print_correct [OF lone_io, of "[0x68, 10]" 0 "[0, 0x20, 0x60, 1, 0x21]" "[]"]
  by (simp add: crlf_def lone_inv) (simp add: lone_def boot_state_def)

lemma line_edit_length: "line_edit n acc ks = Some (l, r, e) \<Longrightarrow> length acc \<le> n \<Longrightarrow> length l \<le> n"
proof (induction ks arbitrary: acc e)
  case Nil
  then show ?case by (auto simp: line_edit.simps [of n acc "[]"] split: if_splits)
next
  case (Cons k ks)
  note u = Cons.prems(1) [unfolded line_edit.simps [of n acc "k # ks"]]
  show ?case using u Cons.prems(2) Cons.IH [of acc] Cons.IH [of "butlast acc"] Cons.IH [of "acc @ [k]"] by (auto split: if_splits)
qed

text \<open>C29. Reading a line is the pure line editor, however often the process has to wait. Given the keys typed while the buffer is being filled, and a device that, over
  all the times the process sleeps and is woken up (with no data, or with data), shows them one by one and can send the echo, \<^verbatim>\<open>KERNEL_IO.read\<close> returns the
  length of the line that the editor yields. The caller's buffer holds that line, the keys after it stay in the UART, the echo is what the editor echoes, exactly the
  status readings and wake-ups that the timing needs are used, the mutex is free again, and memory outside the buffer is unchanged. Assumed is that no other process
  uses the console or this process's memory while it sleeps. Backspace at the start of the line has no effect and nothing is ever stored beyond the buffer.\<close>

theorem read_line_correct:
  assumes "line_edit n [] keys = Some (line, rest, echo)" "line_io n [] keys (LSR s) ls = Some (l', ls')" "UART_RX s = map ucast keys"
    "console_user t s" "list_all2 (resumes t) ws ls" "b + n \<le> 2 ^ 39" "\<forall>x. b \<le> x \<and> x < b + n \<longrightarrow> umem (pg s) t x \<noteq> None"
  shows "\<exists>s' ws'. kio_read (of_nat b) n ws s = Inr (length line, ws', s') \<and> io_idle s' \<and> length line \<le> n
     \<and> (\<forall>i < length line. umem (pg s') t (b + i) = Some (line ! i)) \<and> (\<forall>y < 2 ^ 39. \<not> (b \<le> y \<and> y < b + n) \<longrightarrow> umem (pg s') t y = umem (pg s) t y)
     \<and> UART_RX s' = map ucast rest \<and> UART_TX s' = UART_TX s @ map ucast echo \<and> LSR s' = l' \<and> length ws' = length ls'"
proof -
  have "length line \<le> n" using line_edit_length [OF assms(1)] by simp
  moreover have "reading b n [] t s" using assms(4,6,7) by (simp add: reading_def)
  ultimately show ?thesis using read_loop_spec [OF assms(1,2) _ assms(3,5), of b]
    by (auto simp: kio_read_def reading_def console_user_def elsewhere_def dest: list_all2_lengthD)
qed

text \<open>A wake-up after which the process runs again and the readings \<open>l\<close> follow.\<close>

definition woken :: "u32 list \<Rightarrow> kstate \<Rightarrow> kstate" where
  "woken l s = (update_slot (CURRENT_PROCESS s) (\<lambda>p. (set_state Running p)\<lparr>block_reason := None, chan := 0\<rparr>) s)\<lparr>LSR := l\<rparr>"

lemma woken_resumes: "resumes t (woken l) l"
  unfolding resumes_def
proof (intro allI impI, elim conjE)
  fix s s' assume u: "console_user t s" and sl: "sleep AWAITING_UART_READ AwaitingIO s = Inr s'"
  define c where "c = CURRENT_PROCESS s"
  obtain p where p: "c < length (PROCESS_TABLE s)" "PROCESS_TABLE s ! c = Some p"
    "s' = s\<lparr>PROCESS_TABLE := (PROCESS_TABLE s)[c := Some (p\<lparr>chan := AWAITING_UART_READ, block_reason := Some AwaitingIO\<rparr>)]\<rparr>"
    using sl by (auto simp: c_def sleep_def with_slot_def ptable_get_def update_slot_def split: option.splits if_splits)
  let ?w = "woken l s'" and ?p = "(set_state Running p)\<lparr>block_reason := None, chan := 0\<rparr>"
  have w: "?w = s\<lparr>PROCESS_TABLE := (PROCESS_TABLE s)[c := Some ?p], LSR := l\<rparr>"
    using p by (simp add: woken_def update_slot_def c_def set_state_def)
  have "io_idle s" using u by (simp add: console_user_def)
  then have "io_idle ?w" unfolding w using p(1) by (auto simp: io_idle_def no_waiters_def set_state_def dest!: set_update_subset_insert [THEN subsetD])
  moreover have "\<exists>s1. sleep AWAITING_UART_READ AwaitingIO ?w = Inr s1" unfolding w using p(1) by (simp add: sleep_def with_slot_def ptable_get_def c_def)
  moreover have "pg ?w = pg s" "LSR ?w = l" "UART_RX ?w = UART_RX s" "UART_TX ?w = UART_TX s" unfolding w by simp_all
  moreover have "pg s' = pg s" "UART_RX s' = UART_RX s" "UART_TX s' = UART_TX s" unfolding p(3) by simp_all
  ultimately show "console_user t ?w \<and> same_memory t s' ?w \<and> LSR ?w = l \<and> UART_RX ?w = UART_RX s' \<and> UART_TX ?w = UART_TX s'"
    using u by (simp add: console_user_def same_memory_def)
qed

theorem read_line_correct_witness:
  "\<exists>s s' t. kio_read 0x400ff0 8 [woken [0], woken [1, 0x20, 1, 0x20, 0x20, 0, 0x20, 1, 1, 0x20, 1, 0x20, 0x60]] s = Inr (2, [], s') \<and> umem (pg s') t 0x400ff0 = Some 0x62 \<and> umem (pg s') t 0x400ff1 = Some 10
     \<and> UART_RX s = map ucast [0x61, 8, 8, 0x62, 13 :: u8] \<and> LSR s = [0x20]"
proof -
  obtain g ps where g: "owned g 0x107000 ps" "\<forall>x. 0x400000 \<le> x \<and> x < 0x401000 \<longrightarrow> mapped (of_nat x) 0x107000 g" using demo_page by blast
  let ?g = "g\<lparr>ttbr0_el1 := 0x107000\<rparr>" and ?keys = "[0x61, 8, 8, 0x62, 13 :: u8]"
  let ?later = "[1, 0x20, 1, 0x20, 0x20, 0, 0x20, 1, 1, 0x20, 1, 0x20, 0x60] :: u32 list"
  let ?s = "(lone Running 0 [0x20])\<lparr>UART_RX := map ucast ?keys, pg := ?g\<rparr>"
  have o: "owned (pg ?s) 0x107000 ps" using g(1) by (simp add: owned_def pool_def)
  have e: "line_edit 8 [] ?keys = Some ([0x62, 10], [], [0x61, 8, 32, 8, 0x62, 10])" by (simp add: line_edit.simps)
  have w: "line_io 8 [] ?keys (LSR ?s) [[0], ?later] = Some ([0x60], [])"
    by (simp add: lone_inv edit_key_def)
  have m: "\<forall>x. 0x400ff0 \<le> x \<and> x < 0x400ff0 + 8 \<longrightarrow> umem (pg ?s) 0x107000 x \<noteq> None"
    using g(2) by (simp add: umem_def ttbr0_to_pa_node translation_table_def)
  have t: "translation_table None (pg ?s) = 0x107000" by (simp add: translation_table_def PA_MASK_def)
  have "\<exists>s1. sleep AWAITING_UART_READ AwaitingIO ?s = Inr s1" by (simp add: sleep_def with_slot_def ptable_get_def lone_def)
  then have u: "console_user 0x107000 ?s" using lone_io [of 0 "[0x20]"] o t unfolding console_user_def by auto
  have l: "list_all2 (resumes 0x107000) [woken [0], woken ?later] [[0], ?later]" by (simp add: woken_resumes)
  from read_line_correct [OF e w _ u l _ m] obtain s' where s': "kio_read (of_nat 0x400ff0) 8 [woken [0], woken ?later] ?s = Inr (length [0x62 :: u8, 10], [], s')"
    "\<forall>i < length [0x62 :: u8, 10]. umem (pg s') 0x107000 (0x400ff0 + i) = Some ([0x62, 10] ! i)" by auto
  have "umem (pg s') 0x107000 0x400ff0 = Some 0x62" "umem (pg s') 0x107000 0x400ff1 = Some 10"
    using s'(2) [rule_format, of 0] s'(2) [rule_format, of 1] by simp_all
  then show ?thesis using s'(1) by (intro exI [of _ ?s] exI [of _ s'] exI [of _ "0x107000"]) (simp add: lone_inv)
qed

text \<open>C33. On the mutex, a sequence of acquisitions and releases by the current process goes through exactly when it alternates, beginning with the operation the
  mutex's state allows; an acquisition while it is held does not return unless the rest of the system lets the sleeping process continue.\<close>

theorem mutex_alternates:
  assumes "mutex_ok s"
  shows "(\<exists>s'. mx.ops bs s = Inr s') \<longleftrightarrow> mx.alternating (mlock (mutex s)) bs"
  using assms by (rule mx.ops_alternate)

theorem mutex_alternates_witness:
  "(\<exists>s'. mx.ops [True, False, True] (lone Running 0 []) = Inr s') \<and> (\<nexists>s'. mx.ops [True, True] (lone Running 0 []) = Inr s')"
proof -
  have i: "mutex (lone Running 0 []) = Mutex_new" using lone_io by (simp add: io_idle_def)
  have "mutex_ok (lone Running 0 [])" using lone_io [of 0 "[]"] by (simp add: mutex_ok_def io_idle_def Mutex_new_def)
  from mutex_alternates [OF this, of "[True, False, True]"] mutex_alternates [OF this, of "[True, True]"]
  show ?thesis by (simp add: mx.alternating.simps i) (simp add: Mutex_new_def)
qed

end
