(* ===== verification/Devices.thy ===== *)
theory Devices
  imports Console
begin

text \<open>
  Memory-mapped registers (\<^verbatim>\<open>arch/registers.rs\<close>) and the configuration of the mini-UART (\<^verbatim>\<open>Uart::init\<close>, \<^verbatim>\<open>KernelIO::init\<close>). \<open>mmio\<close> holds the configuration registers,
  which read back what was written, and the sequence of writes, because the device depends on their order. The delays between writes have no counterpart.
\<close>

section \<open>Definitions\<close>

record mmio =
  cells :: "u64 \<Rightarrow> u32"
  writes :: "(u64 \<times> u32) list"

definition Register_read :: "u64 \<Rightarrow> mmio \<Rightarrow> u32" where
  "Register_read address d = cells d address"

definition Register_write :: "u64 \<Rightarrow> u32 \<Rightarrow> mmio \<Rightarrow> mmio" where
  "Register_write address v d = \<lparr>cells = (cells d)(address := v), writes = writes d @ [(address, v)]\<rparr>"

definition MMIO_BASE :: u64 where "MMIO_BASE = 0x3F000000 OR 0xFFFFFF8000000000"

definition AUXENB :: u64 where "AUXENB = MMIO_BASE + 0x00215004"
definition AUX_MU_IER_REG :: u64 where "AUX_MU_IER_REG = MMIO_BASE + 0x00215044"
definition AUX_MU_IIR_REG :: u64 where "AUX_MU_IIR_REG = MMIO_BASE + 0x00215048"
definition AUX_MU_LCR_REG :: u64 where "AUX_MU_LCR_REG = MMIO_BASE + 0x0021504C"
definition AUX_MU_CNTL_REG :: u64 where "AUX_MU_CNTL_REG = MMIO_BASE + 0x00215060"
definition AUX_MU_BAUD :: u64 where "AUX_MU_BAUD = MMIO_BASE + 0x00215068"
definition GPFSEL1 :: u64 where "GPFSEL1 = MMIO_BASE + 0x00200004"
definition GPPUD :: u64 where "GPPUD = MMIO_BASE + 0x00200094"
definition GPPUDCLK0 :: u64 where "GPPUDCLK0 = MMIO_BASE + 0x00200098"

definition uart_setup :: "mmio \<Rightarrow> mmio" where
  "uart_setup d =
     (let d = Register_write AUXENB (Register_read AUXENB d OR 1) d;
          d = Register_write AUX_MU_CNTL_REG 0 d;
          d = Register_write AUX_MU_IER_REG 0 d;
          d = Register_write AUX_MU_LCR_REG 3 d;
          d = Register_write AUX_MU_IIR_REG 0x06 d;
          d = Register_write AUX_MU_BAUD 270 d;
          msk = push_bit 12 7 OR push_bit 15 7;
          val = push_bit 12 2 OR push_bit 15 2;
          d = Register_write GPFSEL1 ((Register_read GPFSEL1 d AND NOT msk) OR (val AND msk)) d;
          d = Register_write GPPUD 0 d;
          d = Register_write GPPUDCLK0 (push_bit 14 1 OR push_bit 15 1) d;
          d = Register_write GPPUDCLK0 0 d
      in Register_write AUX_MU_CNTL_REG 3 d)"

definition Uart_init :: "kstate \<Rightarrow> mmio \<Rightarrow> halt + (kstate \<times> mmio)" where
  "Uart_init s d =
     kbind (at_w_lock spin_acquire s) (\<lambda>s.
     kbind (at_r_lock spin_acquire s) (\<lambda>s.
     let d = uart_setup d in
     kbind (at_r_lock spin_release s) (\<lambda>s.
     kbind (at_w_lock spin_release s) (\<lambda>s. Inr (s, d)))))"

definition KernelIO_init :: "wakeups \<Rightarrow> kstate \<Rightarrow> mmio \<Rightarrow> halt + (wakeups \<times> kstate \<times> mmio)" where
  "KernelIO_init ws s d =
     kbind (mutex_acquire ws s) (\<lambda>(ws, s).
     kbind (Uart_init s d) (\<lambda>(s, d).
     kbind (mutex_release s) (\<lambda>s. Inr (ws, s, d))))"

section \<open>What initialisation does\<close>

lemma kcpu_push: "kcpu c \<Longrightarrow> unat (ncli c) < 2 ^ 63 - 1 \<Longrightarrow> kcpu (push_off c)"
  using kcpu_succ [of c] by (simp add: kcpu_def unat_word_ariths)

lemma Uart_init_spec:
  assumes "io_quiet s" "unat (ncli (cpu s)) < 2 ^ 63 - 1"
  shows "Uart_init s d = Inr (s, uart_setup d)"
proof -
  have k: "kcpu (cpu s)" "kcpu (push_off (cpu s))" using assms kcpu_push by (auto simp: io_quiet_def)
  have t: "taken (push_off (cpu s)) = taken (cpu s)" by (simp add: taken_def)
  show ?thesis
    using assms(1) spin_free [OF k(1)] spin_free [OF k(2)] unfolding t
    by (simp add: Uart_init_def at_w_lock_def at_r_lock_def io_quiet_def set_uart_def)
qed

lemma KernelIO_init_spec:
  assumes "io_idle s" "unat (ncli (cpu s)) < 2 ^ 63 - 1"
  shows "KernelIO_init ws s d = Inr (ws, s, uart_setup d)"
proof -
  have "mutex_release (with_mutex s) = Inr s" using io_idle_release [OF assms(1), where l = "LSR s" and r = "UART_RX s" and t = "UART_TX s"] by (simp add: with_mutex_def set_mutex_def)
  moreover have "cpu (with_mutex s) = cpu s" by (simp add: with_mutex_def)
  ultimately show ?thesis
    using Uart_init_spec [OF io_quiet_with_mutex [OF assms(1)]] assms(2) by (simp add: KernelIO_init_def io_idle_acquire [OF assms(1)])
qed

text \<open>Every lock is really taken: with any of them held, and nobody else to release it, initialisation does not return.\<close>

lemma acquire_needs_free:
  assumes "guard_acquire s = Inr s1"
  shows "\<not> locked (guard (mutex s))" "mlock (mutex s1) = mlock (mutex s)" "uart s1 = uart s"
  using assms by (auto simp: guard_acquire_def spin_acquire_def Let_def set_mutex_def split: if_splits)

lemma mutex_acquire_needs_free:
  assumes "mutex_acquire [] s = Inr (ws, s')"
  shows "\<not> locked (guard (mutex s))" "\<not> mlock (mutex s)" "uart s' = uart s"
proof -
  obtain s1 where s1: "guard_acquire s = Inr s1" using assms by (auto simp: mutex_acquire_def)
  note a = acquire_needs_free [OF s1]
  then have "\<not> mlock (mutex s1)" using assms s1 by (auto simp: mutex_acquire_def split: if_splits)
  moreover have "uart s' = uart s1"
    using assms s1 calculation by (auto simp: mutex_acquire_def Let_def guard_release_def split: option.splits)
  ultimately show "\<not> locked (guard (mutex s))" "\<not> mlock (mutex s)" "uart s' = uart s" using a by simp_all
qed

lemma KernelIO_init_locked:
  assumes "locked (guard (mutex s)) \<or> mlock (mutex s) \<or> locked (w_lock (uart s)) \<or> locked (r_lock (uart s))"
  shows "KernelIO_init [] s d \<noteq> Inr r"
proof
  assume "KernelIO_init [] s d = Inr r"
  then obtain ws s1 where m: "mutex_acquire [] s = Inr (ws, s1)" and u: "\<exists>x. Uart_init s1 d = Inr x" by (auto simp: KernelIO_init_def)
  note a = mutex_acquire_needs_free [OF m]
  have "\<not> locked (w_lock (uart s1))" "\<not> locked (r_lock (uart s1))"
    using u by (auto simp: Uart_init_def at_w_lock_def at_r_lock_def spin_acquire_def Let_def set_uart_def split: if_splits)
  then show False using a assms by simp
qed

lemmas register_defs = AUXENB_def AUX_MU_IER_REG_def AUX_MU_IIR_REG_def AUX_MU_LCR_REG_def AUX_MU_CNTL_REG_def AUX_MU_BAUD_def GPFSEL1_def GPPUD_def GPPUDCLK0_def MMIO_BASE_def

text \<open>The value of a GPIO function select register in which pins 14 and 15 have function 2 (ALT5, the mini-UART) and all others what they had.\<close>

definition alt5 :: "u32 \<Rightarrow> u32" where
  "alt5 v = (v AND NOT (push_bit 12 63)) OR push_bit 12 0b010010"

lemma alt5_pins: "drop_bit 12 (alt5 v) AND 7 = 2" "drop_bit 15 (alt5 v) AND 7 = 2" "k < 12 \<or> 18 \<le> k \<Longrightarrow> bit (alt5 v) k = bit v k"
proof -
  define f a :: u32 where "f = push_bit 12 63" and "a = push_bit 12 0b010010"
  have m: "(63 :: u32) = mask 6" "(7 :: u32) = mask 3" by (simp_all add: mask_eq_exp_minus_1)
  have e: "(18 :: u32) = set_bit 1 (set_bit 4 0)" by (simp add: set_bit_eq_or push_bit_eq_mult)
  have b: "bit f k \<longleftrightarrow> 12 \<le> k \<and> k < 18" "bit a k \<longleftrightarrow> k = 13 \<or> k = 16" for k
    unfolding f_def a_def m(1) e by (auto simp only: bit_push_bit_iff bit_mask_iff bit_set_bit_iff possible_bit_word bit_0_eq bot_apply) auto
  have v: "alt5 v = (v AND NOT f) OR a" by (simp only: alt5_def f_def a_def)
  have two: "(2 :: u32) = set_bit 1 0" by (simp add: set_bit_eq_or push_bit_eq_mult)
  have w: "bit (alt5 v) k \<longleftrightarrow> k < 32 \<and> (bit v k \<and> \<not> (12 \<le> k \<and> k < 18) \<or> k = 13 \<or> k = 16)" for k
    unfolding v by (auto simp: bit_simps b dest: bit_imp_le_length)
  show "drop_bit 12 (alt5 v) AND 7 = 2" "drop_bit 15 (alt5 v) AND 7 = 2"
    unfolding two m(2) by (rule bit_word_eqI; auto simp: bit_simps w)+
  show "k < 12 \<or> 18 \<le> k \<Longrightarrow> bit (alt5 v) k = bit v k" by (auto simp: w dest: bit_imp_le_length)
qed

lemma uart_writes:
  "writes (uart_setup d) = writes d @ [(AUXENB, cells d AUXENB OR 1), (AUX_MU_CNTL_REG, 0), (AUX_MU_IER_REG, 0), (AUX_MU_LCR_REG, 3), (AUX_MU_IIR_REG, 6), (AUX_MU_BAUD, 270),
     (GPFSEL1, alt5 (cells d GPFSEL1)), (GPPUD, 0), (GPPUDCLK0, 0xC000), (GPPUDCLK0, 0), (AUX_MU_CNTL_REG, 3)]"
  by (simp add: uart_setup_def Register_write_def Register_read_def Let_def alt5_def register_defs push_bit_eq_mult)

section \<open>Properties\<close>

text \<open>C40. Initialising the console on a kernel whose I/O locks are free returns with the kernel state as it was, all locks free again; it does take each of them, the mutex with its
  guard and the two locks of the device: with any one held, and nobody to release it, initialisation does not return. It configures the device in the order the hardware
  needs: the mini-UART is enabled, then kept off while interrupts are disabled, the frame is set to 8 bits, the queues are cleared and the baud rate is set; pins 14 and 15 get the function of the
  mini-UART, every other pin keeps its function, the pull resistors are switched off by clocking exactly these two pins; only the last write turns transmission on.\<close>

theorem uart_init_correct:
  assumes "io_idle s" "unat (ncli (cpu s)) < 2 ^ 63 - 1"
  shows "\<exists>d' e v. KernelIO_init ws s d = Inr (ws, s, d')
     \<and> writes d' = writes d @ [(AUXENB, e), (AUX_MU_CNTL_REG, 0), (AUX_MU_IER_REG, 0), (AUX_MU_LCR_REG, 3), (AUX_MU_IIR_REG, 6), (AUX_MU_BAUD, 270),
         (GPFSEL1, v), (GPPUD, 0), (GPPUDCLK0, 0xC000), (GPPUDCLK0, 0), (AUX_MU_CNTL_REG, 3)]
     \<and> bit e 0 \<and> (\<forall>k. 0 < k \<longrightarrow> bit e k = bit (cells d AUXENB) k)
     \<and> drop_bit 12 v AND 7 = 2 \<and> drop_bit 15 v AND 7 = 2 \<and> (\<forall>k. k < 12 \<or> 18 \<le> k \<longrightarrow> bit v k = bit (cells d GPFSEL1) k)
     \<and> (\<forall>h d r. locked (guard (mutex h)) \<or> mlock (mutex h) \<or> locked (w_lock (uart h)) \<or> locked (r_lock (uart h)) \<longrightarrow> KernelIO_init [] h d \<noteq> Inr r)"
proof -
  have "bit (cells d AUXENB OR 1) 0" "0 < k \<Longrightarrow> bit (cells d AUXENB OR 1) k = bit (cells d AUXENB) k" for k by (auto simp: bit_simps)
  then show ?thesis using KernelIO_init_locked KernelIO_init_spec [OF assms, of ws d] uart_writes [of d] alt5_pins [where v = "cells d GPFSEL1"]
    by (intro exI [of _ "uart_setup d"] exI [of _ "cells d AUXENB OR 1"] exI [of _ "alt5 (cells d GPFSEL1)"]) auto
qed

lemma boot_state_idle: "io_idle (boot_state g l1)"
  by (auto simp: io_idle_def io_quiet_def no_waiters_def kcpu_def boot_state_def boot_cpu_def is_irq_enabled_def KernelIO_new_def Mutex_new_def Uart_new_def in_set_conv_nth)

theorem uart_init_correct_witness:
  "\<exists>d' e v. KernelIO_init [] (boot_state (demo_pg 0xffffff8000108000) 0xffffff8000107000) \<lparr>cells = \<lambda>_. 0, writes = []\<rparr>
       = Inr ([], boot_state (demo_pg 0xffffff8000108000) 0xffffff8000107000, d')
     \<and> length (writes d') = 11 \<and> (AUX_MU_BAUD, 270) \<in> set (writes d') \<and> (GPFSEL1, v) \<in> set (writes d') \<and> drop_bit 12 v AND 7 = 2"
  using uart_init_correct [OF boot_state_idle [of "demo_pg 0xffffff8000108000" "0xffffff8000107000"], of "[]" "\<lparr>cells = \<lambda>_. 0, writes = []\<rparr>"]
  by (auto simp: boot_state_def boot_cpu_def)

end
