(* ===== verification/KernelMap.thy ===== *)
theory KernelMap
  imports FrameAlloc PageTable
begin

unbundle bit_operations_syntax

text \<open>
  The translation of kernel addresses, built at compile time in \<^verbatim>\<open>kernel/paging.rs\<close>: the values of the translation control registers and the two level 2 tables of
  2 MB blocks. The walk of the hardware is the one of the Arm architecture for 39-bit addresses and a 4 KB granule; \<^verbatim>\<open>entry.S\<close> puts the two tables into the first two
  entries of the level 1 table. The tables implement the arithmetic of \<open>ttbr1_to_va\<close> and \<open>ttbr1_to_pa\<close>.
\<close>

section \<open>Register values\<close>

definition TCR_EL1_VALUE :: u64 where
  "TCR_EL1_VALUE =
     25
     OR push_bit 7 0
     OR push_bit 8 0b01
     OR push_bit 10 0b01
     OR push_bit 12 0b11
     OR push_bit 14 0b00
     OR push_bit 16 25
     OR push_bit 22 0
     OR push_bit 23 0
     OR push_bit 24 0b01
     OR push_bit 26 0b01
     OR push_bit 28 0b11
     OR push_bit 30 0b10
     OR push_bit 32 0b001"

definition MAIR_EL1_VALUE :: u64 where
  "MAIR_EL1_VALUE = push_bit 0 0x00 OR push_bit 8 0xFF"

definition SCTLR_EL1_ENABLE_MMU :: u64 where
  "SCTLR_EL1_ENABLE_MMU = push_bit 0 1"

section \<open>The tables\<close>

definition ATTR_DEVICE :: u64 where "ATTR_DEVICE = push_bit 2 0"

definition ATTR_NORMAL :: u64 where "ATTR_NORMAL = push_bit 2 1"

definition kernel_l2_block_descriptor :: "u64 \<Rightarrow> u64 \<Rightarrow> u64" where
  "kernel_l2_block_descriptor pa attr =
     (let VALID = push_bit 0 1; BLOCK = 0; AP_EL1_RW = push_bit 6 0b00; SH_INNER = push_bit 8 0b11; SH_NON = push_bit 8 0b00;
          AF = push_bit 10 1; PXN = push_bit 53 1; UXN = push_bit 54 1;
          sh = (if attr = ATTR_DEVICE then SH_NON else SH_INNER);
          pxn = (if attr = ATTR_DEVICE then PXN else 0)
      in (pa AND NOT (push_bit 21 1 - 1)) OR VALID OR BLOCK OR attr OR AP_EL1_RW OR sh OR AF OR pxn OR UXN)"

definition block_entry :: "u64 \<Rightarrow> u64" where
  "block_entry pa = kernel_l2_block_descriptor pa (if 0x3F000000 \<le> pa then ATTR_DEVICE else ATTR_NORMAL)"

definition kernel_l2_0 :: "u64 list" where
  "kernel_l2_0 = fold (\<lambda>i table. table[i := block_entry (push_bit 21 (of_nat i))]) [0..<PAGE_ENTRIES] (replicate PAGE_ENTRIES 0)"

definition kernel_l2_1 :: "u64 list" where
  "kernel_l2_1 = fold (\<lambda>i table. table[i := block_entry (push_bit 21 (of_nat (i + PAGE_ENTRIES)))]) [0..<PAGE_ENTRIES] (replicate PAGE_ENTRIES 0)"

definition kernel_l1 :: "nat \<Rightarrow> u64 list option" where
  "kernel_l1 = [0 \<mapsto> kernel_l2_0, 1 \<mapsto> kernel_l2_1]"

section \<open>The walk\<close>

text \<open>The descriptor that the hardware finds for a kernel address, and the physical address it computes from a block descriptor.\<close>

definition kernel_descriptor :: "u64 \<Rightarrow> u64 option" where
  "kernel_descriptor va = (case kernel_l1 (l1_i va) of None \<Rightarrow> None | Some l2 \<Rightarrow> Some (l2 ! l2_i va))"

definition block_address :: "u64 \<Rightarrow> u64 \<Rightarrow> u64" where
  "block_address d va = (d AND 0x0000FFFFFFE00000) OR (va AND 0x1FFFFF)"

definition memory_type :: "u64 \<Rightarrow> u64" where
  "memory_type d = drop_bit (8 * unat (drop_bit 2 d AND 7)) MAIR_EL1_VALUE AND 0xFF"

text \<open>Both halves of the address space have 39-bit addresses with a 4 KB granule, as the walk supposes.\<close>

lemma tcr_sizes:
  "64 - unat (TCR_EL1_VALUE AND 63) = 39" "64 - unat (drop_bit 16 TCR_EL1_VALUE AND 63) = 39"
  "drop_bit 14 TCR_EL1_VALUE AND 3 = 0" "drop_bit 30 TCR_EL1_VALUE AND 3 = 2"
  by (simp_all add: TCR_EL1_VALUE_def)

lemma fold_fill: "n \<le> length t \<Longrightarrow> fold (\<lambda>i t. t[i := f i]) [0..<n] t = map f [0..<n] @ drop n t"
proof (induction n)
  case (Suc n)
  then show ?case by (simp add: list_update_append Cons_nth_drop_Suc [symmetric])
qed simp

lemma l2_nth:
  "i < 512 \<Longrightarrow> kernel_l2_0 ! i = block_entry (push_bit 21 (of_nat i))"
  "i < 512 \<Longrightarrow> kernel_l2_1 ! i = block_entry (push_bit 21 (of_nat (i + 512)))"
  by (simp_all add: kernel_l2_0_def kernel_l2_1_def fold_fill PAGE_ENTRIES_def)

lemma indices:
  "l1_i va = unat va div 2 ^ 30 mod 512" "l2_i va = unat va div 2 ^ 21 mod 512"
proof -
  have m: "(0x1FF :: u64) = mask 9" by (simp add: mask_eq_exp_minus_1)
  show "l1_i va = unat va div 2 ^ 30 mod 512" "l2_i va = unat va div 2 ^ 21 mod 512"
    by (simp_all add: l1_i_def l2_i_def m unsigned_take_bit_eq unat_drop_bit_eq drop_bit_eq_div take_bit_eq_mod unat_div unat_mod flip: take_bit_eq_mask)
qed

lemma unat_va:
  assumes "pa < 2 ^ 39"
  shows "unat (ttbr1_to_va pa) = unat pa + 0xffffff8000000000"
proof -
  have "pa AND 0xffffff8000000000 = 0" unfolding mask39 using less_mask_eq [of pa 39] assms by (metis and.assoc bit.conj_cancel_right bit.conj_zero_right)
  then have "ttbr1_to_va pa = pa + 0xffffff8000000000" by (simp add: ttbr1_to_va_def disjunctive_add_eq_or)
  then show ?thesis using assms by (simp add: unat_word_ariths word_less_nat_alt)
qed

lemma kernel_descriptor_block:
  assumes "pa < 2 ^ 31"
  shows "kernel_descriptor (ttbr1_to_va pa) = Some (block_entry (push_bit 21 (drop_bit 21 pa)))"
proof -
  define n where "n = unat pa"
  have n: "n < 2 ^ 31" using assms by (simp add: n_def word_less_nat_alt)
  have va: "unat (ttbr1_to_va pa) = n + 0xffffff8000000000" using unat_va [of pa] assms by (simp add: n_def word_less_nat_alt)
  have i: "l1_i (ttbr1_to_va pa) = n div 2 ^ 30" "l2_i (ttbr1_to_va pa) = n div 2 ^ 21 mod 512"
    using n arg_cong [OF va, of "\<lambda>k. k div 2 ^ 30 mod 512"] arg_cong [OF va, of "\<lambda>k. k div 2 ^ 21 mod 512"]
      div_mult_self1 [of "2 ^ 30" n "512 * 33554431"] div_mult_self1 [of "2 ^ 21" n "512 * 17179868672"]
      mod_mult_self4 [of 512 33554431 "n div 2 ^ 30"] mod_mult_self4 [of 512 17179868672 "n div 2 ^ 21"]
    by (simp_all add: indices) (simp add: less_mult_imp_div_less)
  have q: "drop_bit 21 pa = of_nat (n div 2 ^ 21)"
  proof -
    have "drop_bit 21 pa = of_nat (unat (drop_bit 21 pa))" by simp
    then show ?thesis by (simp add: unat_drop_bit_eq drop_bit_eq_div unat_div n_def)
  qed
  show ?thesis
  proof (cases "n div 2 ^ 30 = 0")
    case True
    then have "n div 2 ^ 21 < 512" by auto
    then show ?thesis using True by (simp add: kernel_descriptor_def kernel_l1_def i l2_nth q)
  next
    case False
    moreover have "n div 2 ^ 30 < 2" using n by (simp add: less_mult_imp_div_less)
    ultimately have "n div 2 ^ 30 = 1" by linarith
    moreover have "n div 2 ^ 21 div 512 = n div 2 ^ 30" by (simp flip: div_mult2_eq)
    ultimately have "n div 2 ^ 30 = 1" "n div 2 ^ 21 mod 512 + 512 = n div 2 ^ 21" using mult_div_mod_eq [of 512 "n div 2 ^ 21"] by simp_all
    then show ?thesis by (simp add: kernel_descriptor_def kernel_l1_def i l2_nth q)
  qed
qed

lemma block_bits:
  "bit (block_entry pa) k \<longleftrightarrow> k < 64 \<and> (21 \<le> k \<and> bit pa k \<or> k = 0 \<or> k = 10 \<or> k = 54
     \<or> (if 0x3F000000 \<le> pa then k = 53 else k = 2 \<or> k = 8 \<or> k = 9))"
proof -
  have "ATTR_NORMAL \<noteq> ATTR_DEVICE" by (simp add: ATTR_NORMAL_def ATTR_DEVICE_def)
  then have d: "kernel_l2_block_descriptor pa ATTR_DEVICE = (pa AND NOT (mask 21)) OR 0x60000000000401"
    "kernel_l2_block_descriptor pa ATTR_NORMAL = (pa AND NOT (mask 21)) OR 0x40000000000705"
    by (simp_all add: kernel_l2_block_descriptor_def Let_def mask_eq_exp_minus_1 push_bit_eq_mult or.assoc) (simp_all add: ATTR_NORMAL_def ATTR_DEVICE_def)
  define D N :: u64 where "D = 0x60000000000401" and "N = 0x40000000000705"
  have e: "block_entry pa = (pa AND NOT (mask 21)) OR (if 0x3F000000 \<le> pa then D else N)"
    by (simp add: block_entry_def d D_def N_def)
  have "D = set_bit 0 (set_bit 10 (set_bit 53 (set_bit 54 0)))" "N = set_bit 0 (set_bit 2 (set_bit 8 (set_bit 9 (set_bit 10 (set_bit 54 0)))))"
    by (simp_all add: D_def N_def set_bit_eq_or push_bit_eq_mult)
  then have b: "bit D k \<longleftrightarrow> k = 0 \<or> k = 10 \<or> k = 53 \<or> k = 54" "bit N k \<longleftrightarrow> k = 0 \<or> k = 2 \<or> k = 8 \<or> k = 9 \<or> k = 10 \<or> k = 54"
    by (auto simp only: bit_set_bit_iff possible_bit_word bit_0_eq bot_apply) simp_all
  show ?thesis unfolding e by (auto simp: bit_simps b dest: bit_u64_less)
qed

lemma bits_clear:
  assumes "\<And>k. k < n \<Longrightarrow> bit (d :: u64) k \<longleftrightarrow> bit (c :: u64) k" "n \<le> 64" "c < 2 ^ n"
  shows "d AND mask n = c"
proof (rule bit_word_eqI)
  fix k
  have "bit c k \<Longrightarrow> k < n" using assms(3) by (metis bit_take_bit_iff less_mask_eq take_bit_eq_mask)
  then show "bit (d AND mask n) k = bit c k" using assms(1) [of k] by (auto simp: bit_simps dest: bit_u64_less)
qed

section \<open>Properties\<close>

text \<open>C31. The tables that the kernel is built with implement the linear map of kernel addresses: for every physical address of the first 2 GB the walk of
  \<open>ttbr1_to_va\<close> ends in a valid block whose address is the physical address again. Kernel memory is never accessible or executable for user programs, the kernel may
  write it, and it is normal cached memory below the peripherals at \<^verbatim>\<open>0x3F000000\<close> and device memory without execution from there on.\<close>

theorem kernel_map_linear:
  assumes "pa < 2 ^ 31"
  shows "\<exists>d. kernel_descriptor (ttbr1_to_va pa) = Some d \<and> d AND 0b11 = 0b01 \<and> block_address d (ttbr1_to_va pa) = pa
     \<and> \<not> bit d 6 \<and> bit d 54 \<and> \<not> bit d 7 \<and> bit d 10
     \<and> memory_type d = (if pa < 0x3F000000 then 0xFF else 0x00) \<and> (bit d 53 \<longleftrightarrow> 0x3F000000 \<le> pa)"
proof -
  let ?b = "push_bit 21 (drop_bit 21 pa)"
  have hi: "\<not> bit pa k" if "31 \<le> k" for k
    using assms that by (metis bit_take_bit_iff less_mask_eq not_le take_bit_eq_mask)
  have dev: "0x3F000000 \<le> ?b \<longleftrightarrow> 0x3F000000 \<le> pa"
  proof -
    have "unat pa div 2 ^ 21 * 2 ^ 21 < 2 ^ 64" 
      using le_less_trans [OF div_times_less_eq_dividend unsigned_less [where ?'a = nat, of pa]] by simp
    then have "unat ?b = unat pa div 2 ^ 21 * 2 ^ 21" by (simp add: push_bit_eq_mult drop_bit_eq_div unat_word_ariths unat_div)
    then show ?thesis by (auto simp: word_le_nat_alt)
  qed
  let ?d = "block_entry ?b"
  have bits: "bit ?d k \<longleftrightarrow> k < 64 \<and> (21 \<le> k \<and> bit pa k \<or> k = 0 \<or> k = 10 \<or> k = 54
     \<or> (if 0x3F000000 \<le> pa then k = 53 else k = 2 \<or> k = 8 \<or> k = 9))" for k
    unfolding block_bits dev by (auto simp: bit_simps)
  have "?d AND 0b11 = 0b01"
    using bits_clear [of 2 ?d 1] by (auto simp: bits bit_1_iff mask_eq_exp_minus_1)
  moreover have "block_address ?d (ttbr1_to_va pa) = pa"
  proof -
    have m: "(0x0000FFFFFFE00000 :: u64) = mask 48 AND NOT (mask 21)" "(0x1FFFFF :: u64) = mask 21" by (simp_all add: mask_eq_exp_minus_1)
    have low: "bit pa k \<Longrightarrow> k < 48" for k using hi [of k] by linarith
    show ?thesis unfolding block_address_def m ttbr1_to_va_def mask39
      by (rule bit_word_eqI) (use low in \<open>auto simp: bit_simps bits dest: bit_u64_less split: if_splits\<close>)
  qed
  moreover have "drop_bit 2 ?d AND 7 = (if 0x3F000000 \<le> pa then 0 else 1)"
    using bits_clear [of 3 "drop_bit 2 ?d" "if 0x3F000000 \<le> pa then 0 else 1"] by (auto simp: bits bit_simps mask_eq_exp_minus_1)
  ultimately show ?thesis
    unfolding kernel_descriptor_block [OF assms] using hi by (auto simp: bits memory_type_def MAIR_EL1_VALUE_def not_le)
qed

theorem kernel_map_linear_witness:
  "\<exists>d. kernel_descriptor 0xffffff8000080000 = Some d \<and> block_address d 0xffffff8000080000 = 0x80000 \<and> memory_type d = 0xFF \<and> \<not> bit d 6"
  using kernel_map_linear [of "0x80000"] by (auto simp: ttbr1_to_va_def)

end
