(* ===== verification/AddressSpaces.thy ===== *)
theory AddressSpaces
  imports UserMem
begin

text \<open>
  Many address spaces over one pool of frames: their trees share no frame with one another or with the free list. The paging operations act on one of them and
  cannot be observed in any other.
\<close>

definition spaces :: "pgstate \<Rightarrow> u64 list \<Rightarrow> u64 list \<Rightarrow> bool" where
  "spaces s roots ps \<longleftrightarrow> pool s ps \<and> distinct (concat (map (tree_frames (ram s) 1) roots) @ ps)
     \<and> (\<forall>r \<in> set roots. \<forall>f \<in> set (tree_frames (ram s) 1 r). is_frame_pa f)"

definition frames_in :: "pgstate \<Rightarrow> u64 list \<Rightarrow> u64 list \<Rightarrow> u64 multiset" where
  "frames_in s roots ps = (\<Sum>r \<in># mset roots. mset (tree_frames (ram s) 1 r)) + mset ps"

lemma spaces_Cons:
  "spaces s (r # rs) ps \<longleftrightarrow> owned s r ps \<and> spaces s rs ps
     \<and> set (tree_frames (ram s) 1 r) \<inter> set (concat (map (tree_frames (ram s) 1) rs)) = {}"
  by (auto simp: spaces_def owned_def)

lemma spaces_perm:
  assumes "spaces s rs ps" "mset rs' = mset rs"
  shows "spaces s rs' ps"
proof -
  have "mset (concat (map f rs')) = mset (concat (map f rs))" for f :: "u64 \<Rightarrow> u64 list"
    using assms(2) by (metis mset_concat mset_map map_map sum_mset_sum_list)
  then have "mset (concat (map (tree_frames (ram s) 1) rs') @ ps) = mset (concat (map (tree_frames (ram s) 1) rs) @ ps)" by simp
  then have "distinct (concat (map (tree_frames (ram s) 1) rs') @ ps)" using assms(1) mset_eq_imp_distinct_iff unfolding spaces_def by blast
  then show ?thesis using assms(1) mset_eq_setD [OF assms(2)] by (simp add: spaces_def)
qed

lemma frames_in_perm: "mset rs' = mset rs \<Longrightarrow> frames_in s rs' ps = frames_in s rs ps"
  by (simp add: frames_in_def)

lemma spaces_front:
  assumes "spaces s rs ps" "r \<in> set rs"
  shows "spaces s (r # remove1 r rs) ps"
  using assms by (auto intro: spaces_perm)

lemma spaces_owned: "spaces s rs ps \<Longrightarrow> r \<in> set rs \<Longrightarrow> owned s r ps"
  using spaces_front spaces_Cons by blast

lemma spaces_distinct: "spaces s rs ps \<Longrightarrow> distinct rs"
proof (induction rs)
  case (Cons r rs)
  have "r \<in> set (tree_frames (ram s) 1 r)" by (simp add: tree_frames_table)
  then have "r \<notin> set (concat (map (tree_frames (ram s) 1) rs))" using Cons.prems unfolding spaces_Cons by blast
  then have "r \<notin> set rs" using \<open>r \<in> set (tree_frames (ram s) 1 r)\<close> by auto
  then show ?case using Cons by (simp add: spaces_Cons)
qed simp

section \<open>What one address space sees of the others\<close>

lemma keeps_umem:
  assumes "wf_tree (ram s) 1 r" "keeps F (ram s) (ram s')" "F \<inter> set (tree_frames (ram s) 1 r) = {}"
  shows "umem s' r x = umem s r x"
proof -
  have "F \<inter> set (tree_tables (ram s) 1 r) = {}" using assms(3) tables_subset [of "ram s" 1 r] by auto
  from keeps_tree(2) [OF assms(2,1) this] have n: "node (ram s') r (path (of_nat x)) = node (ram s) r (path (of_nat x))" by simp
  show ?thesis
  proof (cases "node (ram s) r (path (of_nat x))")
    case None
    then show ?thesis using n by (simp add: umem_def ttbr0_to_pa_node translation_table_def)
  next
    case (Some p)
    from node_in_tree [OF Some, of 1] have p: "p \<in> set (tree_frames (ram s) 1 r)" by simp
    then have "is_frame_pa p" "p \<notin> F" using assms(1,3) by (auto simp: wf_tree_def)
    then have "ram s' (ttbr1_to_va (p + (of_nat x AND 0xFFF))) = ram s (ttbr1_to_va (p + (of_nat x AND 0xFFF)))"
      using same_frame_byte [OF assms(2)] by (simp add: ttbr1_to_va_offset unat_and_fff)
    then show ?thesis using n Some by (simp add: umem_def ttbr0_to_pa_node translation_table_def)
  qed
qed

lemma mapped_umem: "mapped va t g \<longleftrightarrow> umem g t (unat va) \<noteq> None"
  by (simp add: umem_def)

lemma kept_byte:
  assumes "owned g t ps" "owned g' t ps'" "x < 2 ^ 39" "umem g t x \<noteq> None"
    "\<And>va p. node (ram g) t (path va) = Some p \<Longrightarrow> node (ram g') t (path va) = Some p \<and> same_frame (ram g) (ram g') (ttbr1_to_va p)"
  shows "umem g' t x = umem g t x"
proof -
  obtain p where p: "node (ram g) t (path (of_nat x)) = Some p" using assms(4) by (auto simp: umem_node [OF assms(1,3)])
  have "is_frame_pa p" using owned_node(2) [OF assms(1) p] by simp
  then have "ram g' (ttbr1_to_va p + of_nat (x mod 4096)) = ram g (ttbr1_to_va p + of_nat (x mod 4096))"
    using assms(5) [OF p] by (simp add: same_frame_def frame_va_aligned)
  then show ?thesis unfolding umem_node [OF assms(1,3)] umem_node [OF assms(2,3)] using assms(5) [OF p] p by simp
qed

definition untouched :: "u64 list \<Rightarrow> pgstate \<Rightarrow> pgstate \<Rightarrow> bool" where
  "untouched rs s s' \<longleftrightarrow> (\<forall>r \<in> set rs. tree_frames (ram s') 1 r = tree_frames (ram s) 1 r \<and> (\<forall>x. umem s' r x = umem s r x))"

lemma untouched_simps [simp]: "untouched rs s s" "untouched [] s s'"
  by (simp_all add: untouched_def)

lemma untouched_mono: "untouched rs s s' \<Longrightarrow> set qs \<subseteq> set rs \<Longrightarrow> untouched qs s s'"
  by (auto simp: untouched_def)

lemma untouched_trans: "untouched rs s s' \<Longrightarrow> untouched rs s' s'' \<Longrightarrow> untouched rs s s''"
  by (simp add: untouched_def)

lemma keeps_untouched:
  assumes "spaces s rs ps" "keeps F (ram s) (ram s')" "F \<inter> set (concat (map (tree_frames (ram s) 1) rs)) = {}"
  shows "untouched rs s s'"
  unfolding untouched_def
proof
  fix r assume r: "r \<in> set rs"
  have w: "wf_tree (ram s) 1 r" using ownedD(2) [OF spaces_owned [OF assms(1) r]] .
  have d: "F \<inter> set (tree_frames (ram s) 1 r) = {}" using assms(3) r by auto
  then have "F \<inter> set (tree_tables (ram s) 1 r) = {}" using tables_subset [of "ram s" 1 r] by auto
  then show "tree_frames (ram s') 1 r = tree_frames (ram s) 1 r \<and> (\<forall>x. umem s' r x = umem s r x)"
    using keeps_tree(1) [OF assms(2) w] keeps_umem [OF w assms(2) d] by simp
qed

lemma untouched_frames: "untouched rs s s' \<Longrightarrow> map (tree_frames (ram s') 1) rs = map (tree_frames (ram s) 1) rs"
  by (simp add: untouched_def)

lemma untouched_in: "untouched rs s s' \<Longrightarrow> frames_in s' rs ps = frames_in s rs ps"
  using arg_cong [OF untouched_frames, of rs s s' "\<lambda>xs. sum_list (map mset xs)"] by (simp add: frames_in_def sum_mset_sum_list comp_def flip: mset_map)

lemma spaces_untouched:
  assumes "spaces s rs ps" "untouched rs s s'" "pool s' ps'" "set ps' \<inter> set (concat (map (tree_frames (ram s) 1) rs)) = {}"
  shows "spaces s' rs ps'"
  using assms unfolding spaces_def untouched_frames [OF assms(2)] by (auto simp: pool_def untouched_def)

lemma spaces_step:
  assumes "spaces s (r # rs) ps" "owned s' r ps'" "all_frames s' r ps' = all_frames s r ps"
    "keeps (set_mset (all_frames s r ps)) (ram s) (ram s')"
  shows "spaces s' (r # rs) ps'" "untouched rs s s'" "frames_in s' (r # rs) ps' = frames_in s (r # rs) ps"
proof -
  let ?F = "set (concat (map (tree_frames (ram s) 1) rs))"
  have f: "set_mset (all_frames s r ps) \<inter> ?F = {}" using assms(1) by (auto simp: spaces_Cons all_frames_def spaces_def)
  then show u: "untouched rs s s'" using assms(1) by (intro keeps_untouched [OF _ assms(4)]) (auto simp: spaces_Cons)
  have e: "set (tree_frames (ram s') 1 r) \<union> set ps' = set_mset (all_frames s r ps)" using assms(3) [symmetric] by (simp add: all_frames_def)
  then have "set ps' \<inter> ?F = {}" "set (tree_frames (ram s') 1 r) \<inter> ?F = {}" using f by auto
  then show "spaces s' (r # rs) ps'"
    using assms(1,2) spaces_untouched [OF _ u ownedD(1) [OF assms(2)]] untouched_frames [OF u] unfolding spaces_Cons by metis
  show "frames_in s' (r # rs) ps' = frames_in s (r # rs) ps"
    using assms(3) untouched_in [OF u, of "[]"] by (simp add: frames_in_def all_frames_def ac_simps)
qed

section \<open>Duplicating and freeing\<close>

lemma spaces_dup:
  assumes "spaces s (r # rs) ps" "length (tree_frames (ram s) 1 r) \<le> length ps"
  shows "\<exists>dst s' ps'. duplicate_va_space (Some r) s = (Inr dst, s') \<and> spaces s' (dst # r # rs) ps' \<and> untouched (r # rs) s s'
     \<and> (\<forall>x. umem s' dst x = umem s r x) \<and> length ps' + length (tree_frames (ram s) 1 r) = length ps
     \<and> frames_in s' (dst # r # rs) ps' = frames_in s (r # rs) ps"
proof -
  have o: "owned s r ps" using assms(1) by (simp add: spaces_Cons)
  obtain dst s' ps' where d: "duplicate_va_space (Some r) s = (Inr dst, s')" "owned s' dst ps'" "all_frames s' dst ps' = mset ps" "keeps (set ps) (ram s) (ram s')"
    "owned s' r ps'" and tr: "\<And>va. case ttbr0_to_pa va (Some r) s of None \<Rightarrow> ttbr0_to_pa va (Some dst) s' = None
        | Some a \<Rightarrow> \<exists>b. ttbr0_to_pa va (Some dst) s' = Some b \<and> frame_of b \<in> set ps \<and> ram s' (ttbr1_to_va b) = ram s (ttbr1_to_va a)"
    and len: "length ps' + length (tree_frames (ram s) 1 r) = length ps"
    using dup_deep_copy [OF o _ assms(2), of "Some r"] by (auto simp: translation_table_def)
  have f: "set ps \<inter> set (concat (map (tree_frames (ram s) 1) (r # rs))) = {}" using assms(1) by (auto simp: spaces_def)
  have u: "untouched (r # rs) s s'" by (rule keeps_untouched [OF assms(1) d(4) f])
  have e: "set (tree_frames (ram s') 1 dst) \<union> set ps' = set ps" using arg_cong [OF d(3), of set_mset] by (simp add: all_frames_def)
  then have "spaces s' (r # rs) ps'" using ownedD(1) [OF d(2)] f by (intro spaces_untouched [OF assms(1) u]) auto
  moreover have "set (tree_frames (ram s') 1 dst) \<inter> set (concat (map (tree_frames (ram s') 1) (r # rs))) = {}"
    unfolding untouched_frames [OF u] using f e by blast
  ultimately have "spaces s' (dst # r # rs) ps'" using d(2) by (subst spaces_Cons) simp
  moreover have "umem s' dst x = umem s r x" for x
    using tr [of "of_nat x"] by (auto simp: umem_def split: option.splits)
  moreover have "frames_in s' (dst # r # rs) ps' = frames_in s (r # rs) ps"
    using d(3) untouched_in [OF u, of "[]"] by (simp add: frames_in_def all_frames_def ac_simps)
  ultimately show ?thesis using d(1) u len by blast
qed

lemma spaces_dup_fails:
  assumes "spaces s (r # rs) ps" "length ps < length (tree_frames (ram s) 1 r)"
  shows "\<exists>e s' ps'. duplicate_va_space (Some r) s = (Inl e, s') \<and> spaces s' (r # rs) ps' \<and> untouched (r # rs) s s' \<and> mset ps' = mset ps
     \<and> frames_in s' (r # rs) ps' = frames_in s (r # rs) ps"
proof -
  have o: "owned s r ps" using assms(1) by (simp add: spaces_Cons)
  obtain e s' ps' where d: "duplicate_va_space (Some r) s = (Inl e, s')" "mset ps' = mset ps" "owned s' r ps'" "keeps (set ps) (ram s) (ram s')"
    using dup_rolls_back [OF o _ assms(2), of "Some r"] by (auto simp: translation_table_def)
  have f: "set ps \<inter> set (concat (map (tree_frames (ram s) 1) (r # rs))) = {}" using assms(1) by (auto simp: spaces_def)
  have u: "untouched (r # rs) s s'" by (rule keeps_untouched [OF assms(1) d(4) f])
  then have "spaces s' (r # rs) ps'" using ownedD(1) [OF d(3)] f mset_eq_setD [OF d(2)] by (intro spaces_untouched [OF assms(1) u]) auto
  moreover have "frames_in s' (r # rs) ps' = frames_in s (r # rs) ps" using untouched_in [OF u, of ps'] d(2) by (simp add: frames_in_def)
  ultimately show ?thesis using d u by blast
qed

lemma spaces_free:
  assumes "spaces s (r # rs) ps"
  shows "\<exists>ps'. spaces (free_page_table (Some r) s) rs ps' \<and> untouched rs s (free_page_table (Some r) s) \<and> mset ps' = all_frames s r ps
     \<and> frames_in (free_page_table (Some r) s) rs ps' = frames_in s (r # rs) ps"
proof -
  have o: "owned s r ps" and rs: "spaces s rs ps" using assms by (simp_all add: spaces_Cons)
  obtain ps' where d: "pool (free_page_table (Some r) s) ps'" "mset ps' = all_frames s r ps"
    "keeps (set (tree_frames (ram s) 1 r)) (ram s) (ram (free_page_table (Some r) s))"
    using free_table_all [OF o, of "Some r"] by (auto simp: translation_table_def)
  have u: "untouched rs s (free_page_table (Some r) s)" using assms by (intro keeps_untouched [OF rs d(3)]) (simp add: spaces_Cons)
  have "set ps' = set (tree_frames (ram s) 1 r) \<union> set ps" using arg_cong [OF d(2), of set_mset] by (simp add: all_frames_def)
  then have "set ps' \<inter> set (concat (map (tree_frames (ram s) 1) rs)) = {}" using assms by (auto simp: spaces_Cons spaces_def)
  moreover have "frames_in (free_page_table (Some r) s) rs ps' = frames_in s (r # rs) ps"
    using untouched_in [OF u, of "[]"] d(2) by (simp add: frames_in_def all_frames_def ac_simps)
  ultimately show ?thesis using spaces_untouched [OF rs u d(1)] u d(2) by blast
qed

lemma spaces_new:
  assumes "spaces s rs (r # ps)"
  shows "\<exists>s1. get_free_frame_pa s = (Some r, s1) \<and> spaces (fill_zero r s1) (r # rs) ps \<and> untouched rs s (fill_zero r s1)
     \<and> tree_frames (ram (fill_zero r s1)) 1 r = [r]"
proof -
  have p: "pool s (r # ps)" and r: "is_frame_pa r" using assms by (auto simp: spaces_def pool_def)
  obtain s1 where s1: "get_free_frame_pa s = (Some r, s1)" "pool s1 ps" "ram s1 = ram s" using get_free_frame_pa_Cons [OF p] by metis
  let ?g = "fill_zero r s1"
  have k: "keeps {r} (ram s) (ram ?g)" using keeps_fill_zero [OF r, of s1] s1(3) by simp
  have dj: "{r} \<inter> set (concat (map (tree_frames (ram s) 1) rs)) = {}" "set ps \<inter> set (concat (map (tree_frames (ram s) 1) rs)) = {}" "r \<notin> set ps"
    using assms by (auto simp: spaces_def)
  have u: "untouched rs s ?g" by (rule keeps_untouched [OF assms k dj(1)])
  have pg: "pool ?g ps" by (rule pool_keeps [OF s1(2) keeps_fill_zero [OF r]]) (use dj(3) in simp_all)
  have tr: "tree_frames (ram ?g) 1 r = [r]" using r by (intro tree_empty_table) auto
  have "spaces ?g rs ps" by (rule spaces_untouched [OF assms u pg dj(2)])
  moreover have "owned ?g r ps" using pg tr r dj(3) by (simp add: owned_def pool_def)
  ultimately have "spaces ?g (r # rs) ps" using dj(1) tr untouched_frames [OF u] unfolding spaces_Cons by simp
  then show ?thesis using s1(1) u tr by blast
qed

section \<open>Operations on one address space\<close>

lemma same_space_put_page:
  assumes o: "owned s t ps" and a: "ttbr0_to_ttbr1 va (Some t) s = Some a" and n: "unat (va AND 0xFFF) + length bs \<le> 4096"
  shows "same_space t ps s (s\<lparr>ram := put_bytes (ram s) a bs\<rparr>)"
proof -
  obtain p where p: "node (ram s) t (path va) = Some p" "a = ttbr1_to_va (p + (va AND 0xFFF))"
    using a by (auto simp: ttbr0_to_ttbr1_def ttbr0_to_pa_node translation_table_def)
  have fp: "is_frame_pa p" "p \<in> set_mset (all_frames s t ps)" using owned_node [OF o p(1)] by (auto simp: all_frames_def)
  note k = keeps_put_bytes(1) [OF fp(1) n, where m = "ram s"]
  show ?thesis unfolding same_space_def p(2) ttbr1_to_va_offset [OF fp(1)]
    using owned_data_write [OF o p(1) k] keeps_mono [OF k] fp(2) by auto
qed

lemma copy_loop_same_space:
  "owned s t ps \<Longrightarrow> same_space t ps s (snd (copy_loop src off va (Some t) s))"
proof (induction src off va "Some t" s rule: copy_loop.induct)
  case (1 src off va s)
  show ?case
  proof (cases "off < length src \<and> ttbr0_to_ttbr1 va (Some t) s \<noteq> None")
    case False
    then show ?thesis using 1(2) by (subst copy_loop.simps) (auto simp: same_space_refl)
  next
    case True
    then obtain a where a: "off < length src" "ttbr0_to_ttbr1 va (Some t) s = Some a" by auto
    let ?n = "min (unat (PAGE_SIZE - (va AND (PAGE_SIZE - 1)))) (length src - off)"
    have "unat (va AND 0xFFF) + ?n \<le> 4096" unfolding page_rest(1) unat_and_fff by simp
    then have "unat (va AND 0xFFF) + length (take ?n (drop off src)) \<le> 4096" by simp
    note ss = same_space_put_page [OF 1(2) a(2) this]
    moreover have "owned (s\<lparr>ram := put_bytes (ram s) a (take ?n (drop off src))\<rparr>) t ps" using ss by (simp add: same_space_def)
    ultimately show ?thesis using a same_space_trans [OF ss] 1(1) [OF a refl] by (subst copy_loop.simps) (simp add: Let_def)
  qed
qed

lemma put_byte: "put_bytes m a [b] = m(a := b)"
  by (auto simp: put_bytes_def fun_eq_iff unat_eq_zero)

inductive pg_step :: "u64 \<Rightarrow> pgstate \<times> u64 list \<Rightarrow> pgstate \<times> u64 list \<Rightarrow> bool" where
  map_page: "r \<in> set rs \<Longrightarrow> alloc_page va (Some r) s = Inr (pa, s') \<Longrightarrow> pg_step r (s, rs) (s', rs)"
| unmap_page: "r \<in> set rs \<Longrightarrow> pg_step r (s, rs) (free_page va (Some r) s, rs)"
| write_pages: "r \<in> set rs \<Longrightarrow> copy_to_pages bs va (Some r) s = (res, s') \<Longrightarrow> pg_step r (s, rs) (s', rs)"
| user_store: "r \<in> set rs \<Longrightarrow> ttbr0_to_ttbr1 va (Some r) s = Some a \<Longrightarrow> pg_step r (s, rs) (s\<lparr>ram := (ram s)(a := b)\<rparr>, rs)"
| duplicate: "r \<in> set rs \<Longrightarrow> duplicate_va_space (Some r) s = (Inr d, s') \<Longrightarrow> pg_step r (s, rs) (s', d # rs)"
| duplicate_fails: "r \<in> set rs \<Longrightarrow> duplicate_va_space (Some r) s = (Inl e, s') \<Longrightarrow> pg_step r (s, rs) (s', rs)"
| free_all: "r \<in> set rs \<Longrightarrow> pg_step r (s, rs) (free_page_table (Some r) s, remove1 r rs)"

lemma one_space:
  assumes "spaces s rs ps" "r \<in> set rs" "owned s' r ps'" "all_frames s' r ps' = all_frames s r ps" "keeps F (ram s) (ram s')"
    "F \<subseteq> set_mset (all_frames s r ps)"
  shows "\<exists>ps'. spaces s' rs ps' \<and> untouched (removeAll r rs) s s' \<and> frames_in s' rs ps' = frames_in s rs ps"
proof -
  note f = spaces_front [OF assms(1,2)]
  note st = spaces_step [OF f assms(3,4) keeps_mono [OF assms(5,6)]]
  have "removeAll r rs = remove1 r rs" using spaces_distinct [OF assms(1)] by (simp add: distinct_remove1_removeAll)
  moreover have "frames_in s' rs ps' = frames_in s rs ps" using st(3) assms(2) by (simp add: frames_in_def flip: insert_DiffM2)
  ultimately show ?thesis using spaces_perm [OF st(1), of rs] st(2) assms(2) by (intro exI [of _ ps']) simp
qed

lemma pg_step_spaces:
  assumes "pg_step r (s, rs) (s', rs')" "spaces s rs ps"
  shows "\<exists>ps'. spaces s' rs' ps' \<and> untouched (removeAll r rs) s s' \<and> frames_in s' rs' ps' = frames_in s rs ps"
  using assms(1)
proof cases
  case (map_page va pa)
  note o = spaces_owned [OF assms(2) map_page(2)]
  show ?thesis using alloc_page_Inr [OF o map_page(3)] one_space [OF assms(2) map_page(2) _ _ _ tables_pool_subset] map_page(1) by blast
next
  case (unmap_page va)
  note o = spaces_owned [OF assms(2) unmap_page(3)]
  show ?thesis
  proof (cases "node (ram s) r (path va)")
    case None
    then have "s' = s" using unmap_page(1) by (auto simp: free_page_def path_def translation_table_def Let_def split: if_splits)
    then show ?thesis using assms(2) unmap_page(2) by auto
  next
    case (Some p)
    note f = free_page_spec [OF o Some, folded unmap_page(1)]
    have "set (tree_tables (ram s) 1 r) \<union> {p} \<subseteq> set_mset (all_frames s r ps)"
      using tables_subset [of "ram s" 1 r] owned_node(1) [OF o Some] by (auto simp: all_frames_def)
    then show ?thesis using one_space [OF assms(2) unmap_page(3) f(1,2,5)] unmap_page(2) by blast
  qed
next
  case (write_pages bs va res)
  note o = spaces_owned [OF assms(2) write_pages(2)]
  have "same_space r ps s s'" using copy_loop_same_space [OF o, of bs 0 va] write_pages(3) by (simp add: copy_to_pages_def)
  then show ?thesis using one_space [OF assms(2) write_pages(2)] write_pages(1) by (auto simp: same_space_def)
next
  case (user_store va a b)
  note o = spaces_owned [OF assms(2) user_store(3)]
  have "unat (va AND 0xFFF) + length [b] \<le> 4096" by (simp add: unat_and_fff Suc_le_eq)
  from same_space_put_page [OF o user_store(4) this] have "same_space r ps s s'" using user_store(1) by (simp add: put_byte)
  then show ?thesis using one_space [OF assms(2) user_store(3)] user_store(2) by (auto simp: same_space_def)
next
  case (duplicate d)
  note f = spaces_front [OF assms(2) duplicate(2)]
  have "length (tree_frames (ram s) 1 r) \<le> length ps" using spaces_dup_fails [OF f] duplicate(3) by (cases "length ps < length (tree_frames (ram s) 1 r)") auto
  from spaces_dup [OF f this] duplicate(3) obtain ps' where d: "spaces s' (d # r # remove1 r rs) ps'" "untouched (r # remove1 r rs) s s'"
    "frames_in s' (d # r # remove1 r rs) ps' = frames_in s (r # remove1 r rs) ps" by auto
  have "spaces s' (d # rs) ps'" using d(1) duplicate(2) by (auto intro: spaces_perm)
  moreover have "frames_in s' (d # rs) ps' = frames_in s rs ps" using d(3) duplicate(2) by (simp add: frames_in_def flip: insert_DiffM2)
  moreover have "untouched (removeAll r rs) s s'" by (rule untouched_mono [OF d(2)]) auto
  ultimately show ?thesis using duplicate(1) by blast
next
  case (duplicate_fails e)
  note f = spaces_front [OF assms(2) duplicate_fails(2)]
  have "length ps < length (tree_frames (ram s) 1 r)" using spaces_dup [OF f] duplicate_fails(3) by (cases "length ps < length (tree_frames (ram s) 1 r)") auto
  from spaces_dup_fails [OF f this] duplicate_fails(3) obtain ps' where d: "spaces s' (r # remove1 r rs) ps'" "untouched (r # remove1 r rs) s s'"
    "frames_in s' (r # remove1 r rs) ps' = frames_in s (r # remove1 r rs) ps" by auto
  have "spaces s' rs ps'" using d(1) duplicate_fails(2) by (auto intro: spaces_perm)
  moreover have "frames_in s' rs ps' = frames_in s rs ps" using d(3) duplicate_fails(2) by (simp add: frames_in_def flip: insert_DiffM2)
  moreover have "untouched (removeAll r rs) s s'" by (rule untouched_mono [OF d(2)]) auto
  ultimately show ?thesis using duplicate_fails(1) by blast
next
  case free_all
  have "removeAll r rs = remove1 r rs" using spaces_distinct [OF assms(2)] by (simp add: distinct_remove1_removeAll)
  moreover have "frames_in s (r # remove1 r rs) ps = frames_in s rs ps" using free_all(3) by (intro frames_in_perm) simp
  ultimately show ?thesis using spaces_free [OF spaces_front [OF assms(2) free_all(3)]] free_all(1,2) by auto
qed

inductive pg_run :: "u64 list \<Rightarrow> pgstate \<times> u64 list \<Rightarrow> pgstate \<times> u64 list \<Rightarrow> bool" where
  pg_done: "pg_run [] c c"
| pg_more: "pg_step r c c' \<Longrightarrow> pg_run acts c' c'' \<Longrightarrow> pg_run (r # acts) c c''"

inductive_cases pg_stepE: "pg_step r c c'"

lemma pg_step_keeps_root: "pg_step r c c' \<Longrightarrow> t \<in> set (snd c) \<Longrightarrow> t \<noteq> r \<Longrightarrow> t \<in> set (snd c')"
  by (erule pg_stepE) auto

lemma pg_run_isolated:
  "pg_run acts c c' \<Longrightarrow> spaces (fst c) (snd c) ps \<Longrightarrow>
   \<exists>ps'. spaces (fst c') (snd c') ps' \<and> frames_in (fst c') (snd c') ps' = frames_in (fst c) (snd c) ps
     \<and> (\<forall>t. t \<in> set (snd c) \<and> t \<notin> set acts \<longrightarrow> t \<in> set (snd c') \<and> (\<forall>x. umem (fst c') t x = umem (fst c) t x))"
proof (induction arbitrary: ps rule: pg_run.induct)
  case (pg_done c)
  then show ?case by blast
next
  case (pg_more r c c' acts c'')
  obtain ps1 where s1: "spaces (fst c') (snd c') ps1" "untouched (removeAll r (snd c)) (fst c) (fst c')"
    "frames_in (fst c') (snd c') ps1 = frames_in (fst c) (snd c) ps"
    using pg_step_spaces [of r "fst c" "snd c" "fst c'" "snd c'"] pg_more.hyps(1) pg_more.prems by auto
  from pg_more.IH [OF s1(1)] obtain ps2 where s2: "spaces (fst c'') (snd c'') ps2"
    "frames_in (fst c'') (snd c'') ps2 = frames_in (fst c') (snd c') ps1"
    "\<And>t. t \<in> set (snd c') \<Longrightarrow> t \<notin> set acts \<Longrightarrow> t \<in> set (snd c'') \<and> (\<forall>x. umem (fst c'') t x = umem (fst c') t x)" by blast
  have "t \<in> set (snd c'') \<and> (\<forall>x. umem (fst c'') t x = umem (fst c) t x)" if "t \<in> set (snd c)" "t \<notin> set (r # acts)" for t
    using s2(3) [of t] s1(2) that pg_step_keeps_root [OF pg_more.hyps(1), of t] by (auto simp: untouched_def)
  then show ?case using s1(3) s2(1,2) by auto
qed

text \<open>C1. Address spaces are isolated: over any sequence of paging operations and user stores, an address space that none of them names keeps every byte and
  every mapping; at every point no two address spaces share a frame, nor does any with the free list, and no frame is lost.\<close>

theorem address_spaces_isolated:
  assumes "spaces s rs ps" "pg_run acts (s, rs) (s', rs')"
  shows "(\<exists>ps'. spaces s' rs' ps' \<and> frames_in s' rs' ps' = frames_in s rs ps)
     \<and> (\<forall>t \<in> set rs. t \<notin> set acts \<longrightarrow> t \<in> set rs' \<and> (\<forall>x. umem s' t x = umem s t x))"
  using pg_run_isolated [OF assms(2), of ps] assms(1) unfolding fst_conv snd_conv by blast

theorem address_spaces_isolated_witness:
  "\<exists>s pa d s' s'' rs. alloc_page 0x400000 (Some 0x107000) (demo_pg 0xffffff8000108000) = Inr (pa, s)
     \<and> duplicate_va_space (Some 0x107000) s = (Inr d, s') \<and> d \<noteq> 0x107000 \<and> s'' = free_page 0x400000 (Some 0x107000) s'
     \<and> umem s'' d 0x400000 = umem s' d 0x400000"
proof -
  obtain pa s ps where a: "alloc_page 0x400000 (Some 0x107000) (demo_pg 0xffffff8000108000) = Inr (pa, s)"
    "owned s 0x107000 ps" "length (tree_frames (ram s) 1 0x107000) \<le> length ps" using demo_mapped by blast
  have "spaces s [0x107000] ps" using a(2) by (simp add: spaces_Cons) (simp add: spaces_def owned_def)
  from spaces_dup [OF this a(3)] obtain d s' ps' where d: "duplicate_va_space (Some 0x107000) s = (Inr d, s')" "spaces s' [d, 0x107000] ps'" by blast
  have ne: "d \<noteq> 0x107000" using spaces_distinct [OF d(2)] by simp
  have "pg_run [0x107000] (s', [d, 0x107000]) (free_page 0x400000 (Some 0x107000) s', [d, 0x107000])"
    by (rule pg_more [OF unmap_page pg_done]) simp
  from address_spaces_isolated [OF d(2) this] show ?thesis using a(1) d(1) ne by auto
qed

end
