(* ===== verification/ElfSpec.thy ===== *)
theory ElfSpec
  imports AddressSpaces
begin

text \<open>
  What \<^verbatim>\<open>load_elf\<close> promises: the new address space holds every loadable segment of the file and a user stack, and nothing else. The loader takes the frame of the
  top level table as it comes from the free list and does not clear it; that this is an empty table is a property of the free list (\<open>blank\<close>).
\<close>

section \<open>Frames of the free list as empty tables\<close>

definition blank :: "ram \<Rightarrow> u64 \<Rightarrow> bool" where
  "blank m p \<longleftrightarrow> (\<forall>i < 512. \<not> is_valid (entry m p i))"

lemma blank_same_frame: "is_frame_pa p \<Longrightarrow> same_frame m m' (ttbr1_to_va p) \<Longrightarrow> blank m' p = blank m p"
  by (simp add: blank_def entry_def same_frame_ld64 [of m m'] frame_va_aligned)

lemma aligned_invalid: "page_aligned v \<Longrightarrow> \<not> is_valid v"
proof
  assume "page_aligned v" "is_valid v"
  then have "\<not> bit v 0" "bit (v AND 0b11) 0" by (simp_all add: bit_12 is_valid_def)
  then show False by (simp add: bit_simps)
qed

text \<open>A frame given back is cleared up to the link of the list, and neither the tag nor the pointer of the link is a valid table entry.\<close>

lemma add_free_frame_blank:
  assumes "pool s ps" "is_frame_pa p" "p \<notin> set ps"
  shows "blank (ram (add_free_frame (ttbr1_to_va p) s)) p" "q \<in> set ps \<Longrightarrow> blank (ram (add_free_frame (ttbr1_to_va p) s)) q = blank (ram s) q"
proof -
  let ?f = "ttbr1_to_va p"
  have al: "page_aligned ?f" using assms(2) by (rule frame_va_aligned)
  have e: "ld64 (write_next (write_bytes (ram s) ?f 0 4096) ?f n) (slot ?f i) =
     (case n of None \<Rightarrow> 0 | Some v \<Rightarrow> if i = 0 then 1 else if i = 1 then v else 0)" if "i < 512" for n i
    using that al by (cases n; cases "i = 0"; cases "i = 1") (simp_all add: write_next_def ld64_st64_other)
  have "page_aligned v" if "FREE_FRAME_LIST s = Some v" for v
    using assms(1) that frame_va_aligned by (cases ps) (auto simp: pool_def)
  then have "\<not> is_valid (case FREE_FRAME_LIST s of None \<Rightarrow> 0 | Some v \<Rightarrow> if i = 0 then 1 else if i = 1 then v else 0)" for i :: nat
    using aligned_invalid by (simp add: is_valid_def split: option.split)
  then show "blank (ram (add_free_frame ?f s)) p"
    using e by (simp add: blank_def entry_def add_free_frame_fields [OF al])
  assume q: "q \<in> set ps"
  then have "is_frame_pa q" "q \<noteq> p" using assms by (auto simp: pool_def)
  then show "blank (ram (add_free_frame ?f s)) q = blank (ram s) q"
    using add_free_frame_other [OF al, of "ttbr1_to_va q" s] assms(2) blank_same_frame by simp
qed

lemma add_free_frames_blank:
  "pool s ps \<Longrightarrow> (\<forall>p \<in> set ps. blank (ram s) p) \<Longrightarrow> distinct qs \<Longrightarrow> (\<forall>q \<in> set qs. is_frame_pa q \<and> q \<notin> set ps) \<Longrightarrow>
   \<forall>p \<in> set ps \<union> set qs. blank (ram (fold (\<lambda>p. add_free_frame (ttbr1_to_va p)) qs s)) p"
proof (induction qs arbitrary: s ps)
  case (Cons q qs)
  have q: "is_frame_pa q" "q \<notin> set ps" using Cons.prems(4) by simp_all
  note b = add_free_frame_blank [OF Cons.prems(1) q]
  have "\<forall>p \<in> set (q # ps). blank (ram (add_free_frame (ttbr1_to_va q) s)) p" using b Cons.prems(2) by auto
  then show ?case using Cons.IH [OF add_free_frame_pool [OF Cons.prems(1) q]] Cons.prems(3,4) by auto
qed simp

lemma init_frames_blank:
  assumes "page_aligned a" "0xffffff8000000000 \<le> a" "a \<le> b" "FREE_FRAME_LIST s = None" "FREE_FRAME_COUNT s = 0"
  shows "\<forall>p \<in> set (map ttbr1_to_pa (step_by_page a b)). blank (ram (init_frames a b s)) p"
proof -
  let ?ps = "map ttbr1_to_pa (step_by_page a b)"
  have vs: "map ttbr1_to_va ?ps = step_by_page a b" using step_by_page_frames(2) [OF assms(1-3)] by (simp add: map_idI)
  then have "distinct ?ps" using step_by_page_frames(1) [OF assms(1-3)] by (metis distinct_map)
  moreover have "\<forall>p \<in> set ?ps. is_frame_pa p" using step_by_page_frames(2) [OF assms(1-3)] by (auto simp: is_frame_va_def)
  moreover have "pool s []" using assms(4,5) by (simp add: pool_def)
  ultimately have "\<forall>p \<in> set ?ps. blank (ram (fold (\<lambda>p. add_free_frame (ttbr1_to_va p)) ?ps s)) p"
    using add_free_frames_blank [of s "[]" ?ps] by simp
  moreover have "fold (\<lambda>p. add_free_frame (ttbr1_to_va p)) ?ps = fold add_free_frame (step_by_page a b)"
    using fold_map [of add_free_frame ttbr1_to_va ?ps] by (simp only: vs comp_def)
  ultimately show ?thesis by (simp add: init_frames_def Let_def)
qed

lemma spaces_blank:
  assumes "spaces s rs (r # ps)" "blank (ram s) r"
  shows "\<exists>s1. get_free_frame_pa s = (Some r, s1) \<and> spaces s1 (r # rs) ps \<and> ram s1 = ram s \<and> tree_frames (ram s1) 1 r = [r] \<and> (\<forall>va. \<not> mapped va r s1)"
proof -
  have p: "pool s (r # ps)" and r: "is_frame_pa r" using assms by (auto simp: spaces_def pool_def)
  obtain s1 where s1: "get_free_frame_pa s = (Some r, s1)" "pool s1 ps" "ram s1 = ram s" using get_free_frame_pa_Cons [OF p] by metis
  have tr: "tree_frames (ram s1) 1 r = [r]" using assms(2) s1(3) by (intro tree_empty_table) (simp_all add: blank_def)
  have "\<not> mapped va r s1" for va
    using assms(2) s1(3) by (simp add: ttbr0_to_pa_def translation_table_def blank_def)
  moreover have "spaces s1 (r # rs) ps" using assms(1) s1(2,3) tr r by (auto simp: spaces_def)
  ultimately show ?thesis using s1(1,3) tr by blast
qed

section \<open>The segments of a file\<close>

definition seg_pages :: "Elf64ProgHdr \<Rightarrow> nat set" where
  "seg_pages ph = {q. unat (virtaddr ph) div 4096 \<le> q \<and> q * 4096 < unat (virtaddr ph) + unat (memsize ph)}"

definition seg_end :: "Elf64ProgHdr \<Rightarrow> nat" where
  "seg_end ph = unat (virtaddr ph) + unat (memsize ph)"

definition segment_fits :: "u8 list \<Rightarrow> Elf64ProgHdr \<Rightarrow> bool" where
  "segment_fits bytes ph \<longleftrightarrow> seg_end ph + 0x17000 \<le> 2 ^ 39 \<and> unat (filesize ph) \<le> unat (memsize ph)
     \<and> unat (p_offset ph) + unat (filesize ph) \<le> length bytes
     \<and> (memsize ph = filesize ph \<or> (unat (virtaddr ph) + unat (filesize ph)) mod 4096 = 0)"

definition phdr :: "u8 list \<Rightarrow> u64 \<Rightarrow> nat \<Rightarrow> Elf64ProgHdr" where
  "phdr bytes start i = read_phdr (drop (unat start + 56 * i) bytes)"

definition segs :: "u8 list \<Rightarrow> u64 \<Rightarrow> nat list \<Rightarrow> Elf64ProgHdr list" where
  "segs bytes start is = filter (\<lambda>ph. p_type ph = PT_LOAD) (map (phdr bytes start) is)"

lemma segs_simps [simp]:
  "segs bytes start [] = []"
  "segs bytes start (i # is) = (if p_type (phdr bytes start i) = PT_LOAD then phdr bytes start i # segs bytes start is else segs bytes start is)"
  by (simp_all add: segs_def)

definition disjoint_segs :: "Elf64ProgHdr list \<Rightarrow> bool" where
  "disjoint_segs = sorted_wrt (\<lambda>p q. seg_pages p \<inter> seg_pages q = {})"

lemma segment_fits_ok:
  assumes "segment_fits bytes ph" "length bytes < 2 ^ 64" "\<And>x. x < 2 ^ 39 \<Longrightarrow> x div 4096 \<in> seg_pages ph \<Longrightarrow> \<not> mapped (of_nat x) t s"
  shows "segment_ok bytes ph t s"
  unfolding segment_ok_def
proof (intro conjI allI impI)
  fix x assume x: "unat (virtaddr ph) div 4096 * 4096 \<le> x \<and> x < unat (virtaddr ph) + unat (memsize ph)"
  then have "x < 2 ^ 39" using assms(1) by (simp add: segment_fits_def seg_end_def)
  moreover have "x div 4096 * 4096 \<le> x" by simp
  then have "x div 4096 \<in> seg_pages ph" using x by (auto simp: seg_pages_def less_eq_div_iff_mult_less_eq simp del: div_times_less_eq_dividend)
  ultimately show "\<not> mapped (of_nat x) t s" by (rule assms(3))
qed (use assms in \<open>simp_all add: segment_fits_def seg_end_def\<close>)

lemma load_segment_more:
  assumes "owned s t ps" "segment_fits bytes ph" "length bytes < 2 ^ 64" "\<And>x. x < 2 ^ 39 \<Longrightarrow> x div 4096 \<in> seg_pages ph \<Longrightarrow> \<not> mapped (of_nat x) t s"
    "3 * segment_pages ph \<le> length ps"
  shows "\<exists>s' ps'. load_segment bytes ph t s = Inr s' \<and> owned s' t ps' \<and> all_frames s' t ps' = all_frames s t ps
     \<and> length ps \<le> length ps' + 3 * segment_pages ph \<and> keeps (set_mset (all_frames s t ps)) (ram s) (ram s')
     \<and> (\<forall>k < unat (memsize ph). umem s' t (unat (virtaddr ph) + k) = Some (file_byte bytes ph k))
     \<and> (\<forall>x < 2 ^ 39. mapped (of_nat x) t s' \<longleftrightarrow> mapped (of_nat x) t s \<or> x div 4096 \<in> seg_pages ph)
     \<and> (\<forall>x < 2 ^ 39. mapped (of_nat x) t s \<longrightarrow> umem s' t x = umem s t x)"
proof -
  note ok = segment_fits_ok [OF assms(2,3,4)]
  obtain s' ps' where s': "load_segment bytes ph t s = Inr s'" "owned s' t ps'" "all_frames s' t ps' = all_frames s t ps"
    "length ps \<le> length ps' + 3 * segment_pages ph" "keeps (set_mset (all_frames s t ps)) (ram s) (ram s')"
    "\<And>x. x < 2 ^ 39 \<Longrightarrow> umem s' t x = (if unat (virtaddr ph) \<le> x \<and> x < unat (virtaddr ph) + unat (memsize ph) then Some (file_byte bytes ph (x - unat (virtaddr ph)))
           else if mapped (of_nat x) t s then umem s t x else umem s' t x)"
    "\<And>x. x < 2 ^ 39 \<Longrightarrow> mapped (of_nat x) t s' \<longleftrightarrow> mapped (of_nat x) t s \<or> x div 4096 \<in> seg_pages ph"
    using load_segment_spec [OF assms(1) ok assms(5)] unfolding seg_pages_def by blast
  have b: "x < 2 ^ 39" if "x < unat (virtaddr ph) + unat (memsize ph)" for x using that assms(2) by (simp add: segment_fits_def seg_end_def)
  have "umem s' t (unat (virtaddr ph) + k) = Some (file_byte bytes ph k)" if "k < unat (memsize ph)" for k
    using s'(6) [OF b, of "unat (virtaddr ph) + k"] that by simp
  moreover have "umem s' t x = umem s t x" if "x < 2 ^ 39" "mapped (of_nat x) t s" for x
  proof -
    have "\<not> (unat (virtaddr ph) \<le> x \<and> x < unat (virtaddr ph) + unat (memsize ph))"
      using ok that(2) order_trans [of "unat (virtaddr ph) div 4096 * 4096" "unat (virtaddr ph)" x] by (auto simp: segment_ok_def)
    then show ?thesis using s'(6) [OF that(1)] that(2) by (simp only: simp_thms if_True if_False)
  qed
  ultimately show ?thesis using s'(1-5,7) by blast
qed

lemma load_segments_step:
  assumes "unat start + 56 * i + 56 \<le> length bytes" "length bytes < 2 ^ 64"
  shows "load_segments bytes start t (i # is) la mx s =
     (let ph = phdr bytes start i in
      if p_type ph = PT_LOAD
      then kbind (load_segment bytes ph t s) (\<lambda>s.
           load_segments bytes start t is True (if mx < virtaddr ph + memsize ph then virtaddr ph + memsize ph else mx) s)
      else load_segments bytes start t is la mx s)"
proof -
  have u: "unat (start + of_nat i * 56) = unat start + 56 * i" "unat (start + of_nat i * 56 + 56) = unat start + 56 * i + 56"
    using assms by (simp_all add: unat_word_ariths unat_of_nat)
  then show ?thesis using assms(1) by (simp add: phdr_def Let_def)
qed

lemma unat_max: "unat (if mx < (w :: u64) then w else mx) = max (unat mx) (unat w)"
  by (simp add: word_less_nat_alt max_def)

lemma load_segments_spec:
  assumes "owned s t ps" "length bytes < 2 ^ 64" "\<And>i. i \<in> set is \<Longrightarrow> unat start + 56 * i + 56 \<le> length bytes"
    "\<And>ph. ph \<in> set (segs bytes start is) \<Longrightarrow> segment_fits bytes ph \<and> (\<forall>x < 2 ^ 39. x div 4096 \<in> seg_pages ph \<longrightarrow> \<not> mapped (of_nat x) t s)"
    "disjoint_segs (segs bytes start is)" "3 * sum_list (map segment_pages (segs bytes start is)) \<le> length ps"
  shows "\<exists>s' ps' mx'. load_segments bytes start t is la mx s = Inr (la \<or> segs bytes start is \<noteq> [], mx', s')
     \<and> unat mx' = fold max (map seg_end (segs bytes start is)) (unat mx)
     \<and> owned s' t ps' \<and> all_frames s' t ps' = all_frames s t ps
     \<and> length ps \<le> length ps' + 3 * sum_list (map segment_pages (segs bytes start is)) \<and> keeps (set_mset (all_frames s t ps)) (ram s) (ram s')
     \<and> (\<forall>ph \<in> set (segs bytes start is). \<forall>k < unat (memsize ph). umem s' t (unat (virtaddr ph) + k) = Some (file_byte bytes ph k))
     \<and> (\<forall>x < 2 ^ 39. mapped (of_nat x) t s' \<longleftrightarrow> mapped (of_nat x) t s \<or> (\<exists>ph \<in> set (segs bytes start is). x div 4096 \<in> seg_pages ph))
     \<and> (\<forall>x < 2 ^ 39. mapped (of_nat x) t s \<longrightarrow> umem s' t x = umem s t x)"
  using assms(1,3-)
proof (induction "is" arbitrary: s ps la mx)
  case Nil
  then show ?case by (intro exI [of _ s] exI [of _ ps] exI [of _ mx]) simp
next
  case (Cons i "is")
  let ?ph = "phdr bytes start i"
  note st = load_segments_step [OF Cons.prems(2) [of i] assms(2), simplified Let_def]
  show ?case
  proof (cases "p_type ?ph = PT_LOAD")
    case False
    then show ?thesis using Cons.IH [OF Cons.prems(1)] Cons.prems(2-) st by simp
  next
    case True
    have f: "segment_fits bytes ?ph" "\<And>x. x < 2 ^ 39 \<Longrightarrow> x div 4096 \<in> seg_pages ?ph \<Longrightarrow> \<not> mapped (of_nat x) t s"
      using Cons.prems(3) [of ?ph] True by simp_all
    obtain s1 ps1 where s1: "load_segment bytes ?ph t s = Inr s1" "owned s1 t ps1" "all_frames s1 t ps1 = all_frames s t ps"
      "length ps \<le> length ps1 + 3 * segment_pages ?ph" "keeps (set_mset (all_frames s t ps)) (ram s) (ram s1)"
      "\<forall>k < unat (memsize ?ph). umem s1 t (unat (virtaddr ?ph) + k) = Some (file_byte bytes ?ph k)"
      "\<forall>x < 2 ^ 39. mapped (of_nat x) t s1 \<longleftrightarrow> mapped (of_nat x) t s \<or> x div 4096 \<in> seg_pages ?ph"
      "\<forall>x < 2 ^ 39. mapped (of_nat x) t s \<longrightarrow> umem s1 t x = umem s t x"
      using load_segment_more [OF Cons.prems(1) f(1) assms(2) f(2)] Cons.prems(5) True by auto
    let ?mx = "if mx < virtaddr ?ph + memsize ?ph then virtaddr ?ph + memsize ?ph else mx"
    have e: "unat (virtaddr ?ph + memsize ?ph) = seg_end ?ph" using f(1) by (simp add: segment_fits_def seg_end_def unat_word_ariths)
    have fit: "segment_fits bytes ph \<and> (\<forall>x < 2 ^ 39. x div 4096 \<in> seg_pages ph \<longrightarrow> \<not> mapped (of_nat x) t s1)" if "ph \<in> set (segs bytes start is)" for ph
      using Cons.prems(3) [of ph] Cons.prems(4) that s1(7) True by (auto simp: disjoint_segs_def)
    obtain s' ps' mx' where s': "load_segments bytes start t is True ?mx s1 = Inr (True, mx', s')"
      "unat mx' = fold max (map seg_end (segs bytes start is)) (unat ?mx)"
      "owned s' t ps'" "all_frames s' t ps' = all_frames s1 t ps1" "length ps1 \<le> length ps' + 3 * sum_list (map segment_pages (segs bytes start is))"
      "keeps (set_mset (all_frames s1 t ps1)) (ram s1) (ram s')"
      "\<forall>ph \<in> set (segs bytes start is). \<forall>k < unat (memsize ph). umem s' t (unat (virtaddr ph) + k) = Some (file_byte bytes ph k)"
      "\<forall>x < 2 ^ 39. mapped (of_nat x) t s' \<longleftrightarrow> mapped (of_nat x) t s1 \<or> (\<exists>ph \<in> set (segs bytes start is). x div 4096 \<in> seg_pages ph)"
      "\<forall>x < 2 ^ 39. mapped (of_nat x) t s1 \<longrightarrow> umem s' t x = umem s1 t x"
      using Cons.IH [OF s1(2), of True ?mx] Cons.prems(2,4,5) s1(4) fit True by (auto simp: disjoint_segs_def)
    have "umem s' t (unat (virtaddr ?ph) + k) = Some (file_byte bytes ?ph k)" if k: "k < unat (memsize ?ph)" for k
    proof -
      have x: "unat (virtaddr ?ph) + k < 2 ^ 39" using k f(1) by (simp add: segment_fits_def seg_end_def)
      have "umem s1 t (unat (virtaddr ?ph) + k) = Some (file_byte bytes ?ph k)" using s1(6) k by blast
      moreover from this have "mapped (of_nat (unat (virtaddr ?ph) + k)) t s1" by (auto simp: umem_def)
      ultimately show ?thesis using s'(9) x by simp
    qed
    moreover have "keeps (set_mset (all_frames s t ps)) (ram s) (ram s')" using keeps_trans [OF s1(5) s'(6)] s1(3) by simp
    moreover have "unat mx' = fold max (map seg_end (segs bytes start (i # is))) (unat mx)" using s'(2) True e unfolding unat_max by (simp add: max.commute)
    ultimately show ?thesis
      using s1 s' st True by (intro exI [of _ s'] exI [of _ ps'] exI [of _ mx']) auto
  qed
qed

section \<open>The user stack\<close>

definition user_stack_top :: "nat \<Rightarrow> nat" where
  "user_stack_top e = (e + 0x16000) div 16 * 16"

definition stack_pages :: "nat \<Rightarrow> nat set" where
  "stack_pages top' = {(top' - 1) div 4096 - 13..(top' - 1) div 4096}"

lemma stack_top_word:
  assumes "unat mx + 0x17000 \<le> 2 ^ 39"
  shows "unat ((mx + 0x16000) AND NOT 0xf :: u64) = user_stack_top (unat mx)"
proof -
  let ?w = "mx + 0x16000"
  have u: "unat ?w = unat mx + 0x16000" using assms by (simp add: unat_word_ariths)
  have f: "(0xf :: u64) = mask 4" by (simp add: mask_eq_exp_minus_1)
  have "?w AND NOT (mask 4) = push_bit 4 (drop_bit 4 ?w)" by (rule bit_word_eqI) (auto simp: bit_simps)
  then have "unat (?w AND NOT 0xf) = unat ?w div 16 * 16 mod 2 ^ 64" unfolding f by (simp add: push_bit_eq_mult drop_bit_eq_div unat_word_ariths unat_div)
  also have "unat ?w div 16 * 16 mod 2 ^ 64 = unat ?w div 16 * 16"
    using le_less_trans [OF div_times_less_eq_dividend unat_bound [of ?w]] by simp
  finally show ?thesis unfolding user_stack_top_def u .
qed

lemma stack_loop: "for_halt (\<lambda>i s. kbind (alloc_page (f i) (Some t) s) (\<lambda>(_, s). Inr s)) is s = alloc_all t (map f is) s"
  by (induction "is" arbitrary: s) (simp_all add: kbind_def split: sum.splits prod.splits)

lemma sub_pages: "4096 * i \<le> a \<Longrightarrow> (a - 4096 * i) div 4096 = a div 4096 - (i :: nat)"
proof -
  assume "4096 * i \<le> a"
  then obtain b where "a = b + 4096 * i" using le_Suc_ex by (metis add.commute)
  then show ?thesis by simp
qed

lemma stack_vas:
  assumes "unat w = top'" "14 * 4096 < top'" "top' \<le> 2 ^ 39"
  defines "vas \<equiv> map (\<lambda>i. w - of_nat i * 4096 - 1) [0..<14]"
  shows "distinct (map va_page vas)" "\<And>x. x < 2 ^ 39 \<Longrightarrow> va_page (of_nat x) \<in> va_page ` set vas \<longleftrightarrow> x div 4096 \<in> stack_pages top'"
    "\<And>va. va \<in> set vas \<Longrightarrow> \<exists>x < 2 ^ 39. va = of_nat x \<and> x div 4096 \<in> stack_pages top'"
proof -
  let ?q = "(top' - 1) div 4096"
  have w: "w = of_nat top'" using assms(1) by auto
  have i: "w - of_nat i * 4096 - 1 = of_nat (top' - 1 - 4096 * i)" "top' - 1 - 4096 * i < 2 ^ 39" "(top' - 1 - 4096 * i) div 4096 = ?q - i" if "i < 14" for i
    using that assms(2,3) sub_pages [of i "top' - 1"] unfolding w by (simp_all add: of_nat_diff)
  have q: "13 \<le> ?q" using assms(2) by simp
  have vq: "unat (va_page (w - of_nat i * 4096 - 1)) = ?q - i" if "i < 14" for i
    using va_page_nat [OF i(2) [OF that]] i(1,3) [OF that] by simp
  have eq: "va_page (of_nat x) = va_page (w - of_nat i * 4096 - 1) \<longleftrightarrow> x div 4096 = ?q - i" if "x < 2 ^ 39" "i < 14" for x i
    using va_page_nat [OF that(1)] vq [OF that(2)] by (metis word_unat_eq_iff)
  have "inj_on (\<lambda>i. va_page (w - of_nat i * 4096 - 1)) {0..<14}"
    by (rule inj_on_inverseI [of _ "\<lambda>v. ?q - unat v"]) (use vq q in simp)
  then show "distinct (map va_page vas)" by (simp add: vas_def distinct_map comp_def)
  show "va_page (of_nat x) \<in> va_page ` set vas \<longleftrightarrow> x div 4096 \<in> stack_pages top'" if x: "x < 2 ^ 39" for x
  proof -
    have "va_page (of_nat x) \<in> va_page ` set vas \<longleftrightarrow> (\<exists>i \<in> {0..<14}. x div 4096 = ?q - i)"
      unfolding vas_def image_image set_map image_iff using eq [OF x] by (intro bex_cong) auto
    also have "\<dots> \<longleftrightarrow> x div 4096 \<in> stack_pages top'"
    proof
      assume "\<exists>i \<in> {0..<14}. x div 4096 = ?q - i"
      then show "x div 4096 \<in> stack_pages top'" unfolding stack_pages_def by (elim bexE) (simp, linarith)
    next
      assume "x div 4096 \<in> stack_pages top'"
      then have "x div 4096 = ?q - (?q - x div 4096)" "?q - x div 4096 < 14" using q unfolding stack_pages_def atLeastAtMost_iff by linarith+
      then show "\<exists>i \<in> {0..<14}. x div 4096 = ?q - i" by (intro bexI [of _ "?q - x div 4096"]) simp_all
    qed
    finally show ?thesis .
  qed
  show "\<exists>x < 2 ^ 39. va = of_nat x \<and> x div 4096 \<in> stack_pages top'" if va: "va \<in> set vas" for va
  proof -
    obtain j where "j < 14" "va = w - of_nat j * 4096 - 1" using va unfolding vas_def set_map set_upt by (elim imageE) simp
    then show ?thesis using i [of j] q unfolding stack_pages_def by (intro exI [of _ "top' - 1 - 4096 * j"]) (simp, linarith)
  qed
qed

section \<open>The whole file\<close>

definition load_segs :: "u8 list \<Rightarrow> Elf64ProgHdr list" where
  "load_segs bytes = segs bytes (phoff (read_hdr bytes)) [0..<unat (phnum (read_hdr bytes))]"

definition image_end :: "u8 list \<Rightarrow> nat" where
  "image_end bytes = fold max (map seg_end (load_segs bytes)) 0"

definition image_pages :: "u8 list \<Rightarrow> nat" where
  "image_pages bytes = sum_list (map segment_pages (load_segs bytes))"

definition loadable :: "u8 list \<Rightarrow> bool" where
  "loadable bytes \<longleftrightarrow> 64 \<le> length bytes \<and> length bytes < 2 ^ 64 \<and> verify (read_hdr bytes)
     \<and> unat (phoff (read_hdr bytes)) + 56 * unat (phnum (read_hdr bytes)) \<le> length bytes
     \<and> load_segs bytes \<noteq> [] \<and> (\<forall>ph \<in> set (load_segs bytes). segment_fits bytes ph) \<and> disjoint_segs (load_segs bytes)"

lemma fold_max:
  "fold max xs (n :: nat) \<le> B \<longleftrightarrow> n \<le> B \<and> (\<forall>x \<in> set xs. x \<le> B)" "x \<in> set xs \<Longrightarrow> x \<le> fold max xs n"
proof -
  show a: "fold max xs (n :: nat) \<le> B \<longleftrightarrow> n \<le> B \<and> (\<forall>x \<in> set xs. x \<le> B)" for n B by (induction xs arbitrary: n) auto
  show "x \<in> set xs \<Longrightarrow> x \<le> fold max xs n" using a [of n "fold max xs n"] by blast
qed

lemma image_end_bounds:
  assumes "loadable bytes"
  shows "image_end bytes + 0x17000 \<le> 2 ^ 39" "ph \<in> set (load_segs bytes) \<Longrightarrow> seg_end ph \<le> image_end bytes"
  using assms fold_max(1) [of "map seg_end (load_segs bytes)" 0 "2 ^ 39 - 0x17000"] fold_max(2) [of "seg_end ph" "map seg_end (load_segs bytes)" 0]
  by (auto simp: loadable_def segment_fits_def image_end_def)

lemma seg_below_stack:
  assumes "q * 4096 < e" "p \<in> stack_pages (user_stack_top e)"
  shows "q + 1 < p"
proof -
  define T where "T = user_stack_top e"
  have "e + 0x16000 < T + 16" by (simp add: T_def user_stack_top_def)
  then have "e + 0x15FF0 \<le> T - 1" by simp
  moreover have "(T - 1) div 4096 \<le> p + 13" using assms(2) by (auto simp: stack_pages_def T_def)
  ultimately have "e + 0x15FF0 < (p + 14) * 4096" using div_less_iff_less_mult [of 4096 "T - 1" "p + 14"] by simp
  then show ?thesis using assms(1) by simp
qed

lemma umem_ram: "ram s' = ram s \<Longrightarrow> umem s' t x = umem s t x"
  by (simp add: umem_def ttbr0_to_pa_def translation_table_def Let_def)

lemma load_elf_spec:
  assumes sp: "spaces s rs (t # ps)" and bl: "blank (ram s) t" and ok: "loadable bytes" and len: "3 * (image_pages bytes + 14) \<le> length ps"
  defines "T \<equiv> user_stack_top (image_end bytes)"
  shows "\<exists>s' ps'. load_elf bytes s = Inr (Inr (e_entry (read_hdr bytes), of_nat T, t), s') \<and> T < 2 ^ 39
     \<and> spaces s' (t # rs) ps' \<and> untouched rs s s' \<and> frames_in s' (t # rs) ps' = frames_in s rs (t # ps)
     \<and> length ps \<le> length ps' + 3 * (image_pages bytes + 14)
     \<and> (\<forall>ph \<in> set (load_segs bytes). \<forall>k < unat (memsize ph). umem s' t (unat (virtaddr ph) + k) = Some (file_byte bytes ph k))
     \<and> (\<forall>x < 2 ^ 39. umem s' t x \<noteq> None \<longleftrightarrow> x div 4096 \<in> stack_pages T \<or> (\<exists>ph \<in> set (load_segs bytes). x div 4096 \<in> seg_pages ph))"
proof -
  let ?h = "read_hdr bytes" and ?S = "load_segs bytes"
  obtain s1 where s1: "get_free_frame_pa s = (Some t, s1)" "spaces s1 (t # rs) ps" "ram s1 = ram s" "tree_frames (ram s1) 1 t = [t]" "\<And>va. \<not> mapped va t s1"
    using spaces_blank [OF sp bl] by blast
  have o1: "owned s1 t ps" using s1(2) by (simp add: spaces_Cons)
  have b: "length bytes < 2 ^ 64" "\<And>i. i \<in> set [0..<unat (phnum ?h)] \<Longrightarrow> unat (phoff ?h) + 56 * i + 56 \<le> length bytes"
    using ok by (auto simp: loadable_def)
  have sg: "\<And>ph. ph \<in> set ?S \<Longrightarrow> segment_fits bytes ph \<and> (\<forall>x < 2 ^ 39. x div 4096 \<in> seg_pages ph \<longrightarrow> \<not> mapped (of_nat x) t s1)"
    "disjoint_segs ?S" "?S \<noteq> []" "3 * sum_list (map segment_pages ?S) \<le> length ps"
    using ok s1(5) len by (auto simp: loadable_def image_pages_def)
  obtain s2 ps2 mx where s2: "load_segments bytes (phoff ?h) t [0..<unat (phnum ?h)] False 0 s1 = Inr (True, mx, s2)" "unat mx = image_end bytes"
    "owned s2 t ps2" "all_frames s2 t ps2 = all_frames s1 t ps" "length ps \<le> length ps2 + 3 * image_pages bytes"
    "keeps (set_mset (all_frames s1 t ps)) (ram s1) (ram s2)"
    "\<forall>ph \<in> set ?S. \<forall>k < unat (memsize ph). umem s2 t (unat (virtaddr ph) + k) = Some (file_byte bytes ph k)"
    "\<forall>x < 2 ^ 39. mapped (of_nat x) t s2 \<longleftrightarrow> (\<exists>ph \<in> set ?S. x div 4096 \<in> seg_pages ph)"
    using load_segments_spec [OF o1 b sg(1,2,4) [unfolded load_segs_def], where la = False and mx = 0] sg(3) s1(5)
    unfolding load_segs_def image_end_def image_pages_def by auto
  let ?w = "(mx + 0x16000) AND NOT 0xf"
  have e: "image_end bytes + 0x17000 \<le> 2 ^ 39" by (rule image_end_bounds(1) [OF ok])
  have w: "unat ?w = T" using stack_top_word [of mx] e s2(2) by (simp add: T_def)
  have T: "14 * 4096 < T" "T < 2 ^ 39" using e by (simp_all add: T_def user_stack_top_def)
  let ?vas = "map (\<lambda>i. ?w - of_nat i * 4096 - 1) [0..<14]"
  note v = stack_vas [OF w T(1) less_imp_le [OF T(2)]]
  have un: "\<not> mapped va t s2" if va: "va \<in> set ?vas" for va
  proof -
    obtain x where x: "x < 2 ^ 39" "va = of_nat x" "x div 4096 \<in> stack_pages T" using v(3) [OF va] by blast
    have "x div 4096 \<notin> seg_pages ph" if "ph \<in> set ?S" for ph
      using seg_below_stack [of "x div 4096" "image_end bytes" "x div 4096"] x(3) image_end_bounds(2) [OF ok that] unfolding T_def seg_pages_def seg_end_def by auto
    then show ?thesis using s2(8) x(1,2) by blast
  qed
  have l3: "3 * length ?vas \<le> length ps2" using s2(5) len by simp
  obtain s3 ps3 where s3: "alloc_all t ?vas s2 = Inr s3" "owned s3 t ps3" "length ps2 \<le> length ps3 + 3 * 14" "all_frames s3 t ps3 = all_frames s2 t ps2"
    "\<And>va. mapped va t s3 \<longleftrightarrow> mapped va t s2 \<or> va_page va \<in> va_page ` set ?vas"
    "\<And>va p. node (ram s2) t (path va) = Some p \<Longrightarrow> node (ram s3) t (path va) = Some p \<and> same_frame (ram s2) (ram s3) (ttbr1_to_va p)"
    "keeps (set_mset (all_frames s2 t ps2)) (ram s2) (ram s3)"
    using alloc_all_spec [OF s2(3) v(1) l3 un] by auto
  have "load_elf bytes s = Inr (Inr (e_entry ?h, ?w, t), s3)"
    using ok s1(1) s2(1) s3(1) by (simp add: load_elf_def mkfrombytes_def loadable_def Let_def stack_loop del: upt.simps)
  moreover have "?w = of_nat T" using w by auto
  moreover have k: "keeps (set_mset (all_frames s1 t ps)) (ram s1) (ram s3)" using keeps_trans [OF s2(6) s3(7)] s2(4) by simp
  note st = spaces_step [OF s1(2) s3(2) _ k]
  moreover have "untouched rs s s3" using st(2) s3(4) s2(4) umem_ram [OF s1(3)] s1(3) by (simp add: untouched_def)
  moreover have "frames_in s1 (t # rs) ps = frames_in s rs (t # ps)" using s1(3,4) by (simp add: frames_in_def)
  moreover have "umem s3 t (unat (virtaddr ph) + k) = Some (file_byte bytes ph k)" if "ph \<in> set ?S" "k < unat (memsize ph)" for ph k
  proof -
    have "unat (virtaddr ph) + k < 2 ^ 39" using that e image_end_bounds(2) [OF ok that(1)] by (simp add: seg_end_def)
    then show ?thesis using kept_byte [OF s2(3) s3(2) _ _ s3(6), of "unat (virtaddr ph) + k"] s2(7) that by simp
  qed
  moreover have "umem s3 t x \<noteq> None \<longleftrightarrow> x div 4096 \<in> stack_pages T \<or> (\<exists>ph \<in> set ?S. x div 4096 \<in> seg_pages ph)" if x: "x < 2 ^ 39" for x
    using s3(5) [of "of_nat x"] s2(8) x v(2) [OF x] by (auto simp: umem_def)
  ultimately show ?thesis using s3(3,4) s2(4,5) T(2) by (intro exI [of _ s3] exI [of _ ps3]) auto
qed

section \<open>Properties\<close>

text \<open>C5. Loading a well-formed ELF file with enough free frames succeeds. In the new address space every byte of every loadable segment is what the file says, the rest of the
  segment zero; mapped are exactly the pages of the segments and fourteen stack pages, with at least one unmapped page between; entry point and top of stack (16-byte
  aligned) are returned. The stack lies just above the image, its top 0x16000 bytes above the highest segment's end, and not at the end of the user region as the README has it. No
  other address space sees a change, and no frame is lost. Well-formed (\<open>loadable\<close>) means: a correct header, program headers and segments inside the file and the user region,
  segments that share no page, and for every segment either no zero-filled part (memory size equal to file size) or one that starts on a page boundary; for a part that starts inside a
  page the loader clears the wrong bytes (\<open>UserMem\<close>).\<close>

theorem load_elf_correct:
  assumes "spaces s rs (t # ps)" "blank (ram s) t" "loadable bytes" "3 * (image_pages bytes + 14) \<le> length ps"
  shows "let top' = user_stack_top (image_end bytes) in
     \<exists>s' ps'. load_elf bytes s = Inr (Inr (e_entry (read_hdr bytes), of_nat top', t), s') \<and> top' < 2 ^ 39
     \<and> spaces s' (t # rs) ps' \<and> untouched rs s s' \<and> frames_in s' (t # rs) ps' = frames_in s rs (t # ps)
     \<and> length ps \<le> length ps' + 3 * (image_pages bytes + 14)
     \<and> (\<forall>ph \<in> set (load_segs bytes). \<forall>k < unat (memsize ph). umem s' t (unat (virtaddr ph) + k) = Some (file_byte bytes ph k))
     \<and> (\<forall>x < 2 ^ 39. umem s' t x \<noteq> None \<longleftrightarrow> x div 4096 \<in> stack_pages top' \<or> (\<exists>ph \<in> set (load_segs bytes). x div 4096 \<in> seg_pages ph))
     \<and> (\<forall>ph \<in> set (load_segs bytes). \<forall>q \<in> seg_pages ph. \<forall>p \<in> stack_pages top'. q + 1 < p)"
proof -
  let ?T = "user_stack_top (image_end bytes)"
  have "q + 1 < p" if "ph \<in> set (load_segs bytes)" "q \<in> seg_pages ph" "p \<in> stack_pages ?T" for ph q p
    using seg_below_stack [OF _ that(3), of q] image_end_bounds(2) [OF assms(3) that(1)] that(2) by (simp add: seg_pages_def seg_end_def)
  then show ?thesis using load_elf_spec [OF assms] unfolding Let_def by blast
qed

definition demo_elf :: "u8 list" where
  "demo_elf = [0x7f, 0x45, 0x4c, 0x46] @ replicate 20 0 @ [0, 0, 0x40, 0, 0, 0, 0, 0] @ [64, 0, 0, 0, 0, 0, 0, 0] @ replicate 16 0 @ [1, 0] @ replicate 6 0
     @ [1, 0, 0, 0] @ [5, 0, 0, 0] @ [120, 0, 0, 0, 0, 0, 0, 0] @ [0, 0, 0x40, 0, 0, 0, 0, 0] @ replicate 8 0 @ [4, 0, 0, 0, 0, 0, 0, 0] @ [4, 0, 0, 0, 0, 0, 0, 0]
     @ replicate 8 0 @ [0x1f, 0x20, 0x03, 0xd5]"

definition demo_seg :: Elf64ProgHdr where
  "demo_seg = \<lparr>p_type = 1, p_flags = 5, p_offset = 120, virtaddr = 0x400000, phyaddr = 0, filesize = 4, memsize = 4, align = 0\<rparr>"

lemma demo_elf_hdr:
  "length demo_elf = 124" "magic (read_hdr demo_elf) = ELF_MAGIC" "e_entry (read_hdr demo_elf) = 0x400000" "phoff (read_hdr demo_elf) = 64" "phnum (read_hdr demo_elf) = 1"
  "phdr demo_elf 64 0 = demo_seg"
  by (simp_all add: demo_elf_def read_hdr_def read_phdr_def phdr_def demo_seg_def field_def ELF_MAGIC_def)

lemma demo_elf_loadable: "load_segs demo_elf = [demo_seg]" "image_end demo_elf = 0x400004" "image_pages demo_elf = 1" "loadable demo_elf"
proof -
  show l: "load_segs demo_elf = [demo_seg]" by (simp add: load_segs_def demo_elf_hdr) (simp add: demo_seg_def PT_LOAD_def)
  show "image_end demo_elf = 0x400004" "image_pages demo_elf = 1" by (simp_all add: image_end_def image_pages_def l seg_end_def segment_pages_def demo_seg_def)
  show "loadable demo_elf" by (simp add: loadable_def l demo_elf_hdr verify_def disjoint_segs_def) (simp add: segment_fits_def seg_end_def demo_seg_def demo_elf_hdr)
qed

lemma boot_frames:
  "\<exists>s ps. spaces s [] ps \<and> length ps = 128 \<and> (\<forall>p \<in> set ps. blank (ram s) p) \<and> 0x1000 \<notin> set ps"
proof -
  let ?a = "0xffffff8000100000" and ?b = "0xffffff8000180000"
  have a: "page_aligned ?a" "(0xffffff8000000000 :: u64) \<le> ?a" "(?a :: u64) \<le> ?b" "FREE_FRAME_LIST boot_pg = None" "FREE_FRAME_COUNT boot_pg = 0"
    by (simp_all add: page_aligned_def boot_pg_def)
  let ?ps = "rev (map ttbr1_to_pa (step_by_page ?a ?b))"
  have "spaces (init_frames ?a ?b boot_pg) [] ?ps" using init_frames_pool [OF a] by (auto simp: spaces_def pool_def)
  moreover have "length ?ps = 128" by (simp add: step_by_page_def)
  moreover have "\<forall>p \<in> set ?ps. blank (ram (init_frames ?a ?b boot_pg)) p" using init_frames_blank [OF a] by simp
  moreover have "0x1000 \<notin> set ?ps"
  proof
    assume "0x1000 \<in> set ?ps"
    then obtain v where v: "v \<in> set (step_by_page ?a ?b)" "ttbr1_to_pa v = 0x1000" by auto
    then have "v = ttbr1_to_va 0x1000" "?a \<le> v" using step_by_page_frames(2) [OF a(1-3)] va_of_pa [of v] by auto
    then show False by (simp add: ttbr1_to_va_def)
  qed
  ultimately show ?thesis by blast
qed

theorem load_elf_correct_witness:
  "\<exists>s s' t. load_elf demo_elf s = Inr (Inr (0x400000, 0x416000, t), s') \<and> umem s' t 0x400003 = Some 0xd5"
proof -
  obtain s ps where ps: "spaces s [] ps" "length ps = 128" "\<forall>p \<in> set ps. blank (ram s) p" using boot_frames by blast
  then obtain t qs where t: "ps = t # qs" "length qs = 127" by (cases ps) auto
  have T: "user_stack_top (image_end demo_elf) = 0x416000" by (simp add: demo_elf_loadable(2) user_stack_top_def)
  have "spaces s [] (t # qs)" "blank (ram s) t" "3 * (image_pages demo_elf + 14) \<le> length qs" using ps t by (simp_all add: demo_elf_loadable(3))
  from load_elf_correct [OF this(1,2) demo_elf_loadable(4) this(3), unfolded Let_def T] obtain s' where
    "load_elf demo_elf s = Inr (Inr (e_entry (read_hdr demo_elf), of_nat 0x416000, t), s')"
    and b: "\<And>ph k. ph \<in> set (load_segs demo_elf) \<Longrightarrow> k < unat (memsize ph) \<Longrightarrow> umem s' t (unat (virtaddr ph) + k) = Some (file_byte demo_elf ph k)"
    by (elim exE conjE) (rule that, assumption, simp only: Ball_def simp_thms)
  moreover have "umem s' t 0x400003 = Some 0xd5"
  proof -
    have "demo_elf ! 123 = 0xd5" by (simp add: demo_elf_def nth_append)
    then show ?thesis using b [of demo_seg 3] by (simp add: demo_elf_loadable(1) file_byte_def) (simp add: demo_seg_def)
  qed
  moreover have "(of_nat 0x416000 :: u64) = 0x416000" by simp
  ultimately show ?thesis unfolding demo_elf_hdr by metis
qed

end
