(* ===== verification/KernelStack.thy ===== *)
theory KernelStack
  imports KState
begin

text \<open>
  The kernel stacks of \<^verbatim>\<open>kernelstack.rs\<close>: fifty slots of seven pages above the linear map, the first page of each left unmapped.
\<close>

definition KERNEL_STACK_SIZE :: u64 where "KERNEL_STACK_SIZE = 0x7000"

definition get_active_stack_index :: "u64 \<Rightarrow> kstate \<Rightarrow> nat option" where
  "get_active_stack_index p s = find_index (\<lambda>st. st = Allocated p) (KERNEL_STACKS_ALLOCATED s)"

definition stack_start :: "nat \<Rightarrow> u64" where
  "stack_start i = KERNEL_STACK_REGION_START + of_nat i * KERNEL_STACK_SIZE"

definition get_stack_top :: "u64 \<Rightarrow> kstate \<Rightarrow> string + u64" where
  "get_stack_top p s =
     (case get_active_stack_index p s of
        None \<Rightarrow> Inl ''[get_stack_top] Process does not have a kernel stack allocated''
      | Some index \<Rightarrow> Inr (stack_start index + KERNEL_STACK_SIZE))"

definition get_stack_usage :: "u64 \<Rightarrow> u64 \<Rightarrow> kstate \<Rightarrow> string + u64" where
  "get_stack_usage p sp_el1_val s =
     (case get_stack_top p s of
        Inl e \<Rightarrow> Inl e
      | Inr stack_top \<Rightarrow>
          if stack_top < sp_el1_val then Inl ''[get_stack_usage] kernel stack underflow! (how did this happen bro)''
          else Inr (stack_top - sp_el1_val))"

definition queue_stack_to_free :: "u64 \<Rightarrow> kstate \<Rightarrow> string + kstate" where
  "queue_stack_to_free p s =
     (case get_active_stack_index p s of
        None \<Rightarrow> Inl ''[queue_stack_to_free] Process does not have a kernel stack allocated''
      | Some index \<Rightarrow> Inr (s\<lparr>KERNEL_STACKS_ALLOCATED := (KERNEL_STACKS_ALLOCATED s)[index := QueuedToFree p]\<rparr>))"

definition map_stack_page :: "nat \<Rightarrow> nat \<Rightarrow> kstate \<Rightarrow> halt + kstate" where
  "map_stack_page i page_idx s =
     kbind (alloc_page (stack_start i + of_nat page_idx * 4096) (Some (ttbr1_to_pa (PAGE_TABLE_KERNEL_L1 s))) (pg s))
       (\<lambda>(_, g). Inr (s\<lparr>pg := g\<rparr>))"

definition alloc_stack :: "u64 \<Rightarrow> kstate \<Rightarrow> halt + ((string + u64) \<times> kstate)" where
  "alloc_stack p s =
     (if get_active_stack_index p s \<noteq> None
      then Inr (Inl ''[alloc_stack] Process already has a kernel stack allocated'', s) else
      case find_index (\<lambda>st. st = Free) (KERNEL_STACKS_ALLOCATED s) of
        None \<Rightarrow> Inr (Inl ''[alloc_stack] No available kernel stacks'', s)
      | Some i \<Rightarrow>
          (let s = s\<lparr>KERNEL_STACKS_ALLOCATED := (KERNEL_STACKS_ALLOCATED s)[i := Allocated p]\<rparr>;
               total_pages = unat (KERNEL_STACK_SIZE div 4096) in
           kbind (for_halt (map_stack_page i) [1..<total_pages] s) (\<lambda>s.
           let kernel_stack_top = stack_start i + KERNEL_STACK_SIZE in
           kbind (kstore64 (kernel_stack_top - 0x10) 0x123456789ABCDEF0 s) (\<lambda>s.
           Inr (Inr kernel_stack_top, s)))))"

definition free_stack :: "nat \<Rightarrow> kstate \<Rightarrow> string + kstate" where
  "free_stack stack_i s =
     (case KERNEL_STACKS_ALLOCATED s ! stack_i of
        QueuedToFree p \<Rightarrow>
          (let total_pages = unat (KERNEL_STACK_SIZE div 4096);
               s = fold (\<lambda>page_i s. s\<lparr>pg := free_page (stack_start stack_i + of_nat page_i * 4096)
                     (Some (PAGE_TABLE_KERNEL_L1 s)) (pg s)\<rparr>) [1..<total_pages] s
           in Inr (s\<lparr>KERNEL_STACKS_ALLOCATED := (KERNEL_STACKS_ALLOCATED s)[stack_i := Free]\<rparr>))
      | _ \<Rightarrow> Inl ''[free_stack] Stack is not queued to free'')"

definition free_queued_stacks :: "kstate \<Rightarrow> halt + kstate" where
  "free_queued_stacks = for_halt (\<lambda>i s.
     case KERNEL_STACKS_ALLOCATED s ! i of
       QueuedToFree p \<Rightarrow>
         (case get_current_process s of
            None \<Rightarrow> Inl (Panic ''called `Option::unwrap()` on a `None` value'')
          | Some cur \<Rightarrow>
              if p = pid cur then Inr s
              else (case free_stack i s of Inl e \<Rightarrow> Inr s | Inr s' \<Rightarrow> Inr s'))
     | _ \<Rightarrow> Inr s) [0..<MAX_PROCESSES]"

definition duplicate_stack :: "u64 \<Rightarrow> u64 \<Rightarrow> u64 \<Rightarrow> kstate \<Rightarrow> halt + ((string + u64) \<times> kstate)" where
  "duplicate_stack src_pid dest_pid src_sp_el1 s =
     kbind (case get_stack_top dest_pid s of
              Inr stk_top \<Rightarrow> Inr (Inr stk_top, s)
            | Inl _ \<Rightarrow> alloc_stack dest_pid s)
       (\<lambda>(r, s). case r of
          Inl e \<Rightarrow> Inr (Inl e, s)
        | Inr dst_stack_top \<Rightarrow>
            (case get_stack_usage src_pid src_sp_el1 s of
               Inl e \<Rightarrow> Inr (Inl e, s)
             | Inr active_size \<Rightarrow>
                 (let dst_sp_el1 = dst_stack_top - active_size in
                  kbind (kcopy src_sp_el1 dst_sp_el1 (unat active_size) s) (\<lambda>s. Inr (Inr dst_sp_el1, s)))))"

section \<open>The pages of the stack region\<close>

abbreviation stack_page :: "nat \<Rightarrow> nat \<Rightarrow> u64" where
  "stack_page i j \<equiv> stack_start i + of_nat j * 4096"

lemma unat_stack_page:
  assumes "i < 50" "j < 8"
  shows "unat (stack_page i j) = 0xFFFFFF8080000000 + 4096 * (7 * i + j)"
proof -
  have "stack_page i j = of_nat (0xFFFFFF8080000000 + 4096 * (7 * i + j))"
    by (simp add: stack_start_def KERNEL_STACK_REGION_START_def KERNEL_STACK_SIZE_def algebra_simps)
  moreover have "0xFFFFFF8080000000 + 4096 * (7 * i + j) < (2 :: nat) ^ 64" using assms by simp
  ultimately show ?thesis by (simp only: unat_small)
qed

lemma va_page_stack_page:
  assumes "i < 50" "j < 7"
  shows "unat (va_page (stack_page i j)) = 0x80000 + 7 * i + j"
proof -
  define q where "q = 7 * i + j"
  have q: "q < 512" using assms by (simp add: q_def)
  have u: "unat (stack_page i j) = 4096 * (0xFFFFFF8080000 + q)"
    using unat_stack_page [OF assms(1), of j] assms(2) by (simp add: q_def)
  have "(0xFFFFFF8080000 + q) mod 2 ^ 27 = (0xFFFFFF8080000 mod 2 ^ 27 + q) mod (2 ^ 27 :: nat)"
    by (simp only: mod_add_left_eq)
  also have "0xFFFFFF8080000 mod 2 ^ 27 = (0x80000 :: nat)" by simp
  also have "(0x80000 + q) mod 2 ^ 27 = 0x80000 + q" using q by simp
  finally show ?thesis by (simp add: unat_va_page u q_def)
qed

lemma stack_page_inj:
  assumes "i < 50" "j < 7" "i' < 50" "j' < 7"
  shows "va_page (stack_page i j) = va_page (stack_page i' j') \<longleftrightarrow> i = i' \<and> j = j'"
proof -
  have "7 * i + j = 7 * i' + j' \<Longrightarrow> i = i' \<and> j = j'" using assms(2,4) by presburger
  then show ?thesis
    using va_page_stack_page [OF assms(1,2)] va_page_stack_page [OF assms(3,4)] by auto
qed

section \<open>The stack invariant\<close>

primrec stack_owner :: "StackState \<Rightarrow> u64 option" where
  "stack_owner (Allocated p) = Some p"
| "stack_owner (QueuedToFree p) = None"
| "stack_owner Free = None"

lemma stack_owner_Some [simp]: "stack_owner e = Some p \<longleftrightarrow> e = Allocated p"
  by (cases e) auto

interpretation ks: slot_table stack_owner "\<lambda>e. e = Free"
  by unfold_locales simp

lemma stack_scans:
  "get_active_stack_index p s = ks.lookup p (KERNEL_STACKS_ALLOCATED s)"
  "find_index (\<lambda>st. st = Free) t = ks.first_vacant t"
  by (simp_all add: get_active_stack_index_def ks.lookup_def ks.first_vacant_def)

abbreviation kroot :: "kstate \<Rightarrow> u64" where
  "kroot s \<equiv> ttbr1_to_pa (PAGE_TABLE_KERNEL_L1 s)"

definition stacks_inv :: "kstate \<Rightarrow> u64 list \<Rightarrow> bool" where
  "stacks_inv s ps \<longleftrightarrow> is_frame_va (PAGE_TABLE_KERNEL_L1 s) \<and> owned (pg s) (kroot s) ps
     \<and> length (KERNEL_STACKS_ALLOCATED s) = 50
     \<and> (\<forall>i < 50. \<forall>j < 7. mapped (stack_page i j) (kroot s) (pg s) \<longleftrightarrow> j \<noteq> 0 \<and> KERNEL_STACKS_ALLOCATED s ! i \<noteq> Free)
     \<and> ks.uniq (KERNEL_STACKS_ALLOCATED s)"

lemma map_stack_pages:
  "for_halt (map_stack_page i) js s =
     kbind (alloc_all (kroot s) (map (stack_page i) js) (pg s)) (\<lambda>g. Inr (s\<lparr>pg := g\<rparr>))"
proof (induction js arbitrary: s)
  case Nil
  then show ?case by simp
next
  case (Cons j js)
  then show ?case by (simp add: map_stack_page_def kbind_def split: sum.splits prod.splits)
qed

lemma stack_page_in:
  assumes "i < 50" "i' < 50" "j < 7"
  shows "va_page (stack_page i' j) \<in> va_page ` set (map (stack_page i) [1..<7]) \<longleftrightarrow> i' = i \<and> j \<noteq> 0"
proof -
  have "va_page (stack_page i' j) \<in> va_page ` set (map (stack_page i) [1..<7]) \<longleftrightarrow>
      (\<exists>k \<in> {1..<7}. va_page (stack_page i' j) = va_page (stack_page i k))" by (auto simp: image_iff)
  also have "\<dots> \<longleftrightarrow> (\<exists>k \<in> {1..<7}. i' = i \<and> j = k)"
    using assms by (intro bex_cong refl) (simp add: stack_page_inj)
  finally show ?thesis using assms(3) by auto
qed

lemma distinct_stack_pages: "i < 50 \<Longrightarrow> distinct (map va_page (map (stack_page i) [1..<7]))"
  by (simp only: map_map distinct_map) (auto simp: inj_on_def stack_page_inj)

lemma stack_top_slot:
  assumes "i < 50"
  shows "\<not> stack_start i + KERNEL_STACK_SIZE - 0x10 < KERNEL_STACK_REGION_START"
    and "\<not> stack_start i + KERNEL_STACK_SIZE - 0x10 < 0x8000000000"
    and "\<not> stack_start i + KERNEL_STACK_SIZE - 0x10 < 0xffffff8000000000"
    and "(stack_start i + KERNEL_STACK_SIZE - 0x10) AND 0xFFF = 0xFF0"
    and "va_page (stack_start i + KERNEL_STACK_SIZE - 0x10) = va_page (stack_page i 6)"
proof -
  let ?a = "stack_start i + KERNEL_STACK_SIZE - 0x10"
  have a: "?a = stack_page i 6 + 0xFF0" by (simp add: KERNEL_STACK_SIZE_def)
  have p: "unat (stack_page i 6 + 0xFF0) = unat (stack_page i 6) + 0xFF0"
    using unat_page_add [of "stack_page i 6" "0xFF0"] unat_stack_page [OF assms, of 6] by (simp add: page_aligned_mod)
  have u: "unat ?a = 0xFFFFFF8080000000 + 4096 * (7 * i + 6) + 0xFF0"
    unfolding a p using unat_stack_page [OF assms, of 6] by simp
  then show "\<not> ?a < KERNEL_STACK_REGION_START" "\<not> ?a < 0x8000000000" "\<not> ?a < 0xffffff8000000000"
    using assms by (auto simp: word_less_nat_alt KERNEL_STACK_REGION_START_def)
  define q where "q = 0xFFFFFF8080000 + 7 * i + 6"
  have uq: "unat ?a = 4096 * q + 0xFF0" "unat (stack_page i 6) = 4096 * q"
    using u unat_stack_page [OF assms, of 6] by (simp_all add: q_def)
  have "unat (?a AND 0xFFF) = 0xFF0" unfolding unat_and_fff uq by simp
  then show "?a AND 0xFFF = 0xFF0" by (simp add: word_unat_eq_iff)
  have "unat (va_page ?a) = unat (va_page (stack_page i 6))" unfolding unat_va_page uq by simp
  then show "va_page ?a = va_page (stack_page i 6)" by (simp add: word_unat_eq_iff)
qed

lemma stacks_invD:
  assumes "stacks_inv s ps"
  shows "is_frame_va (PAGE_TABLE_KERNEL_L1 s)" "owned (pg s) (kroot s) ps" "length (KERNEL_STACKS_ALLOCATED s) = 50"
    "\<And>i j. i < 50 \<Longrightarrow> j < 7 \<Longrightarrow> mapped (stack_page i j) (kroot s) (pg s) \<longleftrightarrow> j \<noteq> 0 \<and> KERNEL_STACKS_ALLOCATED s ! i \<noteq> Free"
    "ks.uniq (KERNEL_STACKS_ALLOCATED s)"
  using assms unfolding stacks_inv_def by blast+

text \<open>The word near the top of a stack that \<^verbatim>\<open>alloc_stack\<close> writes to lies in the frame of its last page.\<close>

lemma stack_top_frame:
  assumes i: "i < 50" and g: "owned g (kroot s) ps" "mapped (stack_page i 6) (kroot s) g"
  defines "a \<equiv> stack_start i + KERNEL_STACK_SIZE - 0x10"
  shows "\<exists>f. node (ram g) (kroot s) (path a) = Some f \<and> is_frame_pa f \<and> f \<in> set_mset (all_frames g (kroot s) ps) \<and> mmu a (s\<lparr>pg := g\<rparr>) = Some (slot (ttbr1_to_va f) 510)"
proof -
  note top = stack_top_slot [OF i, folded a_def]
  have "mapped a (kroot s) g" using g(2) mapped_page_cong [OF top(5)] by simp
  then obtain f where f: "node (ram g) (kroot s) (path a) = Some f" by (auto simp: ttbr0_to_pa_node translation_table_def)
  have ff: "is_frame_pa f" "f \<in> set_mset (all_frames g (kroot s) ps)" using owned_node [OF g(1) f] by (auto simp: all_frames_def)
  have "mmu a (s\<lparr>pg := g\<rparr>) = Some (slot (ttbr1_to_va f) 510)"
    using f top ttbr1_to_va_offset [OF ff(1), of a]
    by (simp add: mmu_def ttbr0_to_ttbr1_def ttbr0_to_pa_node translation_table_def slot_def del: diff_add_eq)
  then show ?thesis using f ff by blast
qed

lemma alloc_stack_core:
  assumes inv: "stacks_inv s ps" and none: "get_active_stack_index p s = None"
    and free: "Free \<in> set (KERNEL_STACKS_ALLOCATED s)" and len: "18 \<le> length ps \<or> alloc_stack p s = Inr (Inr a0, t0)"
  shows "\<exists>i g ps'. alloc_stack p s = Inr (Inr (stack_start i + KERNEL_STACK_SIZE),
       s\<lparr>KERNEL_STACKS_ALLOCATED := (KERNEL_STACKS_ALLOCATED s)[i := Allocated p], pg := g\<rparr>)
     \<and> i < 50 \<and> KERNEL_STACKS_ALLOCATED s ! i = Free
     \<and> stacks_inv (s\<lparr>KERNEL_STACKS_ALLOCATED := (KERNEL_STACKS_ALLOCATED s)[i := Allocated p], pg := g\<rparr>) ps'
     \<and> all_frames g (kroot s) ps' = all_frames (pg s) (kroot s) ps \<and> length ps \<le> length ps' + 18
     \<and> keeps (set_mset (all_frames (pg s) (kroot s) ps)) (ram (pg s)) (ram g) \<and> ttbr0_el1 g = ttbr0_el1 (pg s)
     \<and> (\<forall>va p. node (ram (pg s)) (kroot s) (path va) = Some p \<longrightarrow>
          node (ram g) (kroot s) (path va) = Some p \<and> same_frame (ram (pg s)) (ram g) (ttbr1_to_va p))"
proof -
  let ?st = "KERNEL_STACKS_ALLOCATED s" and ?r = "kroot s"
  obtain i where i: "ks.first_vacant ?st = Some i" using free ks.first_vacant_None [of ?st] by auto
  then have i50: "i < 50" "?st ! i = Free" using ks.first_vacant_Some [of ?st i] stacks_invD(3) [OF inv] by auto
  let ?s1 = "s\<lparr>KERNEL_STACKS_ALLOCATED := ?st[i := Allocated p]\<rparr>"
  have un: "\<not> mapped va ?r (pg s)" if "va \<in> set (map (stack_page i) [1..<7])" for va
    using that stacks_invD(4) [OF inv i50(1)] i50(2) by auto
  have "\<exists>g0. 3 * length (map (stack_page i) [1..<7]) \<le> length ps \<or> alloc_all ?r (map (stack_page i) [1..<7]) (pg s) = Inr g0"
    using len none i by (cases "alloc_all ?r (map (stack_page i) [1..<7]) (pg s)")
      (auto simp: alloc_stack_def stack_scans KERNEL_STACK_SIZE_def map_stack_pages Let_def simp del: upt_rec_numeral alloc_all.simps)
  then obtain g0 where "3 * length (map (stack_page i) [1..<7]) \<le> length ps \<or> alloc_all ?r (map (stack_page i) [1..<7]) (pg s) = Inr g0" ..
  note ac = alloc_all_core [OF stacks_invD(2) [OF inv] distinct_stack_pages [OF i50(1)] un this]
  obtain g ps' where al: "alloc_all ?r (map (stack_page i) [1..<7]) (pg s) = Inr g" and g: "owned g ?r ps'"
    "length ps \<le> length ps' + 18" "all_frames g ?r ps' = all_frames (pg s) ?r ps"
    "\<And>va. mapped va ?r g \<longleftrightarrow> mapped va ?r (pg s) \<or> va_page va \<in> va_page ` set (map (stack_page i) [1..<7])"
    "keeps (set_mset (all_frames (pg s) ?r ps)) (ram (pg s)) (ram g)" "ttbr0_el1 g = ttbr0_el1 (pg s)"
    "\<And>va p. node (ram (pg s)) ?r (path va) = Some p \<Longrightarrow> node (ram g) ?r (path va) = Some p \<and> same_frame (ram (pg s)) (ram g) (ttbr1_to_va p)"
    using ac by (simp del: set_map upt_rec_numeral alloc_all.simps) blast
  have fh: "for_halt (map_stack_page i) [1..<7] ?s1 = Inr (?s1\<lparr>pg := g\<rparr>)" using al by (simp add: map_stack_pages)
  let ?a = "stack_start i + KERNEL_STACK_SIZE - 0x10"
  note top = stack_top_slot [OF i50(1)]
  have "mapped (stack_page i 6) ?r g" using g(4) [of "stack_page i 6"] stack_page_in [OF i50(1) i50(1), of 6] by simp
  then obtain f where f: "node (ram g) ?r (path ?a) = Some f" and ff: "is_frame_pa f" "f \<in> set_mset (all_frames g ?r ps')"
    and m: "mmu ?a (?s1\<lparr>pg := g\<rparr>) = Some (slot (ttbr1_to_va f) 510)"
    using stack_top_frame [OF i50(1), of g ?s1 ps'] g(1) by auto
  define m' where "m' = st64 (ram g) (slot (ttbr1_to_va f) 510) 0x123456789ABCDEF0"
  have k: "keeps {f} (ram g) m'" using keeps_set_entry [OF ff(1), of 510 g] by (simp add: m'_def set_entry_def)
  note w = owned_data_write [OF g(1) f k]
  let ?g = "g\<lparr>ram := m'\<rparr>"
  let ?s2 = "s\<lparr>KERNEL_STACKS_ALLOCATED := ?st[i := Allocated p], pg := ?g\<rparr>"
  have "alloc_stack p s = Inr (Inr (stack_start i + KERNEL_STACK_SIZE), ?s2)"
    using none i fh m by (simp add: alloc_stack_def kstore64_def Let_def KERNEL_STACK_SIZE_def m'_def stack_scans)
  moreover have "stacks_inv ?s2 ps'"
    unfolding stacks_inv_def
  proof (intro conjI allI impI)
    fix i' j :: nat assume j: "i' < 50" "j < 7"
    have a: "mapped (stack_page i' j) ?r ?g \<longleftrightarrow> mapped (stack_page i' j) ?r (pg s) \<or> i' = i \<and> j \<noteq> 0"
      unfolding w(3) g(4) stack_page_in [OF i50(1) j] ..
    show "mapped (stack_page i' j) (kroot ?s2) (pg ?s2) \<longleftrightarrow> j \<noteq> 0 \<and> KERNEL_STACKS_ALLOCATED ?s2 ! i' \<noteq> Free"
      using a stacks_invD(4) [OF inv j] i50 j stacks_invD(3) [OF inv] by (auto simp: nth_list_update)
  next
    show "ks.uniq (KERNEL_STACKS_ALLOCATED ?s2)"
      using none stacks_invD(5) [OF inv] by (auto simp: stack_scans intro: ks.uniq_put)
  qed (use stacks_invD(1,3) [OF inv] w(1) in simp_all)
  moreover have "keeps (set_mset (all_frames (pg s) ?r ps)) (ram (pg s)) (ram ?g)"
    using keeps_trans [OF g(5) k] ff(2) g(3) by (auto elim!: keeps_mono)
  moreover have "node (ram ?g) ?r (path va) = Some q \<and> same_frame (ram (pg s)) (ram ?g) (ttbr1_to_va q)"
    if q: "node (ram (pg s)) ?r (path va) = Some q" for va q
  proof -
    note gq = g(7) [OF q]
    have "\<not> mapped ?a ?r (pg s)" unfolding mapped_page_cong [OF top(5)] using stacks_invD(4) [OF inv i50(1), of 6] i50(2) by simp
    then have "va_page va \<noteq> va_page ?a" using q mapped_page_cong [of va ?a ?r "pg s"] by (auto simp: ttbr0_to_pa_node translation_table_def)
    then have "q \<noteq> f" using owned_inj [OF g(1) _ f, of va] gq by blast
    moreover have "is_frame_pa q" using owned_node(2) [OF g(1) conjunct1 [OF gq]] by simp
    ultimately have "same_frame (ram g) (ram ?g) (ttbr1_to_va q)" using k by (simp add: keeps_def)
    moreover have "node (ram ?g) ?r (path va) = Some q" using w(3) [of va] gq by (auto simp: ttbr0_to_pa_node translation_table_def)
    ultimately show ?thesis using gq same_frame_trans by blast
  qed
  ultimately show ?thesis using i50 g(2,3,6) w(2) by (intro exI [of _ i] exI [of _ ?g] exI [of _ ps']) simp
qed

lemma alloc_stack_spec:
  assumes inv: "stacks_inv s ps" and none: "get_active_stack_index p s = None"
    and free: "Free \<in> set (KERNEL_STACKS_ALLOCATED s)" and len: "18 \<le> length ps"
  shows "\<exists>i g ps'. alloc_stack p s = Inr (Inr (stack_start i + KERNEL_STACK_SIZE),
       s\<lparr>KERNEL_STACKS_ALLOCATED := (KERNEL_STACKS_ALLOCATED s)[i := Allocated p], pg := g\<rparr>)
     \<and> i < 50 \<and> KERNEL_STACKS_ALLOCATED s ! i = Free
     \<and> stacks_inv (s\<lparr>KERNEL_STACKS_ALLOCATED := (KERNEL_STACKS_ALLOCATED s)[i := Allocated p], pg := g\<rparr>) ps'
     \<and> all_frames g (kroot s) ps' = all_frames (pg s) (kroot s) ps \<and> length ps \<le> length ps' + 18
     \<and> keeps (set_mset (all_frames (pg s) (kroot s) ps)) (ram (pg s)) (ram g) \<and> ttbr0_el1 g = ttbr0_el1 (pg s)
     \<and> (\<forall>va p. node (ram (pg s)) (kroot s) (path va) = Some p \<longrightarrow>
          node (ram g) (kroot s) (path va) = Some p \<and> same_frame (ram (pg s)) (ram g) (ttbr1_to_va p))"
  using alloc_stack_core [OF inv none free disjI1 [OF len]] by blast

text \<open>With fewer than six frames left the stack cannot be mapped, and the kernel panics.\<close>

lemma alloc_stack_starved:
  assumes inv: "stacks_inv s ps" and none: "get_active_stack_index p s = None"
    and free: "Free \<in> set (KERNEL_STACKS_ALLOCATED s)" and len: "length ps < 6"
  shows "\<exists>m. alloc_stack p s = Inl (Panic m)"
proof -
  let ?st = "KERNEL_STACKS_ALLOCATED s"
  obtain i where i: "ks.first_vacant ?st = Some i" using free ks.first_vacant_None [of ?st] by auto
  then have i50: "i < 50" "?st ! i = Free" using ks.first_vacant_Some [of ?st i] stacks_invD(3) [OF inv] by auto
  have "\<not> mapped va (kroot s) (pg s)" if "va \<in> set (map (stack_page i) [1..<7])" for va
    using that stacks_invD(4) [OF inv i50(1)] i50(2) by auto
  then obtain m where "alloc_all (kroot s) (map (stack_page i) [1..<7]) (pg s) = Inl (Panic m)"
    using alloc_all_starved [OF stacks_invD(2) [OF inv] distinct_stack_pages [OF i50(1)]] len by (auto simp del: set_map upt_rec_numeral)
  then show ?thesis
    using none i by (simp add: alloc_stack_def stack_scans KERNEL_STACK_SIZE_def map_stack_pages Let_def del: upt_rec_numeral alloc_all.simps)
qed

section \<open>Freeing a stack\<close>

lemma free_page_alias:
  assumes "is_frame_va r"
  shows "free_page va (Some r) g = free_page va (Some (ttbr1_to_pa r)) g"
proof -
  have "entry m r i = entry m (ttbr1_to_pa r) i" for m i
    using va_of_pa [OF assms] assms by (simp add: entry_def is_frame_va_def)
  then show ?thesis by (simp add: free_page_def translation_table_def Let_def)
qed

lemma fold_free_pages:
  assumes "is_frame_va (PAGE_TABLE_KERNEL_L1 s)"
  shows "fold (\<lambda>j s. s\<lparr>pg := free_page (stack_page i j) (Some (PAGE_TABLE_KERNEL_L1 s)) (pg s)\<rparr>) js s
     = s\<lparr>pg := free_all (kroot s) (map (stack_page i) js) (pg s)\<rparr>"
  using assms
proof (induction js arbitrary: s)
  case Nil
  then show ?case by (simp add: free_all_def)
next
  case (Cons j js)
  then show ?case by (simp add: free_page_alias free_all_def)
qed

lemma free_stack_spec:
  assumes inv: "stacks_inv s ps" and i: "i < 50" and q: "KERNEL_STACKS_ALLOCATED s ! i = QueuedToFree p"
  shows "\<exists>g ps'. free_stack i s = Inr (s\<lparr>KERNEL_STACKS_ALLOCATED := (KERNEL_STACKS_ALLOCATED s)[i := Free], pg := g\<rparr>)
     \<and> stacks_inv (s\<lparr>KERNEL_STACKS_ALLOCATED := (KERNEL_STACKS_ALLOCATED s)[i := Free], pg := g\<rparr>) ps'
     \<and> all_frames g (kroot s) ps' = all_frames (pg s) (kroot s) ps \<and> length ps' = length ps + 6
     \<and> keeps (set_mset (all_frames (pg s) (kroot s) ps)) (ram (pg s)) (ram g) \<and> ttbr0_el1 g = ttbr0_el1 (pg s)"
proof -
  let ?st = "KERNEL_STACKS_ALLOCATED s" and ?r = "kroot s"
  let ?g = "free_all ?r (map (stack_page i) [1..<7]) (pg s)"
  have "mapped va ?r (pg s)" if "va \<in> set (map (stack_page i) [1..<7])" for va
    using that stacks_invD(4) [OF inv i] q by auto
  then obtain ps' where g: "owned ?g ?r ps'"
    "all_frames ?g ?r ps' = all_frames (pg s) ?r ps" "length ps' = length ps + 6"
    "\<And>va. mapped va ?r ?g \<longleftrightarrow> mapped va ?r (pg s) \<and> va_page va \<notin> va_page ` set (map (stack_page i) [1..<7])"
    "keeps (set_mset (all_frames (pg s) ?r ps)) (ram (pg s)) (ram ?g)" "ttbr0_el1 ?g = ttbr0_el1 (pg s)"
    using free_all_spec [OF stacks_invD(2) [OF inv] distinct_stack_pages [OF i]] by (auto simp del: set_map)
  let ?s2 = "s\<lparr>KERNEL_STACKS_ALLOCATED := ?st[i := Free], pg := ?g\<rparr>"
  have sz: "unat (KERNEL_STACK_SIZE div 4096) = 7" by (simp add: KERNEL_STACK_SIZE_def)
  have "free_stack i s = Inr ?s2"
    unfolding free_stack_def sz fold_free_pages [OF stacks_invD(1) [OF inv]] q by (simp add: Let_def)
  moreover have "stacks_inv ?s2 ps'"
    unfolding stacks_inv_def
  proof (intro conjI allI impI)
    fix i' j :: nat assume j: "i' < 50" "j < 7"
    have "mapped (stack_page i' j) ?r ?g \<longleftrightarrow> mapped (stack_page i' j) ?r (pg s) \<and> \<not> (i' = i \<and> j \<noteq> 0)"
      unfolding g(4) stack_page_in [OF i j] ..
    then show "mapped (stack_page i' j) (kroot ?s2) (pg ?s2) \<longleftrightarrow> j \<noteq> 0 \<and> KERNEL_STACKS_ALLOCATED ?s2 ! i' \<noteq> Free"
      using stacks_invD(4) [OF inv j] i j stacks_invD(3) [OF inv] by (auto simp: nth_list_update)
  next
    show "ks.uniq (KERNEL_STACKS_ALLOCATED ?s2)"
      using stacks_invD(5) [OF inv] by (auto intro: ks.uniq_put)
  qed (use stacks_invD(1,3) [OF inv] g(1) in simp_all)
  ultimately show ?thesis using g by blast
qed

lemma queue_stack_spec:
  assumes inv: "stacks_inv s ps" and i: "get_active_stack_index p s = Some i"
  shows "queue_stack_to_free p s = Inr (s\<lparr>KERNEL_STACKS_ALLOCATED := (KERNEL_STACKS_ALLOCATED s)[i := QueuedToFree p]\<rparr>)"
    "stacks_inv (s\<lparr>KERNEL_STACKS_ALLOCATED := (KERNEL_STACKS_ALLOCATED s)[i := QueuedToFree p]\<rparr>) ps"
proof -
  let ?s = "s\<lparr>KERNEL_STACKS_ALLOCATED := (KERNEL_STACKS_ALLOCATED s)[i := QueuedToFree p]\<rparr>"
  show "queue_stack_to_free p s = Inr ?s" using i by (simp add: queue_stack_to_free_def)
  have st: "i < 50" "KERNEL_STACKS_ALLOCATED s ! i = Allocated p"
    using i ks.lookup_SomeD [of p "KERNEL_STACKS_ALLOCATED s" i] stacks_invD(3) [OF inv] by (auto simp: stack_scans)
  have "KERNEL_STACKS_ALLOCATED ?s ! j = Free \<longleftrightarrow> KERNEL_STACKS_ALLOCATED s ! j = Free" if "j < 50" for j
    using st that stacks_invD(3) [OF inv] by (auto simp: nth_list_update)
  moreover have "ks.uniq (KERNEL_STACKS_ALLOCATED ?s)" using stacks_invD(5) [OF inv] by (auto intro: ks.uniq_put)
  ultimately show "stacks_inv ?s ps" using inv by (simp add: stacks_inv_def)
qed

lemma stacks_inv_frame [simp]:
  "stacks_inv (s\<lparr>PROCESS_TABLE := t\<rparr>) ps = stacks_inv s ps" "stacks_inv (s\<lparr>CURRENT_PROCESS := c\<rparr>) ps = stacks_inv s ps"
  "stacks_inv (s\<lparr>NEXT_PID := n\<rparr>) ps = stacks_inv s ps" "stacks_inv (s\<lparr>cpu := x\<rparr>) ps = stacks_inv s ps"
  by (simp_all add: stacks_inv_def)

definition queued_freed :: "u64 \<Rightarrow> StackState \<Rightarrow> StackState" where
  "queued_freed cur st = (case st of QueuedToFree p \<Rightarrow> if p = cur then st else Free | _ \<Rightarrow> st)"

text \<open>The slots that are freed on entry while process \<open>cur\<close> is the current one.\<close>

definition to_free :: "u64 \<Rightarrow> StackState \<Rightarrow> bool" where
  "to_free cur st \<longleftrightarrow> (case st of QueuedToFree p \<Rightarrow> p \<noteq> cur | _ \<Rightarrow> False)"

lemma free_queued_spec:
  assumes "stacks_inv s ps" "get_current_process s = Some cur" "n \<le> 50"
  defines "step \<equiv> \<lambda>i s. case KERNEL_STACKS_ALLOCATED s ! i of
       QueuedToFree p \<Rightarrow>
         (case get_current_process s of
            None \<Rightarrow> Inl (Panic ''called `Option::unwrap()` on a `None` value'')
          | Some cur \<Rightarrow>
              if p = pid cur then Inr s
              else (case free_stack i s of Inl e \<Rightarrow> Inr s | Inr s' \<Rightarrow> Inr s'))
     | _ \<Rightarrow> Inr s"
  shows "\<exists>g ps' t. for_halt step [0..<n] s = Inr (s\<lparr>KERNEL_STACKS_ALLOCATED := t, pg := g\<rparr>)
     \<and> stacks_inv (s\<lparr>KERNEL_STACKS_ALLOCATED := t, pg := g\<rparr>) ps'
     \<and> (\<forall>i < 50. t ! i = (if i < n then queued_freed (pid cur) (KERNEL_STACKS_ALLOCATED s ! i) else KERNEL_STACKS_ALLOCATED s ! i))
     \<and> all_frames g (kroot s) ps' = all_frames (pg s) (kroot s) ps
     \<and> length ps' = length ps + 6 * length (filter (to_free (pid cur)) (take n (KERNEL_STACKS_ALLOCATED s)))
     \<and> keeps (set_mset (all_frames (pg s) (kroot s) ps)) (ram (pg s)) (ram g) \<and> ttbr0_el1 g = ttbr0_el1 (pg s)"
  using assms(3)
proof (induction n)
  case 0
  then show ?case using assms(1)
    by (intro exI [of _ "pg s"] exI [of _ ps] exI [of _ "KERNEL_STACKS_ALLOCATED s"]) simp
next
  case (Suc n)
  then obtain g ps' t where IH: "for_halt step [0..<n] s = Inr (s\<lparr>KERNEL_STACKS_ALLOCATED := t, pg := g\<rparr>)"
     "stacks_inv (s\<lparr>KERNEL_STACKS_ALLOCATED := t, pg := g\<rparr>) ps'"
     "\<forall>i < 50. t ! i = (if i < n then queued_freed (pid cur) (KERNEL_STACKS_ALLOCATED s ! i) else KERNEL_STACKS_ALLOCATED s ! i)"
     "all_frames g (kroot s) ps' = all_frames (pg s) (kroot s) ps"
     "length ps' = length ps + 6 * length (filter (to_free (pid cur)) (take n (KERNEL_STACKS_ALLOCATED s)))"
     "keeps (set_mset (all_frames (pg s) (kroot s) ps)) (ram (pg s)) (ram g)" "ttbr0_el1 g = ttbr0_el1 (pg s)"
    by auto
  let ?s = "s\<lparr>KERNEL_STACKS_ALLOCATED := t, pg := g\<rparr>"
  have n: "n < 50" using Suc.prems by simp
  have cur: "get_current_process ?s = Some cur"
    using assms(2) by (simp add: get_current_process_def find_by_ptable_index_def split: if_splits)
  have tn: "t ! n = KERNEL_STACKS_ALLOCATED s ! n" using IH(3) n by simp
  have lt: "length t = 50" using stacks_invD(3) [OF IH(2)] by simp
  have tk: "filter (to_free (pid cur)) (take (Suc n) (KERNEL_STACKS_ALLOCATED s))
      = filter (to_free (pid cur)) (take n (KERNEL_STACKS_ALLOCATED s)) @ (if to_free (pid cur) (t ! n) then [t ! n] else [])"
    using n tn stacks_invD(3) [OF assms(1)] by (simp add: take_Suc_conv_app_nth)
  have step: "for_halt step [0..<Suc n] s = step n ?s" using IH(1) by (simp add: for_halt_append kbind_def split: sum.splits)
  show ?case
  proof (cases "\<exists>p. t ! n = QueuedToFree p \<and> p \<noteq> pid cur")
    case False
    then have "step n ?s = Inr ?s" using cur by (auto simp: step_def split: StackState.splits)
    moreover have "queued_freed (pid cur) (KERNEL_STACKS_ALLOCATED s ! n) = t ! n"
      using False tn by (auto simp: queued_freed_def split: StackState.splits)
    moreover have "\<not> to_free (pid cur) (t ! n)" using False by (auto simp: to_free_def split: StackState.splits)
    ultimately show ?thesis using IH step less_Suc_eq tn tk by (intro exI [of _ g] exI [of _ ps'] exI [of _ t]) auto
  next
    case True
    then obtain p where p: "t ! n = QueuedToFree p" "p \<noteq> pid cur" by blast
    obtain g' qs where f: "free_stack n ?s = Inr (s\<lparr>KERNEL_STACKS_ALLOCATED := t[n := Free], pg := g'\<rparr>)"
      "stacks_inv (s\<lparr>KERNEL_STACKS_ALLOCATED := t[n := Free], pg := g'\<rparr>) qs"
      "all_frames g' (kroot s) qs = all_frames g (kroot s) ps'" "length qs = length ps' + 6"
      "keeps (set_mset (all_frames g (kroot s) ps')) (ram g) (ram g')" "ttbr0_el1 g' = ttbr0_el1 g"
      using free_stack_spec [OF IH(2) n, of p] p by auto
    have "step n ?s = Inr (s\<lparr>KERNEL_STACKS_ALLOCATED := t[n := Free], pg := g'\<rparr>)"
      using f(1) p cur by (simp add: step_def)
    moreover have "t[n := Free] ! i = (if i < Suc n then queued_freed (pid cur) (KERNEL_STACKS_ALLOCATED s ! i) else KERNEL_STACKS_ALLOCATED s ! i)"
      if "i < 50" for i
      using IH(3) that p tn lt by (auto simp: nth_list_update queued_freed_def less_Suc_eq split: if_splits)
    moreover have "keeps (set_mset (all_frames (pg s) (kroot s) ps)) (ram (pg s)) (ram g')"
      using keeps_trans [OF IH(6) f(5)] IH(4) by simp
    moreover have "to_free (pid cur) (t ! n)" using p by (simp add: to_free_def)
    ultimately show ?thesis using f IH(4,5,7) step tk
      by (intro exI [of _ g'] exI [of _ qs] exI [of _ "t[n := Free]"]) simp
  qed
qed

section \<open>Properties\<close>

lemma get_stack_top_iff:
  assumes "stacks_inv s ps"
  shows "get_stack_top p s = Inr a \<longleftrightarrow>
    (\<exists>i < 50. KERNEL_STACKS_ALLOCATED s ! i = Allocated p \<and> a = stack_start i + KERNEL_STACK_SIZE)"
proof (cases "ks.lookup p (KERNEL_STACKS_ALLOCATED s)")
  case None
  then have "\<forall>i < 50. KERNEL_STACKS_ALLOCATED s ! i \<noteq> Allocated p"
    using stacks_invD(3) [OF assms] by (simp add: ks.lookup_None)
  with None show ?thesis by (auto simp: get_stack_top_def stack_scans)
next
  case (Some i)
  then have i: "i < 50" "KERNEL_STACKS_ALLOCATED s ! i = Allocated p"
    using ks.lookup_SomeD [OF Some] stacks_invD(3) [OF assms] by simp_all
  have u: "j = i" if "j < 50" "KERNEL_STACKS_ALLOCATED s ! j = Allocated p" for j
    using ks.uniqD [OF stacks_invD(5) [OF assms], of j i p] that i stacks_invD(3) [OF assms] by simp
  have t: "get_stack_top p s = Inr (stack_start i + KERNEL_STACK_SIZE)" using Some by (simp add: get_stack_top_def stack_scans)
  show ?thesis unfolding t sum.inject using i u by blast
qed

lemma alloc_stack_tops:
  assumes "stacks_inv s ps" "get_active_stack_index p s = None" "Free \<in> set (KERNEL_STACKS_ALLOCATED s)" "18 \<le> length ps"
  shows "\<exists>i g ps'. alloc_stack p s = Inr (Inr (stack_start i + KERNEL_STACK_SIZE),
       s\<lparr>KERNEL_STACKS_ALLOCATED := (KERNEL_STACKS_ALLOCATED s)[i := Allocated p], pg := g\<rparr>) \<and> i < 50
     \<and> stacks_inv (s\<lparr>KERNEL_STACKS_ALLOCATED := (KERNEL_STACKS_ALLOCATED s)[i := Allocated p], pg := g\<rparr>) ps'
     \<and> length ps \<le> length ps' + 18
     \<and> keeps (set_mset (all_frames (pg s) (kroot s) ps)) (ram (pg s)) (ram g)
     \<and> (\<forall>q. get_active_stack_index q (s\<lparr>KERNEL_STACKS_ALLOCATED := (KERNEL_STACKS_ALLOCATED s)[i := Allocated p], pg := g\<rparr>) =
          (if q = p then Some i else get_active_stack_index q s))"
proof -
  let ?st = "KERNEL_STACKS_ALLOCATED s"
  obtain i g ps' where a: "alloc_stack p s = Inr (Inr (stack_start i + KERNEL_STACK_SIZE), s\<lparr>KERNEL_STACKS_ALLOCATED := ?st[i := Allocated p], pg := g\<rparr>)"
     "i < 50" "?st ! i = Free" "stacks_inv (s\<lparr>KERNEL_STACKS_ALLOCATED := ?st[i := Allocated p], pg := g\<rparr>) ps'"
     "length ps \<le> length ps' + 18" "keeps (set_mset (all_frames (pg s) (kroot s) ps)) (ram (pg s)) (ram g)"
    using alloc_stack_spec [OF assms] by blast
  have l: "length ?st = 50" by (rule stacks_invD(3) [OF assms(1)])
  have "get_active_stack_index q (s\<lparr>KERNEL_STACKS_ALLOCATED := ?st[i := Allocated p], pg := g\<rparr>) =
     (if q = p then Some i else get_active_stack_index q s)" for q
    using ks.lookup_put [OF stacks_invD(5) [OF assms(1)], of i "Allocated p" p q] a(2,3) l assms(2) by (simp add: stack_scans)
  then show ?thesis using a by blast
qed

text \<open>C24. Allocating a kernel stack for a process that has none, with a free slot and eighteen free frames, succeeds and keeps the
  stack invariant: the new stack is the one the process's stack top now names, its six pages are mapped and the page below them is not,
  no other process's stack moves, and frames outside the kernel's tables and the free list are not written.\<close>

theorem alloc_stack_correct:
  assumes "stacks_inv s ps" "get_active_stack_index p s = None" "Free \<in> set (KERNEL_STACKS_ALLOCATED s)" "18 \<le> length ps"
  shows "\<exists>a s' ps'. alloc_stack p s = Inr (Inr a, s') \<and> stacks_inv s' ps' \<and> get_stack_top p s' = Inr a
     \<and> (\<forall>q. q \<noteq> p \<longrightarrow> get_stack_top q s' = get_stack_top q s)
     \<and> PROCESS_TABLE s' = PROCESS_TABLE s \<and> NEXT_PID s' = NEXT_PID s \<and> CURRENT_PROCESS s' = CURRENT_PROCESS s
     \<and> keeps (set_mset (all_frames (pg s) (kroot s) ps)) (ram (pg s)) (ram (pg s'))"
proof -
  let ?st = "KERNEL_STACKS_ALLOCATED s"
  obtain i g ps' where a: "alloc_stack p s = Inr (Inr (stack_start i + KERNEL_STACK_SIZE), s\<lparr>KERNEL_STACKS_ALLOCATED := ?st[i := Allocated p], pg := g\<rparr>)"
     "stacks_inv (s\<lparr>KERNEL_STACKS_ALLOCATED := ?st[i := Allocated p], pg := g\<rparr>) ps'"
     "keeps (set_mset (all_frames (pg s) (kroot s) ps)) (ram (pg s)) (ram g)"
     "\<forall>q. get_active_stack_index q (s\<lparr>KERNEL_STACKS_ALLOCATED := ?st[i := Allocated p], pg := g\<rparr>) =
          (if q = p then Some i else get_active_stack_index q s)"
    using alloc_stack_tops [OF assms] by blast
  let ?s' = "s\<lparr>KERNEL_STACKS_ALLOCATED := ?st[i := Allocated p], pg := g\<rparr>"
  have "get_stack_top p ?s' = Inr (stack_start i + KERNEL_STACK_SIZE)" "\<forall>q. q \<noteq> p \<longrightarrow> get_stack_top q ?s' = get_stack_top q s"
    using a(4) by (simp_all add: get_stack_top_def)
  then show ?thesis using a by (intro exI [of _ "stack_start i + KERNEL_STACK_SIZE"] exI [of _ ?s'] exI [of _ ps']) simp
qed

definition demo_kernel :: kstate where
  "demo_kernel = boot_state (demo_pg 0xffffff8000140000) 0xffffff800013f000"

lemma demo_kernel_inv: "\<exists>ps. stacks_inv demo_kernel ps \<and> length ps = 63"
proof -
  let ?l = "rev (map ttbr1_to_pa (step_by_page 0xffffff8000100000 0xffffff8000140000))"
  have r: "ttbr1_to_pa (0xffffff8000140000 - 4096) = 0x13f000" "ttbr1_to_pa 0xffffff800013f000 = 0x13f000"
    by (simp_all add: ttbr1_to_pa_def)
  have "length ?l = 64" "hd ?l = 0x13f000"
    by (simp_all add: step_by_page_def hd_rev ttbr1_to_pa_def PAGE_SIZE_def last_map)
  then obtain ps where ps: "?l = 0x13f000 # ps" "length ps = 63" by (cases ?l) auto
  have le: "(0xffffff8000100000 :: u64) \<le> 0xffffff8000140000" by simp
  note d = demo_owned [of "0xffffff8000140000", unfolded r, OF ps(1) le]
  have "stacks_inv demo_kernel ps"
    using d(1,3) by (auto simp: stacks_inv_def demo_kernel_def boot_state_def r is_frame_va_def page_aligned_def ttbr1_to_va_def ks.uniq_def)
  with ps(2) show ?thesis by blast
qed

theorem alloc_stack_correct_witness:
  "\<exists>a s'. alloc_stack 1 demo_kernel = Inr (Inr a, s') \<and> get_stack_top 1 s' = Inr a"
proof -
  obtain ps where ps: "stacks_inv demo_kernel ps" "length ps = 63" using demo_kernel_inv by blast
  have n: "get_active_stack_index 1 demo_kernel = None" "Free \<in> set (KERNEL_STACKS_ALLOCATED demo_kernel)"
    by (simp_all add: get_active_stack_index_def demo_kernel_def boot_state_def find_index_None)
  have "18 \<le> length ps" using ps(2) by simp
  from alloc_stack_correct [OF ps(1) n this] show ?thesis by blast
qed

section \<open>Runs of the stack operations\<close>

text \<open>What the kernel does with its stacks: it hands one out, queues one to be freed, frees the queued ones, and in between runs processes. Every operation is one that
  returned; an \<^verbatim>\<open>alloc_stack\<close> for which the frames do not suffice panics and is not followed by anything.\<close>

inductive stack_run :: "kstate \<Rightarrow> kstate \<Rightarrow> bool" for s0 where
  stack_start: "stack_run s0 s0"
| stack_alloc: "stack_run s0 s \<Longrightarrow> alloc_stack p s = Inr (r, s') \<Longrightarrow> stack_run s0 s'"
| stack_queue: "stack_run s0 s \<Longrightarrow> queue_stack_to_free p s = Inr s' \<Longrightarrow> stack_run s0 s'"
| stack_free: "stack_run s0 s \<Longrightarrow> free_queued_stacks s = Inr s' \<Longrightarrow> stack_run s0 s'"
| stack_procs: "stack_run s0 s \<Longrightarrow> stack_run s0 (s\<lparr>PROCESS_TABLE := t, CURRENT_PROCESS := c\<rparr>)"

lemma alloc_stack_step:
  assumes "stacks_inv s ps" "alloc_stack p s = Inr (r, s')"
  shows "\<exists>ps'. stacks_inv s' ps'"
proof (cases "get_active_stack_index p s = None \<and> Free \<in> set (KERNEL_STACKS_ALLOCATED s)")
  case True
  show ?thesis
  proof (cases r)
    case (Inl e)
    obtain i where "ks.first_vacant (KERNEL_STACKS_ALLOCATED s) = Some i" using True ks.first_vacant_None [of "KERNEL_STACKS_ALLOCATED s"] by auto
    then have False using True assms(2) Inl by (auto simp: alloc_stack_def stack_scans Let_def)
    then show ?thesis ..
  next
    case (Inr a)
    then have "alloc_stack p s = Inr (Inr a, s')" using assms(2) by simp
    from alloc_stack_core [OF assms(1) conjunct1 [OF True] conjunct2 [OF True] disjI2 [OF this]] this show ?thesis by auto
  qed
next
  case False
  then have "s' = s" using assms(2) ks.first_vacant_None [of "KERNEL_STACKS_ALLOCATED s"] by (auto simp: alloc_stack_def stack_scans split: option.splits if_splits)
  then show ?thesis using assms(1) by blast
qed

lemma free_queued_idle:
  assumes "free_queued_stacks s = Inr s'" "get_current_process s = None"
  shows "s' = s"
proof -
  have loop: "for_halt f is s = Inr s' \<Longrightarrow> (\<And>i t. f i s = Inr t \<Longrightarrow> t = s) \<Longrightarrow> s' = s" for f "is"
    by (induction "is") auto
  show ?thesis using assms(1) unfolding free_queued_stacks_def by (rule loop) (use assms(2) in \<open>auto split: StackState.splits\<close>)
qed

lemma stack_run_inv:
  assumes "stack_run s0 s" "stacks_inv s0 ps0"
  shows "\<exists>ps. stacks_inv s ps"
  using assms(1)
proof (induction rule: stack_run.induct)
  case stack_start
  show ?case using assms(2) by blast
next
  case (stack_alloc s p r s')
  then show ?case using alloc_stack_step by blast
next
  case (stack_queue s p s')
  then obtain i where "get_active_stack_index p s = Some i" by (cases "get_active_stack_index p s") (auto simp: queue_stack_to_free_def)
  then show ?case using stack_queue queue_stack_spec by fastforce
next
  case (stack_free s s')
  then obtain ps where ps: "stacks_inv s ps" by blast
  show ?case
  proof (cases "get_current_process s")
    case None
    then show ?thesis using free_queued_idle [OF stack_free.hyps(2)] ps by blast
  next
    case (Some cur)
    obtain g ps' t where "free_queued_stacks s = Inr (s\<lparr>KERNEL_STACKS_ALLOCATED := t, pg := g\<rparr>)" "stacks_inv (s\<lparr>KERNEL_STACKS_ALLOCATED := t, pg := g\<rparr>) ps'"
      using free_queued_spec [OF ps Some, of 50] unfolding free_queued_stacks_def MAX_PROCESSES_def by auto
    then show ?thesis using stack_free.hyps(2) by auto
  qed
next
  case (stack_procs s t c)
  then show ?case by (simp add: stacks_inv_def)
qed

section \<open>Separation\<close>

text \<open>C23. Kernel stacks are separate. Start from the kernel as it is built, all fifty slots free and no page of the stack region mapped, and let it allocate, queue and
  free stacks in any order: at every moment the stacks of two processes occupy disjoint addresses, every address of a stack's top six pages is mapped, and the
  page just below is not, so that an overflow faults instead of reaching another stack.\<close>

theorem kernel_stacks_separate:
  assumes "is_frame_va (PAGE_TABLE_KERNEL_L1 s0)" "owned (pg s0) (kroot s0) ps" "KERNEL_STACKS_ALLOCATED s0 = replicate 50 Free"
    "\<forall>i < 50. \<forall>j < 7. \<not> mapped (stack_start i + of_nat j * 4096) (kroot s0) (pg s0)"
    "stack_run s0 s" "get_stack_top p s = Inr a" "get_stack_top q s = Inr b" "p \<noteq> q"
  shows "(unat a \<le> unat b - 0x7000 \<or> unat b \<le> unat a - 0x7000)
     \<and> (\<forall>x. unat a - 0x6000 \<le> unat x \<and> unat x < unat a \<longrightarrow> mapped x (kroot s) (pg s))
     \<and> (\<forall>x. unat a - 0x7000 \<le> unat x \<and> unat x < unat a - 0x6000 \<longrightarrow> \<not> mapped x (kroot s) (pg s))"
proof -
  have "stacks_inv s0 ps" using assms(1-4) by (simp add: stacks_inv_def ks.uniq_def)
  then obtain qs where inv: "stacks_inv s qs" using stack_run_inv [OF assms(5)] by blast
  obtain i where i: "i < 50" "KERNEL_STACKS_ALLOCATED s ! i = Allocated p" "a = stack_start i + KERNEL_STACK_SIZE"
    using assms(6) get_stack_top_iff [OF inv] by blast
  obtain j where j: "j < 50" "KERNEL_STACKS_ALLOCATED s ! j = Allocated q" "b = stack_start j + KERNEL_STACK_SIZE"
    using assms(7) get_stack_top_iff [OF inv] by blast
  have ab: "unat a = 0xFFFFFF8080000000 + 4096 * (7 * i + 7)" "unat b = 0xFFFFFF8080000000 + 4096 * (7 * j + 7)"
    using unat_stack_page [OF i(1), of 7] unat_stack_page [OF j(1), of 7] i(3) j(3) by (simp_all add: KERNEL_STACK_SIZE_def)
  have "i \<noteq> j" using i(2) j(2) assms(8) by auto
  then have sep: "unat a \<le> unat b - 0x7000 \<or> unat b \<le> unat a - 0x7000" unfolding ab by (cases "i < j") auto
  have page: "mapped x (kroot s) (pg s) \<longleftrightarrow> k \<noteq> 0" if "k < 7" "unat a - 0x7000 + 4096 * k \<le> unat x" "unat x < unat a - 0x7000 + 4096 * k + 4096" for x k
  proof -
    have "unat (stack_page i k) = unat a - 0x7000 + 4096 * k" using unat_stack_page [OF i(1), of k] that(1) ab by simp
    then have "unat x div 4096 = unat (stack_page i k) div 4096" using that ab by (simp add: div_nat_eqI)
    then have "va_page x = va_page (stack_page i k)" by (simp add: word_unat_eq_iff unat_va_page)
    then have "path x = path (stack_page i k)" by (simp add: path_eq_iff)
    then have "mapped x (kroot s) (pg s) = mapped (stack_page i k) (kroot s) (pg s)"
      by (simp add: ttbr0_to_pa_node)
    then show ?thesis using stacks_invD(4) [OF inv i(1) that(1)] i(2) by simp
  qed
  have "mapped x (kroot s) (pg s)" if x: "unat a - 0x6000 \<le> unat x" "unat x < unat a" for x
  proof -
    define k where "k = (unat x - (unat a - 0x7000)) div 4096"
    have "k < 7" "k \<noteq> 0" "unat a - 0x7000 + 4096 * k \<le> unat x" "unat x < unat a - 0x7000 + 4096 * k + 4096"
      using x ab unfolding k_def by linarith+
    then show ?thesis using page by blast
  qed
  moreover have "\<not> mapped x (kroot s) (pg s)" if "unat a - 0x7000 \<le> unat x" "unat x < unat a - 0x6000" for x
    using page [of 0 x] that ab by simp
  ultimately show ?thesis using sep by blast
qed

theorem kernel_stacks_separate_witness:
  "\<exists>a s1 b s2. alloc_stack 1 demo_kernel = Inr (Inr a, s1) \<and> alloc_stack 2 s1 = Inr (Inr b, s2) \<and> (unat a \<le> unat b - 0x7000 \<or> unat b \<le> unat a - 0x7000)"
proof -
  obtain ps where ps: "stacks_inv demo_kernel ps" "length ps = 63" using demo_kernel_inv by blast
  have n: "get_active_stack_index p demo_kernel = None" "Free \<in> set (KERNEL_STACKS_ALLOCATED demo_kernel)" for p
    by (simp_all add: get_active_stack_index_def demo_kernel_def boot_state_def find_index_None)
  from alloc_stack_tops [OF ps(1) n, of 1] obtain i g qs where a:
    "alloc_stack 1 demo_kernel = Inr (Inr (stack_start i + KERNEL_STACK_SIZE), demo_kernel\<lparr>KERNEL_STACKS_ALLOCATED := (replicate 50 Free)[i := Allocated 1], pg := g\<rparr>)"
    "stacks_inv (demo_kernel\<lparr>KERNEL_STACKS_ALLOCATED := (replicate 50 Free)[i := Allocated 1], pg := g\<rparr>) qs" "18 \<le> length qs" "i < 50"
    "\<And>q. get_active_stack_index q (demo_kernel\<lparr>KERNEL_STACKS_ALLOCATED := (replicate 50 Free)[i := Allocated 1], pg := g\<rparr>) = (if q = 1 then Some i else None)"
    using ps(2) n by (auto simp: demo_kernel_def boot_state_def)
  let ?s = "demo_kernel\<lparr>KERNEL_STACKS_ALLOCATED := (replicate 50 Free)[i := Allocated 1], pg := g\<rparr>"
  have "KERNEL_STACKS_ALLOCATED ?s ! (if i = 0 then 1 else 0) = Free" using a(4) by auto
  then have f: "Free \<in> set (KERNEL_STACKS_ALLOCATED ?s)" by (auto simp: in_set_conv_nth intro!: exI [of _ "if i = 0 then 1 else 0"])
  have n2: "get_active_stack_index 2 ?s = None" using a(5) [of 2] by simp
  obtain b s2 rs where b: "alloc_stack 2 ?s = Inr (Inr b, s2)" "stacks_inv s2 rs"
    "get_active_stack_index 1 s2 = Some i" "get_stack_top 2 s2 = Inr b"
    using alloc_stack_tops [OF a(2) n2 f a(3)] a(5) by (auto simp: get_stack_top_def)
  have t: "get_stack_top 1 s2 = Inr (stack_start i + KERNEL_STACK_SIZE)" using b(3) by (simp add: get_stack_top_def)
  have "alloc_stack 1 demo_kernel = Inr (Inr (stack_start i + KERNEL_STACK_SIZE), ?s)" using a(1) by (simp add: demo_kernel_def boot_state_def)
  then have r: "stack_run demo_kernel s2" by (rule stack_alloc [OF stack_alloc [OF stack_start] b(1)])
  have k: "KERNEL_STACKS_ALLOCATED demo_kernel = replicate 50 Free" by (simp add: demo_kernel_def boot_state_def)
  have "\<forall>i < 50. \<forall>j < 7. \<not> mapped (stack_start i + of_nat j * 4096) (kroot demo_kernel) (pg demo_kernel)"
    using stacks_invD(4) [OF ps(1)] k by simp
  from kernel_stacks_separate [OF stacks_invD(1,2) [OF ps(1)] k this r t b(4)] a(1) b(1) show ?thesis by auto
qed

text \<open>C25. On entry from user mode the kernel frees every queued stack that does not belong to the current process: the free list grows by exactly six frames for
  each, the frames of the kernel's tables and the free list together stay the same, and all other slots, the processes and foreign memory are as before.\<close>

theorem free_queued_stacks_correct:
  assumes "stacks_inv s ps" "get_current_process s = Some cur"
  shows "\<exists>s' ps'. free_queued_stacks s = Inr s' \<and> stacks_inv s' ps'
     \<and> length ps' = length ps + 6 * length (filter (\<lambda>st. case st of QueuedToFree p \<Rightarrow> p \<noteq> pid cur | _ \<Rightarrow> False) (KERNEL_STACKS_ALLOCATED s))
     \<and> all_frames (pg s') (kroot s') ps' = all_frames (pg s) (kroot s) ps
     \<and> KERNEL_STACKS_ALLOCATED s' = map (queued_freed (pid cur)) (KERNEL_STACKS_ALLOCATED s)
     \<and> PROCESS_TABLE s' = PROCESS_TABLE s
     \<and> keeps (set_mset (all_frames (pg s) (kroot s) ps)) (ram (pg s)) (ram (pg s'))"
proof -
  obtain g ps' t where f: "free_queued_stacks s = Inr (s\<lparr>KERNEL_STACKS_ALLOCATED := t, pg := g\<rparr>)"
     "stacks_inv (s\<lparr>KERNEL_STACKS_ALLOCATED := t, pg := g\<rparr>) ps'"
     "\<forall>i < 50. t ! i = queued_freed (pid cur) (KERNEL_STACKS_ALLOCATED s ! i)"
     "length ps' = length ps + 6 * length (filter (to_free (pid cur)) (take 50 (KERNEL_STACKS_ALLOCATED s)))"
     "all_frames g (kroot s) ps' = all_frames (pg s) (kroot s) ps"
     "keeps (set_mset (all_frames (pg s) (kroot s) ps)) (ram (pg s)) (ram g)"
    using free_queued_spec [OF assms, of 50] unfolding free_queued_stacks_def MAX_PROCESSES_def by auto
  have "length t = 50" "length (KERNEL_STACKS_ALLOCATED s) = 50"
    using stacks_invD(3) [OF f(2)] stacks_invD(3) [OF assms(1)] by simp_all
  then have "t = map (queued_freed (pid cur)) (KERNEL_STACKS_ALLOCATED s)"
    using f(3) by (intro nth_equalityI) simp_all
  moreover have "take 50 (KERNEL_STACKS_ALLOCATED s) = KERNEL_STACKS_ALLOCATED s" using stacks_invD(3) [OF assms(1)] by simp
  ultimately show ?thesis using f unfolding to_free_def [abs_def] by (intro exI [of _ "s\<lparr>KERNEL_STACKS_ALLOCATED := t, pg := g\<rparr>"] exI [of _ ps']) simp
qed

definition idle_process :: Process where
  "idle_process = \<lparr>pid = 2, name = replicate 32 0, state = Running, block_reason = None, parent_pid = 0,
     pctx = ProcessContext_new 0 0 0 0, chan = 0, exit_code = 0\<rparr>"

theorem free_queued_stacks_correct_witness:
  "\<exists>a s1 s2 s3. alloc_stack 1 (demo_kernel\<lparr>PROCESS_TABLE := (replicate 50 None)[1 := Some idle_process]\<rparr>) = Inr (Inr a, s1)
     \<and> queue_stack_to_free 1 s1 = Inr s2 \<and> free_queued_stacks s2 = Inr s3 \<and> KERNEL_STACKS_ALLOCATED s3 = replicate 50 Free"
proof -
  let ?s = "demo_kernel\<lparr>PROCESS_TABLE := (replicate 50 None)[1 := Some idle_process]\<rparr>"
  obtain ps where ps: "stacks_inv ?s ps" "length ps = 63" using demo_kernel_inv by auto
  have n: "get_active_stack_index 1 ?s = None" "Free \<in> set (KERNEL_STACKS_ALLOCATED ?s)"
    by (simp_all add: get_active_stack_index_def demo_kernel_def boot_state_def find_index_None)
  have "18 \<le> length ps" using ps(2) by simp
  from alloc_stack_tops [OF ps(1) n this] obtain i g qs where a:
    "alloc_stack 1 ?s = Inr (Inr (stack_start i + KERNEL_STACK_SIZE), ?s\<lparr>KERNEL_STACKS_ALLOCATED := (replicate 50 Free)[i := Allocated 1], pg := g\<rparr>)"
    "stacks_inv (?s\<lparr>KERNEL_STACKS_ALLOCATED := (replicate 50 Free)[i := Allocated 1], pg := g\<rparr>) qs"
    "get_active_stack_index 1 (?s\<lparr>KERNEL_STACKS_ALLOCATED := (replicate 50 Free)[i := Allocated 1], pg := g\<rparr>) = Some i"
    by (auto simp: demo_kernel_def boot_state_def)
  let ?s1 = "?s\<lparr>KERNEL_STACKS_ALLOCATED := (replicate 50 Free)[i := Allocated 1], pg := g\<rparr>"
  let ?s2 = "?s1\<lparr>KERNEL_STACKS_ALLOCATED := (KERNEL_STACKS_ALLOCATED ?s1)[i := QueuedToFree 1]\<rparr>"
  note q = queue_stack_spec [OF a(2,3)]
  have c: "get_current_process ?s2 = Some idle_process"
    by (simp add: get_current_process_def find_by_ptable_index_def MAX_PROCESSES_def demo_kernel_def boot_state_def)
  obtain s3 where s3: "free_queued_stacks ?s2 = Inr s3"
    "KERNEL_STACKS_ALLOCATED s3 = map (queued_freed (pid idle_process)) (KERNEL_STACKS_ALLOCATED ?s2)"
    using free_queued_stacks_correct [OF q(2) c] by blast
  have "map (queued_freed 2) ((replicate 50 Free)[i := QueuedToFree 1]) = (replicate 50 Free)[i := Free]"
    by (simp add: map_update queued_freed_def)
  also have "\<dots> = replicate 50 Free" by (metis list_update_id list_update_beyond nth_replicate length_replicate not_le)
  finally have "KERNEL_STACKS_ALLOCATED s3 = replicate 50 Free" using s3(2) by (simp add: idle_process_def)
  then show ?thesis using a(1) q(1) s3(1) by blast
qed

text \<open>A stack request that cannot be met is refused without any change: a process that owns a stack gets no second one, and
  with all fifty slots in use there is none to give.\<close>

lemma alloc_stack_refuses:
  assumes "get_active_stack_index p s \<noteq> None \<or> Free \<notin> set (KERNEL_STACKS_ALLOCATED s)"
  shows "\<exists>e. alloc_stack p s = Inr (Inl e, s)"
proof (cases "get_active_stack_index p s")
  case None
  then have "ks.first_vacant (KERNEL_STACKS_ALLOCATED s) = None"
    using assms unfolding ks.first_vacant_None by auto
  then show ?thesis using None by (simp add: alloc_stack_def stack_scans)
qed (simp add: alloc_stack_def)

lemma alloc_stack_refuses_example:
  "\<exists>e. alloc_stack 7 (demo_kernel\<lparr>KERNEL_STACKS_ALLOCATED := [Allocated 7, Free]\<rparr>)
     = Inr (Inl e, demo_kernel\<lparr>KERNEL_STACKS_ALLOCATED := [Allocated 7, Free]\<rparr>)"
  by (rule alloc_stack_refuses) (simp add: get_active_stack_index_def)

end
