(* ===== verification/StackCopy.thy ===== *)
theory StackCopy
  imports AddressSpaces KernelStack
begin

text \<open>
  Copying between kernel stacks. The stack region lies at the address 2^31 of the TTBR1 half, and an access there goes through the kernel's own tree;
  \<open>umem\<close> of that tree at the low 39 bits of the address is what a kernel access sees.
\<close>

section \<open>Accesses to the stack region\<close>

definition kaddr :: "nat \<Rightarrow> u64" where
  "kaddr x = of_nat (0xFFFFFF8000000000 + x)"

lemma kaddr_add: "kaddr (x + k) = kaddr x + of_nat k"
  by (simp add: kaddr_def)

lemma unat_kaddr: "x < 2 ^ 39 \<Longrightarrow> unat (kaddr x) = 0xFFFFFF8000000000 + x"
  unfolding kaddr_def by (rule unat_small) simp

lemma ttbr0_to_pa_low:
  assumes "x < 2 ^ 39"
  shows "ttbr0_to_pa (kaddr x) t s = ttbr0_to_pa (of_nat x) t s"
proof -
  have u: "unat (kaddr x) = x + 4096 * (2 ^ 27 * 0x1FFFFFF)" using unat_kaddr [OF assms] by simp
  have "unat (kaddr x) div 4096 = x div 4096 + 2 ^ 27 * 0x1FFFFFF" unfolding u by (subst div_mult_self2) simp_all
  moreover have "x div 4096 < 2 ^ 27" using assms by simp
  ultimately have "unat (kaddr x) div 4096 mod 2 ^ 27 = x div 4096" by (simp only: mod_mult_self2 mod_less)
  moreover have "unat (kaddr x) mod 4096 = x mod 4096" unfolding u by (rule mod_mult_self2)
  ultimately
  have "va_page (kaddr x) = va_page (of_nat x)" "kaddr x AND 0xFFF = of_nat x AND 0xFFF"
    by (simp_all add: word_unat_eq_iff unat_va_page va_page_nat [OF assms] unat_and_fff unat_va_nat [OF assms])
  then show ?thesis by (simp add: ttbr0_to_pa_node path_eq_iff [symmetric])
qed

lemma mmu_stack:
  assumes "0x80000000 \<le> x" "x < 2 ^ 39"
  shows "mmu (kaddr x) s = ttbr0_to_ttbr1 (of_nat x) (Some (kroot s)) (pg s)"
  using assms ttbr0_to_pa_low [OF assms(2)] unat_kaddr [OF assms(2)]
  by (auto simp: mmu_def word_less_nat_alt KERNEL_STACK_REGION_START_def ttbr0_to_ttbr1_def)

lemma kload_stack:
  assumes "0x80000000 \<le> x" "x < 2 ^ 39"
  shows "kload (kaddr x) s = (case umem (pg s) (kroot s) x of Some b \<Rightarrow> Inr b | None \<Rightarrow> Inl Unhandled_Exception)"
  unfolding kload_def mmu_stack [OF assms] by (simp add: umem_def ttbr0_to_ttbr1_def split: option.splits)

lemma kstore_stack:
  assumes "0x80000000 \<le> x" "x < 2 ^ 39" "owned (pg s) (kroot s) ps" "umem (pg s) (kroot s) x \<noteq> None"
  shows "\<exists>g. kstore (kaddr x) b s = Inr (s\<lparr>pg := g\<rparr>) \<and> same_space (kroot s) ps (pg s) g
     \<and> (\<forall>y < 2 ^ 39. umem g (kroot s) y = (if y = x then Some b else umem (pg s) (kroot s) y))"
proof -
  obtain a where a: "ttbr0_to_ttbr1 (of_nat x) (Some (kroot s)) (pg s) = Some a"
    using assms(4) by (auto simp: umem_def ttbr0_to_ttbr1_def)
  have n: "x mod 4096 + length [b] \<le> 4096" by (simp add: Suc_le_eq)
  let ?g = "(pg s)\<lparr>ram := put_bytes (ram (pg s)) a [b]\<rparr>"
  have "kstore (kaddr x) b s = Inr (s\<lparr>pg := ?g\<rparr>)" unfolding kstore_def mmu_stack [OF assms(1,2)] a by (simp add: put_byte)
  moreover have "umem ?g (kroot s) y = (if y = x then Some b else umem (pg s) (kroot s) y)" if "y < 2 ^ 39" for y
    using umem_put(4) [OF assms(3,2) n a that] by auto
  ultimately show ?thesis using same_space_put [OF assms(3,2) n a] by blast
qed

lemma kcopy_stack:
  assumes "0x80000000 \<le> S" "S + n < 2 ^ 39" "0x80000000 \<le> D" "D + n < 2 ^ 39" "S + n \<le> D \<or> D + n \<le> S"
    and o: "owned (pg s) (kroot s) ps"
    and m: "\<And>k. k < n \<Longrightarrow> umem (pg s) (kroot s) (S + k) \<noteq> None \<and> umem (pg s) (kroot s) (D + k) \<noteq> None"
  shows "\<exists>g. kcopy (kaddr S) (kaddr D) n s = Inr (s\<lparr>pg := g\<rparr>) \<and> same_space (kroot s) ps (pg s) g
     \<and> (\<forall>y < 2 ^ 39. umem g (kroot s) y = (if D \<le> y \<and> y < D + n then umem (pg s) (kroot s) (S + (y - D)) else umem (pg s) (kroot s) y))"
  using assms(2,4,5) m
proof (induction n)
  case 0
  then show ?case using same_space_refl [OF o] by (intro exI [of _ "pg s"]) (auto simp: kcopy_def)
next
  case (Suc n)
  have pre: "S + n < 2 ^ 39" "D + n < 2 ^ 39" "S + n \<le> D \<or> D + n \<le> S" using Suc.prems(1,2,3) by auto
  obtain g where g: "kcopy (kaddr S) (kaddr D) n s = Inr (s\<lparr>pg := g\<rparr>)" "same_space (kroot s) ps (pg s) g"
    "\<And>y. y < 2 ^ 39 \<Longrightarrow> umem g (kroot s) y = (if D \<le> y \<and> y < D + n then umem (pg s) (kroot s) (S + (y - D)) else umem (pg s) (kroot s) y)"
    using Suc.IH [OF pre] Suc.prems(4) by auto
  obtain b where b: "umem (pg s) (kroot s) (S + n) = Some b" using Suc.prems(4) [of n] by auto
  have src: "umem g (kroot s) (S + n) = Some b" using g(3) [of "S + n"] Suc.prems(1,3) b by auto
  have dst: "umem g (kroot s) (D + n) \<noteq> None" using g(3) [of "D + n"] Suc.prems(2) Suc.prems(4) [of n] by auto
  let ?s = "s\<lparr>pg := g\<rparr>"
  have og: "owned (pg ?s) (kroot ?s) ps" using g(2) by (simp add: same_space_def)
  obtain g' where g': "kstore (kaddr (D + n)) b ?s = Inr (?s\<lparr>pg := g'\<rparr>)" "same_space (kroot s) ps g g'"
    "\<And>y. y < 2 ^ 39 \<Longrightarrow> umem g' (kroot s) y = (if y = D + n then Some b else umem g (kroot s) y)"
    using kstore_stack [OF _ _ og, of "D + n" b] assms(3) pre(2) dst by auto
  have "kcopy (kaddr S) (kaddr D) (Suc n) s = Inr (s\<lparr>pg := g'\<rparr>)"
    using g(1) g'(1) kload_stack [of "S + n" ?s] assms(1) pre(1) src by (simp add: kcopy_def for_halt_append kaddr_add)
  moreover have "umem g' (kroot s) y = (if D \<le> y \<and> y < D + Suc n then umem (pg s) (kroot s) (S + (y - D)) else umem (pg s) (kroot s) y)" if "y < 2 ^ 39" for y
    using g'(3) [OF that] g(3) [OF that] b by (auto simp: less_Suc_eq)
  ultimately show ?case using same_space_trans [OF g(2) g'(2)] by blast
qed

section \<open>The stacks\<close>

definition stack_base :: "nat \<Rightarrow> nat" where
  "stack_base i = 0x80000000 + 0x7000 * i"

lemma stack_top_addr: "stack_start i + KERNEL_STACK_SIZE = kaddr (stack_base i + 0x7000)"
  by (simp add: stack_start_def kaddr_def stack_base_def KERNEL_STACK_REGION_START_def KERNEL_STACK_SIZE_def)

lemma stack_byte_mapped:
  assumes "stacks_inv s ps" "i < 50" "KERNEL_STACKS_ALLOCATED s ! i \<noteq> Free" "stack_base i + 0x1000 \<le> x" "x < stack_base i + 0x7000"
  shows "umem (pg s) (kroot s) x \<noteq> None"
proof -
  define j where "j = (x - stack_base i) div 4096"
  have j: "1 \<le> j" "j < 7" "x div 4096 = 0x80000 + 7 * i + j" using assms(4,5) by (simp_all add: j_def stack_base_def)
  have x: "x < 2 ^ 39" using assms(2,5) by (simp add: stack_base_def)
  have "va_page (of_nat x) = va_page (stack_page i j)"
    using va_page_nat [OF x] va_page_stack_page [OF assms(2) j(2)] j(3) by (simp add: word_unat_eq_iff)
  note pc = mapped_page_cong [OF this, of "kroot s" "pg s"]
  have "mapped (of_nat x) (kroot s) (pg s)"
    unfolding pc stacks_invD(4) [OF assms(1,2) j(2)] using assms(3) j(1) by simp
  then show ?thesis by (simp add: umem_def)
qed

end
