(* ===== verification/Args.thy ===== *)
theory Args
  imports KState UserMem Text
begin

text \<open>
  Program arguments: \<^verbatim>\<open>push_args_to_stack\<close> and \<^verbatim>\<open>initialize_args\<close> of \<^verbatim>\<open>processes.rs\<close>, which lay the arguments out on the new program's stack,
  and the macro \<^verbatim>\<open>parse_args!\<close> of \<^verbatim>\<open>user/src/lib.rs\<close>, with which the program's runtime reads them back. Strings are lists of bytes; \<open>utf8_valid\<close> is
  the validity check of \<^verbatim>\<open>core::str::from_utf8\<close>. The user's side reads its own memory, \<open>mem\<close>, and is a debug build: an overflow panics.
\<close>

section \<open>The kernel's side\<close>

definition STACK_BUF_SIZE :: nat where "STACK_BUF_SIZE = 4096"

definition MAX_ARGS :: nat where "MAX_ARGS = 64"

definition splice :: "'a list \<Rightarrow> nat \<Rightarrow> 'a list \<Rightarrow> 'a list" where
  "splice img off bs = take off img @ bs @ drop (off + length bs) img"

primrec place_args :: "u8 list list \<Rightarrow> u8 list \<Rightarrow> nat list \<Rightarrow> nat \<Rightarrow> string + u8 list \<times> nat list \<times> nat" where
  "place_args [] img arg_starts sp = Inr (img, arg_starts, sp)"
| "place_args (bytes # args) img arg_starts sp =
     (if sp < length bytes then Inl ''arguments exceed stack''
      else let sp = sp - length bytes
           in place_args args (splice img sp bytes) (arg_starts @ [sp]) sp)"

primrec place_offsets :: "nat list \<Rightarrow> nat \<Rightarrow> nat \<Rightarrow> u8 list \<Rightarrow> u8 list" where
  "place_offsets [] i sp img = img"
| "place_offsets (arg_start # starts) i sp img =
     (let offset = (of_nat arg_start - of_nat sp :: u64); dst = sp + i * 8
      in place_offsets starts (i + 1) sp (splice img dst (to_le 8 offset)))"

definition stack_image :: "u8 list list \<Rightarrow> string + u8 list \<times> nat" where
  "stack_image args =
     (if MAX_ARGS < length args then Inl ''too many arguments'' else
      case place_args args (replicate STACK_BUF_SIZE 0) [] STACK_BUF_SIZE of
        Inl e \<Rightarrow> Inl e
      | Inr (img, arg_starts, sp) \<Rightarrow>
          (let sp = sp div 16 * 16 in
           if sp < length args * 8 + 8 then Inl ''arguments exceed stack'' else
           let sp = (sp - length args * 8) div 16 * 16
           in Inr (place_offsets arg_starts 0 sp img, sp)))"

definition push_args_to_stack :: "u8 list list \<Rightarrow> Process \<Rightarrow> pgstate \<Rightarrow> (string + (u64 \<times> u64 \<times> u64) \<times> Process) \<times> pgstate" where
  "push_args_to_stack args self g =
     (case stack_image args of
        Inl e \<Rightarrow> (Inl e, g)
      | Inr (img, sp) \<Rightarrow>
          (let stack_top = sp_el0 (pctx self);
               new_sp = stack_top - of_nat (STACK_BUF_SIZE - sp) in
           case copy_to_pages (drop sp img) new_sp (Some (ttbr0 (pctx self))) g of
             (Inl e, g) \<Rightarrow> (Inl e, g)
           | (Inr _, g) \<Rightarrow>
               (Inr ((of_nat (length args), new_sp, stack_top), self\<lparr>pctx := (pctx self)\<lparr>sp_el0 := new_sp\<rparr>\<rparr>), g)))"

definition initialize_args :: "u8 list list \<Rightarrow> Process \<Rightarrow> pgstate \<Rightarrow> (string + Process) \<times> pgstate" where
  "initialize_args args self g =
     (case push_args_to_stack args self g of
        (Inl e, g) \<Rightarrow> (Inl e, g)
      | (Inr ((argc, new_sp, sp_top), self), g) \<Rightarrow>
          (Inr (self\<lparr>pctx := (pctx self)\<lparr>regs := (regs (pctx self))[0 := argc, 1 := new_sp, 2 := sp_top]\<rparr>\<rparr>), g))"

section \<open>The program's side\<close>

definition mem_slice :: "(nat \<Rightarrow> u8 option) \<Rightarrow> u64 \<Rightarrow> u64 \<Rightarrow> string + u8 list" where
  "mem_slice mem a n =
     (case those (map (\<lambda>k. mem (unat a + k)) [0..<unat n]) of
        None \<Rightarrow> Inl ''data abort''
      | Some bs \<Rightarrow> Inr bs)"

definition checked_add :: "u64 \<Rightarrow> u64 \<Rightarrow> string + u64" where
  "checked_add a b = (if 2 ^ 64 \<le> unat a + unat b then Inl ''attempt to add with overflow'' else Inr (a + b))"

definition checked_sub :: "u64 \<Rightarrow> u64 \<Rightarrow> string + u64" where
  "checked_sub a b = (if a < b then Inl ''attempt to subtract with overflow'' else Inr (a - b))"

definition rbind :: "string + 'a \<Rightarrow> ('a \<Rightarrow> string + 'b) \<Rightarrow> string + 'b" where
  "rbind r f = (case r of Inl e \<Rightarrow> Inl e | Inr x \<Rightarrow> f x)"

primrec seq_all :: "(string + 'a) list \<Rightarrow> string + 'a list" where
  "seq_all [] = Inr []"
| "seq_all (r # rs) = rbind r (\<lambda>x. rbind (seq_all rs) (\<lambda>xs. Inr (x # xs)))"

definition read_offset :: "(nat \<Rightarrow> u8 option) \<Rightarrow> u64 \<Rightarrow> nat \<Rightarrow> string + u64" where
  "read_offset mem final_sp i = rbind (mem_slice mem (final_sp + of_nat (8 * i)) 8) (\<lambda>bs. Inr (from_le bs))"

definition parse_arg :: "(nat \<Rightarrow> u8 option) \<Rightarrow> u64 \<Rightarrow> u64 \<Rightarrow> nat \<Rightarrow> string + u8 list" where
  "parse_arg mem final_sp stack_top i =
     rbind (read_offset mem final_sp i) (\<lambda>off.
     rbind (checked_add final_sp off) (\<lambda>start.
     rbind (if i = 0 then checked_sub stack_top start
            else rbind (read_offset mem final_sp (i - 1)) (\<lambda>prev. checked_sub prev off)) (\<lambda>len.
     rbind (mem_slice mem start len) (\<lambda>bs.
     if utf8_valid bs then Inr bs else Inl ''kernel passed invalid UTF-8''))))"

definition parse_args :: "u64 \<Rightarrow> u64 \<Rightarrow> u64 \<Rightarrow> (nat \<Rightarrow> u8 option) \<Rightarrow> string + u8 list list" where
  "parse_args argc final_sp stack_top mem =
     rbind (seq_all (map (\<lambda>i. if unat argc \<le> i then Inr [] else parse_arg mem final_sp stack_top i) [0..<64]))
       (\<lambda>argv. if 64 < unat argc then Inl ''range end index out of range for slice'' else Inr (take (unat argc) argv))"

lemma rbind_simps [simp]: "rbind (Inl e) f = Inl e" "rbind (Inr x) f = f x"
  by (simp_all add: rbind_def)

section \<open>The layout\<close>

lemma splice_in_zeros:
  assumes "off + length bs \<le> n"
  shows "splice (replicate n 0 @ rest) off bs = replicate off 0 @ bs @ replicate (n - off - length bs) 0 @ rest"
  using assms by (simp add: splice_def)

fun starts_of :: "u8 list list \<Rightarrow> nat \<Rightarrow> nat list" where
  "starts_of [] sp = []"
| "starts_of (a # as) sp = (sp - length a) # starts_of as (sp - length a)"

lemma length_starts_of [simp]: "length (starts_of args sp) = length args"
  by (induction args arbitrary: sp) auto

lemma place_args_layout:
  "length (concat args) \<le> sp \<Longrightarrow>
   place_args args (replicate sp 0 @ rest) st sp =
     Inr (replicate (sp - length (concat args)) 0 @ concat (rev args) @ rest, st @ starts_of args sp, sp - length (concat args))"
proof (induction args arbitrary: sp rest st)
  case Nil
  then show ?case by simp
next
  case (Cons a as)
  have "splice (replicate sp 0 @ rest) (sp - length a) a = replicate (sp - length a) 0 @ a @ rest"
    using Cons.prems by (simp add: splice_in_zeros)
  then show ?case using Cons.prems Cons.IH [of "sp - length a" "a @ rest" "st @ [sp - length a]"]
    by (simp add: Let_def)
qed

lemma place_args_full: "sp < length (concat args) \<Longrightarrow> \<exists>e. place_args args img st sp = Inl e"
proof (induction args arbitrary: sp img st)
  case Nil
  then show ?case by simp
next
  case (Cons a as)
  then show ?case by (auto simp: Let_def)
qed

lemma place_offsets_layout:
  "i * 8 + length st * 8 \<le> n \<Longrightarrow> length pre = i * 8 \<Longrightarrow>
   place_offsets st i sp (replicate sp 0 @ pre @ replicate (n - i * 8) 0 @ rest) =
     replicate sp 0 @ pre @ concat (map (\<lambda>a. to_le 8 (of_nat a - of_nat sp :: u64)) st) @ replicate (n - i * 8 - length st * 8) 0 @ rest"
proof (induction st arbitrary: i pre)
  case Nil
  then show ?case by simp
next
  case (Cons a st)
  let ?o = "to_le 8 (of_nat a - of_nat sp :: u64)"
  have "splice (replicate sp 0 @ pre @ replicate (n - i * 8) 0 @ rest) (sp + i * 8) ?o
     = replicate sp 0 @ (pre @ ?o) @ replicate (n - (i + 1) * 8) 0 @ rest"
    using Cons.prems by (simp add: splice_def)
  then show ?case using Cons.prems Cons.IH [of "i + 1" "pre @ ?o"] by (simp add: Let_def diff_diff_left add.commute)
qed

definition args_fit :: "u8 list list \<Rightarrow> bool" where
  "args_fit args \<longleftrightarrow> length args \<le> 64 \<and> length (concat args) \<le> 4096
     \<and> length args * 8 + 8 \<le> (4096 - length (concat args)) div 16 * 16"

definition final_sp :: "u8 list list \<Rightarrow> nat" where
  "final_sp args = ((4096 - length (concat args)) div 16 * 16 - length args * 8) div 16 * 16"

definition arg_frame :: "u8 list list \<Rightarrow> u8 list" where
  "arg_frame args = concat (map (\<lambda>a. to_le 8 (of_nat a - of_nat (final_sp args) :: u64)) (starts_of args 4096))
     @ replicate (4096 - length (concat args) - final_sp args - length args * 8) 0 @ concat (rev args)"

lemma final_sp_bound:
  assumes "args_fit args"
  shows "final_sp args + length args * 8 \<le> 4096 - length (concat args)"
proof -
  let ?x = "(4096 - length (concat args)) div 16 * 16"
  have "final_sp args \<le> ?x - length args * 8" unfolding final_sp_def by (rule div_times_less_eq_dividend)
  moreover have "length args * 8 + 8 \<le> ?x" using assms by (simp only: args_fit_def)
  moreover have "?x \<le> 4096 - length (concat args)" by (rule div_times_less_eq_dividend)
  ultimately show ?thesis by linarith
qed

lemma length_concat_rev: "length (concat (rev xs)) = length (concat xs)"
  by (induction xs) auto

lemma length_concat_to_le: "length (concat (map (\<lambda>a. to_le 8 (f a)) xs)) = length xs * 8"
  by (induction xs) auto

lemma length_arg_frame: "args_fit args \<Longrightarrow> length (arg_frame args) = 4096 - final_sp args"
proof -
  assume fit: "args_fit args"
  have "length (arg_frame args) = length args * 8 + ((4096 - length (concat args) - final_sp args - length args * 8) + length (concat args))"
    by (simp only: arg_frame_def length_append length_concat_to_le length_concat_rev length_replicate length_starts_of)
  moreover have "length (concat args) \<le> 4096" using fit by (simp only: args_fit_def)
  ultimately show ?thesis using final_sp_bound [OF fit] by linarith
qed

lemma stack_image_layout:
  "stack_image args = (if args_fit args then Inr (replicate (final_sp args) 0 @ arg_frame args, final_sp args)
     else if 64 < length args then Inl ''too many arguments'' else Inl ''arguments exceed stack'')"
proof -
  let ?T = "length (concat args)" and ?f = "final_sp args"
  show ?thesis
  proof (cases "?T \<le> 4096")
    case False
    have "place_args args img st sp = Inl e \<Longrightarrow> e = ''arguments exceed stack''" for args img st sp e
      by (induction args arbitrary: img st sp) (auto simp: Let_def split: if_splits)
    moreover obtain e where "place_args args (replicate 4096 0) [] 4096 = Inl e" using place_args_full False by (metis not_le)
    ultimately show ?thesis using False by (auto simp: stack_image_def args_fit_def STACK_BUF_SIZE_def MAX_ARGS_def)
  next
    case True
    then have p: "place_args args (replicate 4096 0) [] 4096 =
        Inr (replicate (4096 - ?T) 0 @ concat (rev args), starts_of args 4096, 4096 - ?T)"
      using place_args_layout [of args 4096 "[]" "[]"] by simp
    show ?thesis
    proof (cases "args_fit args")
      case False
      then show ?thesis using True p by (auto simp: stack_image_def args_fit_def STACK_BUF_SIZE_def MAX_ARGS_def Let_def)
    next
      case fit: True
      note b = final_sp_bound [OF fit]
      have "replicate (4096 - ?T) 0 = replicate ?f 0 @ replicate (4096 - ?T - ?f) (0 :: u8)"
        using b by (simp flip: replicate_add)
      then have "place_offsets (starts_of args 4096) 0 ?f (replicate (4096 - ?T) 0 @ concat (rev args)) = replicate ?f 0 @ arg_frame args"
        using place_offsets_layout [of 0 "starts_of args 4096" "4096 - ?T - ?f" "[]" ?f "concat (rev args)"] b
        by (simp add: arg_frame_def)
      then show ?thesis using fit True p
        by (simp add: stack_image_def args_fit_def STACK_BUF_SIZE_def MAX_ARGS_def Let_def final_sp_def)
    qed
  qed
qed

lemma starts_of_nth:
  "i < length args \<Longrightarrow> length (concat args) \<le> sp \<Longrightarrow> starts_of args sp ! i = sp - length (concat (take (Suc i) args))"
proof (induction args arbitrary: sp i)
  case Nil
  then show ?case by simp
next
  case (Cons a as)
  then show ?case by (cases i) simp_all
qed

lemma concat_rev_split:
  assumes "i < length args"
  shows "concat (rev args) = concat (rev (drop (Suc i) args)) @ args ! i @ concat (rev (take i args))"
proof -
  have "args = take i args @ args ! i # drop (Suc i) args" using assms by (rule id_take_nth_drop)
  then have "rev args = rev (drop (Suc i) args) @ args ! i # rev (take i args)" by (metis rev_append rev.simps(2) append_assoc append_Cons append_Nil)
  then show ?thesis by simp
qed

lemma arg_frame_offset:
  assumes "args_fit args" "i < length args"
  shows "\<exists>X Y. arg_frame args = X @ to_le 8 (of_nat (starts_of args 4096 ! i) - of_nat (final_sp args) :: u64) @ Y \<and> length X = 8 * i"
proof -
  define f where "f = (\<lambda>a. to_le 8 (of_nat a - of_nat (final_sp args) :: u64))"
  define st where "st = starts_of args 4096"
  have i: "i < length st" using assms(2) by (simp add: st_def)
  have c: "concat (map f st) = concat (map f (take i st)) @ f (st ! i) @ concat (map f (drop (Suc i) st))"
    using arg_cong [OF id_take_nth_drop [OF i], of "\<lambda>l. concat (map f l)"] by (simp only: map_append concat_append list.simps concat.simps)
  have l: "length (concat (map f (take i st))) = 8 * i" unfolding f_def length_concat_to_le using i by simp
  have "arg_frame args = concat (map f (take i st)) @ f (st ! i) @ (concat (map f (drop (Suc i) st))
     @ replicate (4096 - length (concat args) - final_sp args - length args * 8) 0 @ concat (rev args))"
    by (simp only: arg_frame_def f_def [symmetric] st_def [symmetric] c append_assoc)
  with l show ?thesis unfolding f_def st_def by blast
qed

lemma arg_frame_arg:
  assumes "args_fit args" "i < length args"
  shows "\<exists>X Y. arg_frame args = X @ args ! i @ Y \<and> length X = starts_of args 4096 ! i - final_sp args"
proof -
  have T: "length (concat args) \<le> 4096" using assms(1) by (simp add: args_fit_def)
  have l: "length (concat (take (Suc i) args)) = length (concat (take i args)) + length (args ! i)"
    using assms(2) by (simp add: take_Suc_conv_app_nth)
  define X where "X = concat (map (\<lambda>a. to_le 8 (of_nat a - of_nat (final_sp args) :: u64)) (starts_of args 4096))
     @ replicate (4096 - length (concat args) - final_sp args - length args * 8) 0 @ concat (rev (drop (Suc i) args))"
  have X: "arg_frame args = X @ args ! i @ concat (rev (take i args))"
    unfolding arg_frame_def concat_rev_split [OF assms(2)] X_def by simp
  from arg_cong [OF X, of length] have "length X + (length (args ! i) + length (concat (take i args))) = 4096 - final_sp args"
    by (simp only: length_arg_frame [OF assms(1)] length_append length_concat_rev)
  then have "length X = starts_of args 4096 ! i - final_sp args"
    unfolding starts_of_nth [OF assms(2) T] l by linarith
  with X show ?thesis by blast
qed

section \<open>Reading the layout back\<close>

lemma those_map_Some [simp]: "those (map Some xs) = Some xs"
  by (induction xs) auto

lemma mem_slice_frame:
  assumes "\<forall>k < length F. mem (b + k) = Some (F ! k)" "F = X @ ys @ Y" "unat a = b + length X" "unat n = length ys"
  shows "mem_slice mem a n = Inr ys"
proof -
  have "map (\<lambda>k. mem (unat a + k)) [0..<unat n] = map Some ys"
  proof (rule nth_equalityI)
    fix k assume "k < length (map (\<lambda>k. mem (unat a + k)) [0..<unat n])"
    then have k: "k < length ys" using assms(4) by simp
    then have "mem (b + (length X + k)) = Some (F ! (length X + k))" using assms(1,2) by simp
    then show "map (\<lambda>k. mem (unat a + k)) [0..<unat n] ! k = map Some ys ! k"
      using k assms(2,3,4) by (simp add: nth_append add.assoc)
  qed (use assms(4) in simp)
  then show ?thesis by (simp add: mem_slice_def)
qed

text \<open>
  \<open>arg_stack args mem sp stack_top\<close>: the memory \<open>mem\<close> holds the argument frame of \<open>args\<close> at \<open>sp\<close>, below \<open>stack_top\<close>.
\<close>

definition arg_stack :: "u8 list list \<Rightarrow> (nat \<Rightarrow> u8 option) \<Rightarrow> u64 \<Rightarrow> u64 \<Rightarrow> bool" where
  "arg_stack args mem sp stack_top \<longleftrightarrow> args_fit args \<and> list_all utf8_valid args \<and> 4096 \<le> unat stack_top
     \<and> unat sp = unat stack_top - (4096 - final_sp args)
     \<and> (\<forall>k < 4096 - final_sp args. mem (unat sp + k) = Some (arg_frame args ! k))"

lemma arg_stackD:
  assumes "arg_stack args mem sp stack_top"
  shows "args_fit args" "list_all utf8_valid args" "4096 \<le> unat stack_top" "unat sp = unat stack_top - (4096 - final_sp args)"
    "\<forall>k < length (arg_frame args). mem (unat sp + k) = Some (arg_frame args ! k)"
  using assms unfolding arg_stack_def by (blast, blast, blast, blast, metis length_arg_frame)

lemma start_nth:
  assumes fit: "args_fit args" and i: "i < length args"
  shows "starts_of args 4096 ! i + length (concat (take (Suc i) args)) = 4096" "final_sp args + 8 * length args \<le> starts_of args 4096 ! i"
proof -
  have T: "length (concat args) \<le> 4096" using fit by (simp only: args_fit_def)
  have "concat args = concat (take (Suc i) args) @ concat (drop (Suc i) args)" by (metis append_take_drop_id concat_append)
  then have l: "length (concat (take (Suc i) args)) \<le> length (concat args)" by (metis le_add1 length_append)
  note st = starts_of_nth [OF i T]
  show "starts_of args 4096 ! i + length (concat (take (Suc i) args)) = 4096" unfolding st using l T by linarith
  show "final_sp args + 8 * length args \<le> starts_of args 4096 ! i" unfolding st using l final_sp_bound [OF fit] by linarith
qed

lemma read_offset_frame:
  assumes as: "arg_stack args mem sp stack_top" and i: "i < length args"
  shows "read_offset mem sp i = Inr (of_nat (starts_of args 4096 ! i - final_sp args))"
proof -
  note fit = arg_stackD(1) [OF as] and space = arg_stackD(3) [OF as] and sp = arg_stackD(4) [OF as] and frame_bytes = arg_stackD(5) [OF as]
  obtain X Y where F: "arg_frame args = X @ to_le 8 (of_nat (starts_of args 4096 ! i) - of_nat (final_sp args) :: u64) @ Y" "length X = 8 * i"
    using arg_frame_offset [OF fit i] by blast
  have "length args \<le> 64" using fit by (simp only: args_fit_def)
  then have i8: "8 * i < 512" using i by linarith
  have fs: "final_sp args + 8 * length args \<le> 4096" using start_nth [OF fit i] by linarith
  have "unat sp + 8 * i < 2 ^ 64" using sp i fs space unat_bound [of stack_top] by linarith
  then have a: "unat (sp + of_nat (8 * i)) = unat sp + length X" using F(2) i8 by (simp add: unat_word_ariths unat_of_nat)
  have le: "final_sp args \<le> starts_of args 4096 ! i" using start_nth(2) [OF fit i] by linarith
  show ?thesis
    using mem_slice_frame [OF frame_bytes F(1) a, of 8] by (simp add: read_offset_def from_to_le take_bit_word_eq_self of_nat_diff [OF le])
qed

lemma parse_arg_frame:
  assumes as: "arg_stack args mem sp stack_top" and i: "i < length args"
  shows "parse_arg mem sp stack_top i = Inr (args ! i)"
proof -
  note fit = arg_stackD(1) [OF as] and space = arg_stackD(3) [OF as] and sp = arg_stackD(4) [OF as] and frame_bytes = arg_stackD(5) [OF as]
  let ?s = "\<lambda>i. starts_of args 4096 ! i" and ?f = "final_sp args"
  have s_le: "?s j \<le> 4096" "?f \<le> ?s j" if "j < length args" for j using start_nth [OF fit that] by linarith+
  have d: "?s i - ?f \<le> 4096" using s_le [OF i] by linarith
  then have ud: "unat (of_nat (?s i - ?f) :: u64) = ?s i - ?f" by (simp add: unat_small)
  have b: "unat sp + (?s i - ?f) = unat stack_top - (4096 - ?s i)" unfolding sp using s_le [OF i] space by linarith
  then have lt: "unat sp + (?s i - ?f) < 2 ^ 64" using unat_bound [of stack_top] by linarith
  have l: "length (concat (take (Suc i) args)) = length (concat (take i args)) + length (args ! i)"
    using i by (simp add: take_Suc_conv_app_nth)
  define start where "start = sp + of_nat (?s i - ?f)"
  have ca: "checked_add sp (of_nat (?s i - ?f)) = Inr start" using lt ud by (simp add: checked_add_def start_def)
  have us: "unat start = unat sp + (?s i - ?f)" unfolding start_def using lt ud by (simp add: unat_word_ariths)
  have len: "rbind (if i = 0 then checked_sub stack_top start
      else rbind (read_offset mem sp (i - 1)) (\<lambda>prev. checked_sub prev (of_nat (?s i - ?f)))) g = g (of_nat (length (args ! i)))" for g
  proof (cases i)
    case 0
    have "unat stack_top = unat start + length (args ! i)" using us b l start_nth(1) [OF fit i] space 0 by simp
    moreover from this have "stack_top - start = of_nat (length (args ! i))" by (intro u64_of_unat) (simp add: unat_sub_if')
    ultimately show ?thesis using 0 by (simp add: checked_sub_def word_less_nat_alt)
  next
    case (Suc j)
    then have j: "j < length args" using i by simp
    have e: "?s j = ?s i + length (args ! i)" unfolding Suc [symmetric] using start_nth(1) [OF fit i] start_nth(1) [OF fit j, folded Suc] l by linarith
    have "unat (of_nat (?s j - ?f) :: u64) = ?s j - ?f" using s_le [OF j] by (intro unat_small) simp
    moreover have "?s j - ?f = (?s i - ?f) + length (args ! i)" using e s_le [OF i] by linarith
    ultimately show ?thesis using Suc ud by (simp add: read_offset_frame [OF as j] checked_sub_def word_less_nat_alt)
  qed
  obtain X Y where F: "arg_frame args = X @ args ! i @ Y" "length X = ?s i - ?f" using arg_frame_arg [OF fit i] by blast
  have "length (args ! i) \<le> 4096" using l start_nth(1) [OF fit i] by linarith
  then have ul: "unat (of_nat (length (args ! i)) :: u64) = length (args ! i)" by (simp add: unat_small)
  have "mem_slice mem start (of_nat (length (args ! i))) = Inr (args ! i)"
    using mem_slice_frame [OF frame_bytes F(1) _ ul] us F(2) by simp
  then show ?thesis using arg_stackD(2) [OF as] i unfolding list_all_length parse_arg_def read_offset_frame [OF as i] rbind_simps ca len by simp
qed

lemma seq_all_Inr: "seq_all (map (\<lambda>i. Inr (f i)) xs) = Inr (map f xs)"
  by (induction xs) auto

lemma parse_args_frame:
  assumes as: "arg_stack args mem sp stack_top"
  shows "parse_args (of_nat (length args)) sp stack_top mem = Inr args"
proof -
  have n: "length args \<le> 64" using arg_stackD(1) [OF as] by (simp only: args_fit_def)
  then have u: "unat (of_nat (length args) :: u64) = length args" by (simp add: unat_small)
  define f where "f = (\<lambda>i. if length args \<le> i then [] else args ! i)"
  have "map (\<lambda>i. if length args \<le> i then Inr [] else parse_arg mem sp stack_top i) [0..<64] = map (\<lambda>i. Inr (f i)) [0..<64]"
    by (rule map_cong) (auto simp: f_def parse_arg_frame [OF as])
  then have "parse_args (of_nat (length args)) sp stack_top mem = Inr (take (length args) (map f [0..<64]))"
    using n unfolding parse_args_def u by (simp only: seq_all_Inr rbind_simps not_less if_not_P)
  also have "take (length args) (map f [0..<64]) = args"
    using n by (intro nth_equalityI) (auto simp: f_def)
  finally show ?thesis .
qed

section \<open>Properties\<close>

lemma push_args_layout:
  assumes "owned g (ttbr0 (pctx p)) ps" "args_fit args" "4096 \<le> unat (sp_el0 (pctx p))" "unat (sp_el0 (pctx p)) \<le> 2 ^ 39"
    "\<forall>x. unat (sp_el0 (pctx p)) - 4096 \<le> x \<longrightarrow> x < unat (sp_el0 (pctx p)) \<longrightarrow> mapped (of_nat x) (ttbr0 (pctx p)) g"
  shows "\<exists>g' sp. push_args_to_stack args p g = (Inr ((of_nat (length args), sp, sp_el0 (pctx p)), p\<lparr>pctx := (pctx p)\<lparr>sp_el0 := sp\<rparr>\<rparr>), g')
     \<and> same_space (ttbr0 (pctx p)) ps g g' \<and> unat sp = unat (sp_el0 (pctx p)) - (4096 - final_sp args)
     \<and> (\<forall>y < 2 ^ 39. umem g' (ttbr0 (pctx p)) y =
          (if unat sp \<le> y \<and> y < unat (sp_el0 (pctx p)) then Some (arg_frame args ! (y - unat sp)) else umem g (ttbr0 (pctx p)) y))"
proof -
  let ?t = "ttbr0 (pctx p)" and ?top = "sp_el0 (pctx p)"
  define f where "f = final_sp args"
  define sp where "sp = ?top - of_nat (4096 - f)"
  have f: "f \<le> 4096" using final_sp_bound [OF assms(2)] unfolding f_def by linarith
  have "unat (of_nat (4096 - f) :: u64) = 4096 - f" by (rule unat_small) simp
  then have sp: "unat sp = unat ?top - (4096 - f)" unfolding sp_def using assms(3) by (simp add: unat_sub_if')
  have la: "length (arg_frame args) = 4096 - f" using length_arg_frame [OF assms(2)] by (simp add: f_def)
  then have e: "unat sp + length (arg_frame args) = unat ?top" using sp assms(3) by linarith
  have "\<exists>g'. copy_to_pages (arg_frame args) sp (Some ?t) g = (Inr (), g') \<and> same_space ?t ps g g'
     \<and> (\<forall>y < 2 ^ 39. umem g' ?t y = (if unat sp \<le> y \<and> y < unat ?top then Some (arg_frame args ! (y - unat sp)) else umem g ?t y))"
    using copy_to_pages_spec [OF assms(1), of sp "arg_frame args", unfolded e] assms(4,5) sp by auto
  then obtain g' where g': "copy_to_pages (arg_frame args) sp (Some ?t) g = (Inr (), g')" "same_space ?t ps g g'"
    "\<forall>y < 2 ^ 39. umem g' ?t y = (if unat sp \<le> y \<and> y < unat ?top then Some (arg_frame args ! (y - unat sp)) else umem g ?t y)" by blast
  have "push_args_to_stack args p g = (Inr ((of_nat (length args), sp, ?top), p\<lparr>pctx := (pctx p)\<lparr>sp_el0 := sp\<rparr>\<rparr>), g')"
    unfolding push_args_to_stack_def stack_image_layout using assms(2) g'(1) f
    by (simp add: STACK_BUF_SIZE_def f_def [symmetric] sp_def [symmetric] Let_def del: of_nat_diff)
  with g'(2,3) sp show ?thesis unfolding f_def by blast
qed

lemma init_args_spec:
  assumes "owned g (ttbr0 (pctx p)) ps" "args_fit args" "list_all utf8_valid args" "4096 \<le> unat (sp_el0 (pctx p))" "unat (sp_el0 (pctx p)) \<le> 2 ^ 39"
    "\<forall>x. unat (sp_el0 (pctx p)) - 4096 \<le> x \<longrightarrow> x < unat (sp_el0 (pctx p)) \<longrightarrow> mapped (of_nat x) (ttbr0 (pctx p)) g"
  shows "\<exists>sp g'. initialize_args args p g =
        (Inr (p\<lparr>pctx := (pctx p)\<lparr>sp_el0 := sp, regs := (regs (pctx p))[0 := of_nat (length args), 1 := sp, 2 := sp_el0 (pctx p)]\<rparr>\<rparr>), g')
     \<and> same_space (ttbr0 (pctx p)) ps g g' \<and> parse_args (of_nat (length args)) sp (sp_el0 (pctx p)) (umem g' (ttbr0 (pctx p))) = Inr args
     \<and> unat sp \<le> unat (sp_el0 (pctx p)) \<and> unat (sp_el0 (pctx p)) \<le> unat sp + 4096 \<and> unat sp mod 16 = unat (sp_el0 (pctx p)) mod 16
     \<and> (\<forall>y < 2 ^ 39. \<not> (unat sp \<le> y \<and> y < unat (sp_el0 (pctx p))) \<longrightarrow> umem g' (ttbr0 (pctx p)) y = umem g (ttbr0 (pctx p)) y)"
proof -
  let ?t = "ttbr0 (pctx p)" and ?top = "sp_el0 (pctx p)"
  obtain g' sp where push: "push_args_to_stack args p g = (Inr ((of_nat (length args), sp, ?top), p\<lparr>pctx := (pctx p)\<lparr>sp_el0 := sp\<rparr>\<rparr>), g')"
    and sp: "same_space ?t ps g g'" "unat sp = unat ?top - (4096 - final_sp args)"
    and u: "\<forall>y < 2 ^ 39. umem g' ?t y = (if unat sp \<le> y \<and> y < unat ?top then Some (arg_frame args ! (y - unat sp)) else umem g ?t y)"
    using push_args_layout [OF assms(1,2,4,5,6)] by blast
  have "umem g' ?t (unat sp + k) = Some (arg_frame args ! k)" if "k < 4096 - final_sp args" for k
  proof -
    have "unat sp + k < unat ?top" using sp(2) that assms(4) by linarith
    then show ?thesis using u assms(5) by simp
  qed
  then have "arg_stack args (umem g' ?t) sp ?top" unfolding arg_stack_def using assms(2,3,4) sp(2) by blast
  note pa = parse_args_frame [OF this]
  have fl: "final_sp args \<le> 4096" using final_sp_bound [OF assms(2)] by linarith
  obtain q where q: "final_sp args = q * 16" by (simp add: final_sp_def)
  have "unat ?top = unat sp + 16 * (256 - q)" using sp(2) assms(4) fl unfolding q by linarith
  then have al: "unat sp mod 16 = unat ?top mod 16" by simp
  have "unat sp \<le> unat ?top" "unat ?top \<le> unat sp + 4096" using sp(2) by linarith+
  then show ?thesis using pa sp(1) u al by (intro exI [of _ sp] exI [of _ g']) (simp add: initialize_args_def push)
qed

lemma args_read_back:
  assumes "owned g (ttbr0 (pctx p)) ps" "args_fit args" "list_all utf8_valid args" "4096 \<le> unat (sp_el0 (pctx p))" "unat (sp_el0 (pctx p)) \<le> 2 ^ 39"
    "\<forall>x. unat (sp_el0 (pctx p)) - 4096 \<le> x \<longrightarrow> x < unat (sp_el0 (pctx p)) \<longrightarrow> mapped (of_nat x) (ttbr0 (pctx p)) g"
    "length (regs (pctx p)) = 31"
  shows "\<exists>p' g'. initialize_args args p g = (Inr p', g') \<and> owned g' (ttbr0 (pctx p)) ps \<and> ttbr0 (pctx p') = ttbr0 (pctx p)
     \<and> parse_args (regs (pctx p') ! 0) (regs (pctx p') ! 1) (regs (pctx p') ! 2) (umem g' (ttbr0 (pctx p'))) = Inr args
     \<and> sp_el0 (pctx p') = regs (pctx p') ! 1 \<and> unat (sp_el0 (pctx p')) mod 16 = unat (sp_el0 (pctx p)) mod 16
     \<and> (\<forall>y < 2 ^ 39. \<not> (unat (sp_el0 (pctx p')) \<le> y \<and> y < unat (sp_el0 (pctx p))) \<longrightarrow> umem g' (ttbr0 (pctx p)) y = umem g (ttbr0 (pctx p)) y)"
proof -
  obtain sp g' where "initialize_args args p g =
        (Inr (p\<lparr>pctx := (pctx p)\<lparr>sp_el0 := sp, regs := (regs (pctx p))[0 := of_nat (length args), 1 := sp, 2 := sp_el0 (pctx p)]\<rparr>\<rparr>), g')"
    "same_space (ttbr0 (pctx p)) ps g g'" "parse_args (of_nat (length args)) sp (sp_el0 (pctx p)) (umem g' (ttbr0 (pctx p))) = Inr args"
    "unat sp mod 16 = unat (sp_el0 (pctx p)) mod 16"
    "\<forall>y < 2 ^ 39. \<not> (unat sp \<le> y \<and> y < unat (sp_el0 (pctx p))) \<longrightarrow> umem g' (ttbr0 (pctx p)) y = umem g (ttbr0 (pctx p)) y"
    using init_args_spec [OF assms(1-6)] by blast
  then show ?thesis using assms(7) by (auto simp: same_space_def)
qed

text \<open>C11. The arguments a program is started with are the ones it reads: after \<^verbatim>\<open>initialize_args\<close> has laid out arguments that fit on the mapped top page of the
  stack, \<^verbatim>\<open>parse_args!\<close> in the program, given the values the kernel passes in x0 to x2 and the program's own view of its memory, returns
  exactly those strings. Memory outside the argument frame is unchanged and the stack pointer stays 16-byte aligned.\<close>

theorem args_round_trip:
  assumes "owned g (ttbr0 (pctx p)) ps" "args_fit args" "list_all utf8_valid args" "4096 \<le> unat (sp_el0 (pctx p))" "unat (sp_el0 (pctx p)) \<le> 2 ^ 39"
    "\<forall>x. unat (sp_el0 (pctx p)) - 4096 \<le> x \<longrightarrow> x < unat (sp_el0 (pctx p)) \<longrightarrow> mapped (of_nat x) (ttbr0 (pctx p)) g"
    "length (regs (pctx p)) = 31"
  shows "\<exists>p' g'. initialize_args args p g = (Inr p', g') \<and> owned g' (ttbr0 (pctx p)) ps \<and> ttbr0 (pctx p') = ttbr0 (pctx p)
     \<and> parse_args (regs (pctx p') ! 0) (regs (pctx p') ! 1) (regs (pctx p') ! 2) (umem g' (ttbr0 (pctx p'))) = Inr args
     \<and> sp_el0 (pctx p') = regs (pctx p') ! 1 \<and> unat (sp_el0 (pctx p')) mod 16 = unat (sp_el0 (pctx p)) mod 16
     \<and> (\<forall>y < 2 ^ 39. \<not> (unat (sp_el0 (pctx p')) \<le> y \<and> y < unat (sp_el0 (pctx p))) \<longrightarrow> umem g' (ttbr0 (pctx p)) y = umem g (ttbr0 (pctx p)) y)"
  by (rule args_read_back [OF assms])

definition demo_args :: "u8 list list" where "demo_args = [[0x6c, 0x73], [], [0xc3, 0xa9]]"

theorem args_round_trip_witness:
  "\<exists>g p p' g'. initialize_args demo_args p g = (Inr p', g')
     \<and> parse_args (regs (pctx p') ! 0) (regs (pctx p') ! 1) (regs (pctx p') ! 2) (umem g' (ttbr0 (pctx p'))) = Inr demo_args"
proof -
  obtain g ps where g: "owned g 0x107000 ps" "\<forall>x. 0x400000 \<le> x \<and> x < 0x401000 \<longrightarrow> mapped (of_nat x) 0x107000 g" using demo_page by blast
  let ?p = "\<lparr>pid = 1, name = [], state = Ready, block_reason = None, parent_pid = 0, pctx = ProcessContext_new 0x400000 0x401000 0 0x107000, chan = 0, exit_code = 0\<rparr>"
  have u: "unat (0x401000 :: u64) = 0x401000" by simp
  have "args_fit demo_args" "list_all utf8_valid demo_args" by (simp_all add: args_fit_def demo_args_def cont_def)
  with args_round_trip [of g ?p ps demo_args] g show ?thesis by (fastforce simp: ProcessContext_new_def u)
qed

text \<open>C38. Arguments that do not fit (more than 64, or too many bytes for the page that holds them and their offsets) are refused with the message for their number or
  their size, before anything has been written to the new program's memory.\<close>

theorem args_refused:
  assumes "\<not> args_fit args"
  shows "initialize_args args p g = (Inl (if 64 < length args then ''too many arguments'' else ''arguments exceed stack''), g)"
  using assms by (simp add: initialize_args_def push_args_to_stack_def stack_image_layout)

theorem args_refused_witness:
  "\<exists>p. initialize_args (replicate 65 []) p (demo_pg 0xffffff8000108000) = (Inl ''too many arguments'', demo_pg 0xffffff8000108000)"
  using args_refused [of "replicate 65 []"] by (simp add: args_fit_def)

end
