(* ===== verification/Processes.thy ===== *)
theory Processes
  imports KernelStack Args Scheduler
begin

text \<open>
  The life of a process, \<^verbatim>\<open>processes.rs\<close>: creation (\<^verbatim>\<open>Process::new\<close>, \<^verbatim>\<open>spawn_from_elf\<close>), \<^verbatim>\<open>fork\<close>, \<^verbatim>\<open>exec\<close> and \<^verbatim>\<open>terminate\<close>. A method
  on \<^verbatim>\<open>&mut self\<close> of a process in the table takes that process and its slot; \<^verbatim>\<open>exec\<close> returns the changed process (also when it fails), which its caller
  stores back. The table is a \<open>slot_table\<close> keyed by the process id.
\<close>

definition at_pg :: "(pgstate \<Rightarrow> halt + ('a \<times> pgstate)) \<Rightarrow> kstate \<Rightarrow> halt + ('a \<times> kstate)" where
  "at_pg f s = kbind (f (pg s)) (\<lambda>(r, g). Inr (r, s\<lparr>pg := g\<rparr>))"

definition next_pid :: "kstate \<Rightarrow> u64 \<times> kstate" where
  "next_pid s = (NEXT_PID s, s\<lparr>NEXT_PID := NEXT_PID s + 1\<rparr>)"

definition name_bytes :: "u8 list \<Rightarrow> u8 list" where
  "name_bytes nm = (let len = min (length nm) 32 in take len nm @ replicate (32 - len) 0)"

definition Process_new :: "u8 list \<Rightarrow> u64 \<Rightarrow> u64 \<Rightarrow> u64 \<Rightarrow> u64 \<Rightarrow> kstate \<Rightarrow> halt + ((string + Process) \<times> kstate)" where
  "Process_new nm parent entry_point user_sp t s =
     (let (p, s) = next_pid s in
      kbind (alloc_stack p s) (\<lambda>(r, s). case r of
        Inl e \<Rightarrow> Inr (Inl e, s)
      | Inr kernel_sp \<Rightarrow>
          Inr (Inr \<lparr>pid = p, name = name_bytes nm, state = Ready, block_reason = None, parent_pid = parent,
                 pctx = ProcessContext_new entry_point user_sp kernel_sp t, chan = 0, exit_code = 0\<rparr>, s)))"

definition spawn_from_elf :: "u8 list \<Rightarrow> u64 \<Rightarrow> u8 list \<Rightarrow> u8 list list \<Rightarrow> kstate \<Rightarrow> halt + ((string + u64) \<times> kstate)" where
  "spawn_from_elf nm parent bytes args s =
     kbind (at_pg (load_elf bytes) s) (\<lambda>(r, s). case r of
       Inl e \<Rightarrow> Inr (Inl e, s)
     | Inr (entry_point, stack_top, t) \<Rightarrow>
         kbind (Process_new nm parent entry_point stack_top t s) (\<lambda>(r, s). case r of
           Inl e \<Rightarrow> Inr (Inl e, s\<lparr>pg := free_page_table (Some t) (pg s)\<rparr>)
         | Inr process \<Rightarrow>
             (case initialize_args args process (pg s) of
                (Inl e, g) \<Rightarrow> Inr (Inl e, s\<lparr>pg := g\<rparr>)
              | (Inr process, g) \<Rightarrow>
                  (let s = s\<lparr>pg := g\<rparr> in
                   case add_process_to_ptable process s of
                     Inl e \<Rightarrow> Inr (Inl e, s\<lparr>pg := free_page_table (Some t) (pg s)\<rparr>)
                   | Inr s \<Rightarrow> Inr (Inr (pid process), s)))))"

definition fork :: "Process \<Rightarrow> kstate \<Rightarrow> halt + ((string + Process) \<times> kstate)" where
  "fork self s =
     (case duplicate_va_space (Some (ttbr0 (pctx self))) (pg s) of
        (Inl e, g) \<Rightarrow> Inr (Inl e, s\<lparr>pg := g\<rparr>)
      | (Inr new_ttbr0, g) \<Rightarrow>
          (let (new_pid, s) = next_pid (s\<lparr>pg := g\<rparr>) in
           kbind (duplicate_stack (pid self) new_pid (sp_el1 (pctx self)) s) (\<lambda>(r, s). case r of
             Inl e \<Rightarrow> Inr (Inl e, s)
           | Inr new_kernel_sp \<Rightarrow>
               Inr (Inr \<lparr>pid = new_pid, name = name self, state = Ready, block_reason = None, parent_pid = pid self,
                      pctx = (pctx self)\<lparr>ttbr0 := new_ttbr0, sp_el1 := new_kernel_sp\<rparr>, chan = 0, exit_code = 0\<rparr>, s))))"

definition exec :: "u8 list \<Rightarrow> u8 list list \<Rightarrow> Process \<Rightarrow> kstate \<Rightarrow> halt + ((string + unit) \<times> Process \<times> kstate)" where
  "exec elf_bytes args self s =
     kbind (at_pg (load_elf elf_bytes) s) (\<lambda>(r, s). case r of
       Inl e \<Rightarrow> Inr (Inl e, self, s)
     | Inr (entry_point, stack_top, new_ttbr0) \<Rightarrow>
         (let s = s\<lparr>pg := free_page_table (Some (ttbr0 (pctx self))) (pg s)\<rparr> in
          case queue_stack_to_free (pid self) s of
            Inl e \<Rightarrow> Inr (Inl e, self, s)
          | Inr s \<Rightarrow>
              kbind (alloc_stack (pid self) s) (\<lambda>(r, s). case r of
                Inl e \<Rightarrow> Inr (Inl e, self, s)
              | Inr new_kernel_sp \<Rightarrow>
                  (let self = self\<lparr>pctx := ProcessContext_new entry_point stack_top new_kernel_sp new_ttbr0\<rparr> in
                   case initialize_args args self (pg s) of
                     (Inl e, g) \<Rightarrow> Inr (Inl e, self, s\<lparr>pg := g\<rparr>)
                   | (Inr self, g) \<Rightarrow> Inr (Inr (), self, s\<lparr>pg := g\<rparr>)))))"

definition unwrap :: "string + 'a \<Rightarrow> halt + 'a" where
  "unwrap r = (case r of Inl e \<Rightarrow> Inl (Panic ''called `Result::unwrap()` on an `Err` value'') | Inr v \<Rightarrow> Inr v)"

definition terminate :: "nat \<Rightarrow> Process \<Rightarrow> u64 \<Rightarrow> kstate \<Rightarrow> halt + kstate" where
  "terminate i self code s =
     (let s = update_slot i (\<lambda>p. p\<lparr>exit_code := code\<rparr>) s in
      kbind (unwrap (queue_stack_to_free (pid self) s)) (\<lambda>s.
      let s = update_slot i (set_state Terminated) s;
          s = reparent_children_to self 1 s
      in Inr (s\<lparr>pg := free_page_table (Some (ttbr0 (pctx self))) (pg s)\<rparr>)))"

section \<open>The process table as a slot table\<close>

interpretation pt: slot_table "map_option pid" "\<lambda>sl. sl = None"
  by unfold_locales simp

lemma ptable_scans:
  "slot_of p s = pt.lookup p (PROCESS_TABLE s)"
  "find_index (\<lambda>sl. sl = None) t = pt.first_vacant t"
proof -
  have "(\<lambda>sl. case sl of Some q \<Rightarrow> pid q = p | None \<Rightarrow> False) = (\<lambda>sl. map_option pid sl = Some p)"
    by (rule ext) (simp split: option.splits)
  then show "slot_of p s = pt.lookup p (PROCESS_TABLE s)" unfolding slot_of_def pt.lookup_def by (rule arg_cong)
  show "find_index (\<lambda>sl. sl = None) t = pt.first_vacant t" by (simp add: pt.first_vacant_def)
qed

end
