(* ===== verification/Syscalls.thy ===== *)
theory Syscalls
  imports Processes KernelIo
begin

text \<open>
  The system calls, \<^verbatim>\<open>syscalls.rs\<close>, and the file system they load programs from, \<^verbatim>\<open>filesystem.rs\<close>. A call takes the exception context with the
  program's registers and returns it with the results. Three things come from outside the sources: \<open>files\<close>, the bytes of the compiled user programs
  that are included into the kernel image, \<open>intro\<close>, the text that the build generates, and \<open>ticks\<close>, the successive values of the counter register that
  \<^verbatim>\<open>sys_sleep\<close> reads. \<open>ws\<close> is what happens while the process sleeps. A slice of user memory is read byte by byte.
\<close>

section \<open>The file system\<close>

definition read_file :: "(string \<Rightarrow> u8 list) \<Rightarrow> u8 list \<Rightarrow> u8 list option" where
  "read_file files file_name =
     map_option files (find (\<lambda>f. lit f = file_name)
       [''init'', ''waittest'', ''ptest'', ''echo'', ''wc'', ''tetris'', ''clear'', ''info'', ''exectest'', ''shell'', ''help''])"

definition run_executable :: "(string \<Rightarrow> u8 list) \<Rightarrow> u8 list \<Rightarrow> u64 \<Rightarrow> u8 list list \<Rightarrow> kstate \<Rightarrow> halt + ((string + unit) \<times> kstate)" where
  "run_executable files file_name parent args s =
     (case read_file files file_name of
        Some elf_bytes \<Rightarrow>
          kbind (spawn_from_elf file_name parent elf_bytes args s) (\<lambda>(r, s). Inr (case r of Inl e \<Rightarrow> Inl e | Inr _ \<Rightarrow> Inr (), s))
      | None \<Rightarrow> Inr (Inl ''File not found'', s))"

section \<open>Access to user memory and to the table lock\<close>

primrec kload_bytes :: "u64 \<Rightarrow> nat \<Rightarrow> kstate \<Rightarrow> halt + u8 list" where
  "kload_bytes a 0 s = Inr []"
| "kload_bytes a (Suc n) s = kbind (kload a s) (\<lambda>b. kbind (kload_bytes (a + 1) n s) (\<lambda>bs. Inr (b # bs)))"

definition kload64 :: "u64 \<Rightarrow> kstate \<Rightarrow> halt + u64" where
  "kload64 a s = kbind (kload_bytes a 8 s) (\<lambda>bs. Inr (from_le bs))"

definition ptable_acquire :: "kstate \<Rightarrow> halt + kstate" where
  "ptable_acquire s = kbind (spin_acquire (cpu s, PROCESS_TABLE_LOCK s)) (\<lambda>(c, l). Inr (s\<lparr>cpu := c, PROCESS_TABLE_LOCK := l\<rparr>))"

definition ptable_release :: "kstate \<Rightarrow> halt + kstate" where
  "ptable_release s = kbind (spin_release (cpu s, PROCESS_TABLE_LOCK s)) (\<lambda>(c, l). Inr (s\<lparr>cpu := c, PROCESS_TABLE_LOCK := l\<rparr>))"

definition set_x :: "nat \<Rightarrow> u64 \<Rightarrow> ExceptionContext \<Rightarrow> ExceptionContext" where
  "set_x i v ctx = ctx\<lparr>regs := (regs ctx)[i := v]\<rparr>"

abbreviation x0 :: "ExceptionContext \<Rightarrow> u64" where "x0 ctx \<equiv> regs ctx ! 0"
abbreviation x1 :: "ExceptionContext \<Rightarrow> u64" where "x1 ctx \<equiv> regs ctx ! 1"
abbreviation x2 :: "ExceptionContext \<Rightarrow> u64" where "x2 ctx \<equiv> regs ctx ! 2"

definition U64_MAX :: u64 where "U64_MAX = 0xFFFFFFFFFFFFFFFF"

section \<open>The calls\<close>

definition sys_print :: "ExceptionContext \<Rightarrow> wakeups \<Rightarrow> kstate \<Rightarrow> halt + (wakeups \<times> kstate)" where
  "sys_print ctx ws s =
     (let ptr = x0 ctx; len = x1 ctx in
      kbind (kload_bytes ptr (unat len) s) (\<lambda>bs.
      let t = (if utf8_valid bs then bs else []) in
      kio_print t ws s))"

definition sys_read :: "ExceptionContext \<Rightarrow> wakeups \<Rightarrow> kstate \<Rightarrow> halt + (ExceptionContext \<times> wakeups \<times> kstate)" where
  "sys_read ctx ws s =
     (let usr_bufp = x0 ctx; buf_sz = x1 ctx in
      if usr_bufp = 0 \<or> buf_sz = 0 then Inr (set_x 0 0 ctx, ws, s)
      else kbind (kio_read usr_bufp (unat buf_sz) ws s) (\<lambda>(r, ws, s). Inr (set_x 0 (of_nat r) ctx, ws, s)))"

definition sys_exit :: "ExceptionContext \<Rightarrow> kstate \<Rightarrow> halt + ((string + unit) \<times> ExceptionContext \<times> kstate)" where
  "sys_exit ctx s =
     (let code = x0 ctx;
          finish = (\<lambda>s. kbind (schedule_next ctx s) (\<lambda>(ctx, s). Inr (Inr (), ctx, s))) in
      case get_current_process s of
        None \<Rightarrow> finish s
      | Some current_process \<Rightarrow>
          kbind (ptable_acquire s) (\<lambda>s.
          kbind (terminate (CURRENT_PROCESS s) current_process code s) (\<lambda>s.
          let parent = (case get_current_process s of Some p \<Rightarrow> parent_pid p | None \<Rightarrow> 0) in
          case slot_of parent s of
            Some j \<Rightarrow>
              (case PROCESS_TABLE s ! j of
                 Some parent_proc \<Rightarrow>
                   if state parent_proc = Blocked \<and> block_reason parent_proc = Some WaitingForChild
                      \<and> (regs (pctx parent_proc) ! 0 = 0 \<or> pid current_process = regs (pctx parent_proc) ! 0)
                   then
                     (let s = update_slot j (\<lambda>q. (set_state Ready q)\<lparr>pctx := (pctx q)\<lparr>regs := (regs (pctx q))[0 := pid current_process, 1 := code]\<rparr>\<rparr>) s in
                      case remove_process_from_ptable (pid current_process) s of
                        Inl e \<Rightarrow> Inr (Inl e, ctx, s)
                      | Inr s \<Rightarrow> kbind (ptable_release s) finish)
                   else kbind (ptable_release s) finish
               | None \<Rightarrow> kbind (ptable_release s) finish)
          | None \<Rightarrow>
              if parent \<noteq> 0 then Inl (Panic ''[SYS_EXIT] Parent process pid '')
              else kbind (ptable_release s) finish)))"

definition sys_fork :: "ExceptionContext \<Rightarrow> kstate \<Rightarrow> halt + ((string + unit) \<times> ExceptionContext \<times> kstate)" where
  "sys_fork ctx s =
     (case get_current_process s of
        None \<Rightarrow> Inr (Inr (), set_x 0 U64_MAX ctx, s)
      | Some current_process \<Rightarrow>
          kbind (fork current_process s) (\<lambda>(r, s). case r of
            Inl e \<Rightarrow> Inr (Inl e, ctx, s)
          | Inr child \<Rightarrow>
              (let child = child\<lparr>pctx := (pctx child)\<lparr>regs := (regs (pctx child))[0 := 0]\<rparr>\<rparr>;
                   ctx = set_x 0 (pid child) ctx in
               case add_process_to_ptable child s of
                 Inl e \<Rightarrow> Inr (Inl e, ctx, s)
               | Inr s \<Rightarrow> Inr (Inr (), ctx, s))))"

primrec exec_args :: "u64 \<Rightarrow> u64 \<Rightarrow> nat list \<Rightarrow> kstate \<Rightarrow> halt + u8 list list option" where
  "exec_args ptrs lens [] s = Inr (Some [])"
| "exec_args ptrs lens (i # is) s =
     kbind (kload64 (ptrs + of_nat (8 * i)) s) (\<lambda>ptr.
     kbind (kload64 (lens + of_nat (8 * i)) s) (\<lambda>len.
     if 256 < len \<or> (len \<noteq> 0 \<and> ptr = 0) then Inr None
     else
       kbind (kload_bytes ptr (unat len) s) (\<lambda>bs.
       kbind (exec_args ptrs lens is s) (\<lambda>r. Inr (map_option (\<lambda>rest. bs # rest) r)))))"

definition sys_exec :: "(string \<Rightarrow> u8 list) \<Rightarrow> ExceptionContext \<Rightarrow> kstate \<Rightarrow> halt + (ExceptionContext \<times> kstate)" where
  "sys_exec files ctx s =
     (let ptrs = x0 ctx; lens = x1 ctx; argc = x2 ctx; failed = (\<lambda>s. Inr (set_x 0 U64_MAX ctx, s)) in
      if ptrs = 0 \<or> lens = 0 \<or> argc = 0 \<or> 32 < argc then failed s else
      kbind (exec_args ptrs lens [0..<unat argc] s) (\<lambda>r. case r of
        None \<Rightarrow> failed s
      | Some strings \<Rightarrow>
          if \<not> list_all utf8_valid strings then failed s else
          let path_str = hd strings in
          (case get_current_process s of
             None \<Rightarrow> failed s
           | Some current_process \<Rightarrow>
               (case read_file files path_str of
                  None \<Rightarrow> failed s
                | Some elf_bytes \<Rightarrow>
                    kbind (exec elf_bytes strings current_process s) (\<lambda>(r, p, s). case r of
                      Inl e \<Rightarrow> failed (update_slot (CURRENT_PROCESS s) (\<lambda>_. p) s)
                    | Inr _ \<Rightarrow>
                        (let p = p\<lparr>name := name_bytes path_str\<rparr>
                         in Inr (update_from_pctx (pctx p) ctx, update_slot (CURRENT_PROCESS s) (\<lambda>_. p) s)))))))"

definition awaits :: "u64 \<Rightarrow> u64 \<Rightarrow> Process option \<Rightarrow> bool" where
  "awaits current target sl = (case sl of Some p \<Rightarrow> parent_pid p = current \<and> (target = 0 \<or> pid p = target) | None \<Rightarrow> False)"

definition sys_wait :: "ExceptionContext \<Rightarrow> kstate \<Rightarrow> halt + ((string + unit) \<times> ExceptionContext \<times> kstate)" where
  "sys_wait ctx s =
     (let target_pid = x0 ctx in
      case get_current_process s of
        None \<Rightarrow> Inr (Inr (), set_x 0 U64_MAX ctx, s)
      | Some p \<Rightarrow>
          let current_pid = pid p in
          kbind (ptable_acquire s) (\<lambda>s.
          case find_index (\<lambda>sl. awaits current_pid target_pid sl \<and> in_state Terminated sl) (PROCESS_TABLE s) of
            Some i \<Rightarrow>
              (case PROCESS_TABLE s ! i of
                 None \<Rightarrow> Inr (Inr (), ctx, s)
               | Some child \<Rightarrow>
                   kbind (ptable_release (s\<lparr>PROCESS_TABLE := (PROCESS_TABLE s)[i := None]\<rparr>)) (\<lambda>s.
                   Inr (Inr (), set_x 1 (exit_code child) (set_x 0 (pid child) ctx), s)))
          | None \<Rightarrow>
              if \<not> list_ex (awaits current_pid target_pid) (PROCESS_TABLE s)
              then kbind (ptable_release s) (\<lambda>s. Inr (Inr (), set_x 0 U64_MAX ctx, s))
              else
                (case get_current_process s of
                   Some _ \<Rightarrow>
                     kbind (schedule_next ctx (update_slot (CURRENT_PROCESS s) (block WaitingForChild) s)) (\<lambda>(ctx, s).
                     kbind (ptable_release s) (\<lambda>s. Inr (Inr (), ctx, s)))
                 | None \<Rightarrow> kbind (ptable_release s) (\<lambda>s. Inr (Inl ''Where did the current process go'', ctx, s)))))"

definition sys_poll_char :: "ExceptionContext \<Rightarrow> wakeups \<Rightarrow> kstate \<Rightarrow> halt + (ExceptionContext \<times> wakeups \<times> kstate)" where
  "sys_poll_char ctx ws s =
     kbind (poll_char ws s) (\<lambda>(c, ws, s). Inr (set_x 0 (case c of Some c \<Rightarrow> ucast c | None \<Rightarrow> 0) ctx, ws, s))"

definition sys_sleep :: "u64 list \<Rightarrow> ExceptionContext \<Rightarrow> kstate \<Rightarrow> halt + u64 list" where
  "sys_sleep ticks ctx s =
     (let ms = x0 ctx; freq = cntfrq s in
      case ticks of
        [] \<Rightarrow> Inl Spin
      | start_ticks # later \<Rightarrow>
          (let target_ticks = start_ticks + (freq * ms) div 1000 in
           case dropWhile (\<lambda>current. current < target_ticks) later of
             [] \<Rightarrow> Inl Spin
           | current # rest \<Rightarrow> Inr rest))"

definition sys_print_os_info :: "u8 list \<Rightarrow> wakeups \<Rightarrow> kstate \<Rightarrow> halt + (wakeups \<times> kstate)" where
  "sys_print_os_info intro ws s = kio_print intro ws s"

definition sys_p_info :: "ExceptionContext \<Rightarrow> kstate \<Rightarrow> string + ExceptionContext" where
  "sys_p_info ctx s =
     (case get_current_process s of
        Some p \<Rightarrow> Inr (save_meta_to_ectx p ctx)
      | None \<Rightarrow> Inl ''How did save info actually fail?'')"

section \<open>Dispatch\<close>

definition handle_syscall ::
  "(string \<Rightarrow> u8 list) \<Rightarrow> u8 list \<Rightarrow> u64 list \<Rightarrow> ExceptionContext \<Rightarrow> wakeups \<Rightarrow> kstate \<Rightarrow> halt + (ExceptionContext \<times> wakeups \<times> kstate)" where
  "handle_syscall files intro ticks ctx ws s =
     (let syscall_number = (ucast (esr ctx AND 0xffff) :: u16);
          finish = (\<lambda>(r, ctx, s). kbind (unwrap r) (\<lambda>_. Inr (ctx, ws, s))) in
      if syscall_number = 1 then kbind (sys_print ctx ws s) (\<lambda>(ws, s). Inr (ctx, ws, s))
      else if syscall_number = 2 then sys_read ctx ws s
      else if syscall_number = 3 then kbind (sys_exit ctx s) finish
      else if syscall_number = 4 then kbind (sys_fork ctx s) finish
      else if syscall_number = 5 then kbind (sys_exec files ctx s) (\<lambda>(ctx, s). Inr (ctx, ws, s))
      else if syscall_number = 6 then kbind (sys_wait ctx s) finish
      else if syscall_number = 7 then sys_poll_char ctx ws s
      else if syscall_number = 8 then kbind (sys_sleep ticks ctx s) (\<lambda>_. Inr (ctx, ws, s))
      else if syscall_number = 9 then kbind (sys_print_os_info intro ws s) (\<lambda>(ws, s). Inr (ctx, ws, s))
      else if syscall_number = 10 then kbind (unwrap (sys_p_info ctx s)) (\<lambda>ctx. Inr (ctx, ws, s))
      else kbind (kio_print (lit ''Unknown syscall: '' @ decimal (unat syscall_number)) ws s) (\<lambda>(ws, s). Inr (ctx, ws, s)))"

end
