(* ===== verification/Exceptions.thy ===== *)
theory Exceptions
  imports Syscalls
begin

text \<open>
  The exception handlers, \<^verbatim>\<open>exceptions.rs\<close>: \<^verbatim>\<open>handle_exception_el1\<close> is what the vector table calls for every exception. \<open>irq\<close> is the value read from the
  interrupt source register. An exception that is not handled prints the context and loops forever, which is \<open>Unhandled_Exception\<close>. The
  only spinlock whose address reaches \<^verbatim>\<open>svc #0\<close> is the guard of the I/O mutex.
\<close>

definition release_at :: "u64 \<Rightarrow> kstate \<Rightarrow> halt + kstate" where
  "release_at guard_ptr s = (if guard_ptr = KERNEL_IO_GUARD s then guard_release s else Inl Unhandled_Exception)"

definition suspend :: "ExceptionContext \<Rightarrow> kstate \<Rightarrow> halt + kstate" where
  "suspend ctx s =
     (case get_current_process s of
        None \<Rightarrow> Inr s
      | Some current_process \<Rightarrow>
          kbind (update_last_running_pctx (from_ectx ctx) s) (\<lambda>s.
          let s = update_slot (CURRENT_PROCESS s) (set_state Blocked) s;
              s = s\<lparr>cpu := clear_current_process (cpu s)\<rparr> in
          if regs ctx ! 0 = 0xDEAD
          then (let guard_ptr = regs ctx ! 1 in
                if guard_ptr \<noteq> 0 then release_at guard_ptr s
                else Inl (Panic ''Mutex guard pointer is null in sleep_for_mutex!''))
          else Inr s))"

definition handle_sync_exception ::
  "(string \<Rightarrow> u8 list) \<Rightarrow> u8 list \<Rightarrow> u64 list \<Rightarrow> ExceptionContext \<Rightarrow> wakeups \<Rightarrow> kstate \<Rightarrow> halt + (ExceptionContext \<times> wakeups \<times> kstate)" where
  "handle_sync_exception files intro ticks ctx ws s =
     (let exception_class = drop_bit 26 (esr ctx) AND 0x3f in
      case esource ctx of
        EL1h \<Rightarrow>
          if exception_class = 0x15 \<and> esr ctx AND 0xffff = 0 then
            kbind (suspend ctx s) (\<lambda>s.
            kbind (reset_timer s) (\<lambda>s.
            kbind (schedule_next ctx s) (\<lambda>(ctx, s). Inr (ctx, ws, s))))
          else Inl Unhandled_Exception
      | EL064 \<Rightarrow>
          if exception_class = 0x15 then handle_syscall files intro ticks ctx ws s
          else if exception_class = 0x07 then
            kbind (kio_print (lit ''EXCEPTION: FP/SIMD functionality used when not enabled!'' @ [10]) ws s) (\<lambda>(ws, s). Inr (ctx, ws, s))
          else Inl Unhandled_Exception
      | _ \<Rightarrow> Inl Unhandled_Exception)"

definition handle_irq_exception :: "u32 \<Rightarrow> ExceptionContext \<Rightarrow> kstate \<Rightarrow> halt + (ExceptionContext \<times> kstate)" where
  "handle_irq_exception irq ctx s =
     (let irq_sources = irq in
      kbind (if irq_sources AND interrupt_mask PhysicalNonSecureTimer \<noteq> 0
             then kbind (timer_handle_irq ctx s) (\<lambda>(ctx, s). Inr (irq_sources AND NOT (interrupt_mask PhysicalNonSecureTimer), ctx, s))
             else Inr (irq_sources, ctx, s)) (\<lambda>(irq_sources, ctx, s).
      if 0 < irq_sources then Inl Unhandled_Exception else Inr (ctx, s)))"

definition handle_exception_el1 ::
  "(string \<Rightarrow> u8 list) \<Rightarrow> u8 list \<Rightarrow> u64 list \<Rightarrow> u32 \<Rightarrow> ExceptionContext \<Rightarrow> wakeups \<Rightarrow> kstate \<Rightarrow> halt + (ExceptionContext \<times> wakeups \<times> kstate)" where
  "handle_exception_el1 files intro ticks irq ctx ws s =
     kbind (if was_from_user_el0 ctx then
              kbind (free_queued_stacks s) (\<lambda>s. update_last_running_pctx (from_ectx ctx) s)
            else Inr s) (\<lambda>s.
     kbind (awake_common_chans s) (\<lambda>s.
     case etype ctx of
       E_SYNC \<Rightarrow> handle_sync_exception files intro ticks ctx ws s
     | E_IRQ \<Rightarrow> kbind (handle_irq_exception irq ctx s) (\<lambda>(ctx, s). Inr (ctx, ws, s))
     | _ \<Rightarrow> Inl Unhandled_Exception))"

end
