(* ===== verification/Fork.thy ===== *)
theory Fork
  imports StackCopy Exceptions Console
begin

text \<open>
  \<^verbatim>\<open>sys_fork\<close> end to end: the frame allocator, the duplication of the address space, the kernel stacks and the process table together. The child is a
  copy of its parent in everything the program can see except the return value.
\<close>

section \<open>The pieces\<close>

lemma stacks_inv_untouched:
  assumes "stacks_inv s ps" "owned g (kroot s) ps'" "untouched [kroot s] (pg s) g"
  shows "stacks_inv (s\<lparr>pg := g\<rparr>) ps'"
proof -
  have "mapped va (kroot s) g \<longleftrightarrow> mapped va (kroot s) (pg s)" for va
    using assms(3) unfolding mapped_umem by (simp add: untouched_def)
  then show ?thesis using assms(1,2) by (simp add: stacks_inv_def)
qed

lemma stacks_inv_same_space:
  assumes "stacks_inv s ps" "same_space (kroot s) ps (pg s) g"
  shows "stacks_inv (s\<lparr>pg := g\<rparr>) ps"
  using assms by (simp add: stacks_inv_def same_space_def)

lemma kload_frame: "kload v (s\<lparr>PROCESS_TABLE := t\<rparr>) = kload v s"
proof -
  have "mmu v (s\<lparr>PROCESS_TABLE := t\<rparr>) = mmu v s" by (simp add: mmu_def)
  then show ?thesis unfolding kload_def by (simp split: option.split)
qed

lemma kload_high:
  "KERNEL_STACK_REGION_START \<le> va \<Longrightarrow>
   kload va s = (case umem (pg s) (kroot s) (unat va) of Some b \<Rightarrow> Inr b | None \<Rightarrow> Inl Unhandled_Exception)"
  by (auto simp: kload_def mmu_def umem_def ttbr0_to_ttbr1_def KERNEL_STACK_REGION_START_def word_le_nat_alt word_less_nat_alt split: option.splits)

text \<open>The used parts of two kernel stacks, \<open>n\<close> bytes below their tops, do not overlap and lie above the guard pages.\<close>

lemma stack_spans:
  assumes "i < 50" "j < 50" "i \<noteq> j" "n \<le> 0x6000"
  defines "S \<equiv> stack_base j + 0x7000 - n" and "D \<equiv> stack_base i + 0x7000 - n"
  shows "0x80000000 \<le> S" "S + n < 2 ^ 39" "0x80000000 \<le> D" "D + n < 2 ^ 39" "S + n \<le> D \<or> D + n \<le> S"
    "S + n = stack_base j + 0x7000" "D + n = stack_base i + 0x7000" "stack_base j + 0x1000 \<le> S" "stack_base i + 0x1000 \<le> D"
proof -
  have "stack_base i + 0x7000 < 2 ^ 39" "stack_base j + 0x7000 < 2 ^ 39" using assms(1,2) by (simp_all add: stack_base_def)
  then show "0x80000000 \<le> S" "S + n < 2 ^ 39" "0x80000000 \<le> D" "D + n < 2 ^ 39" "S + n \<le> D \<or> D + n \<le> S"
    "S + n = stack_base j + 0x7000" "D + n = stack_base i + 0x7000" "stack_base j + 0x1000 \<le> S" "stack_base i + 0x1000 \<le> D"
    using assms(3,4) by (auto simp: S_def D_def stack_base_def)
qed

lemma duplicate_stack_spec:
  assumes inv: "stacks_inv s ps" and sp: "spaces (pg s) (kroot s # rs) ps"
    and src: "get_stack_top p s = Inr stk" and act: "sp \<le> stk" "stk - sp \<le> 0x6000"
    and new: "get_active_stack_index q s = None" "Free \<in> set (KERNEL_STACKS_ALLOCATED s)" "18 \<le> length ps"
  shows "\<exists>g ks stk' ps'. duplicate_stack p q sp s = Inr (Inr (stk' - (stk - sp)), s\<lparr>KERNEL_STACKS_ALLOCATED := ks, pg := g\<rparr>)
     \<and> stacks_inv (s\<lparr>KERNEL_STACKS_ALLOCATED := ks, pg := g\<rparr>) ps' \<and> spaces g (kroot s # rs) ps' \<and> untouched rs (pg s) g
     \<and> get_stack_top q (s\<lparr>KERNEL_STACKS_ALLOCATED := ks, pg := g\<rparr>) = Inr stk'
     \<and> (\<forall>k < unat (stk - sp). kload (stk' - (stk - sp) + of_nat k) (s\<lparr>KERNEL_STACKS_ALLOCATED := ks, pg := g\<rparr>) = kload (sp + of_nat k) s)
     \<and> (\<forall>k < unat (stk - sp). KERNEL_STACK_REGION_START \<le> sp + of_nat k)"
proof -
  obtain j where j: "j < 50" "KERNEL_STACKS_ALLOCATED s ! j = Allocated p" "stk = stack_start j + KERNEL_STACK_SIZE"
    using src get_stack_top_iff [OF inv] by blast
  obtain i g1 ps1 where a: "alloc_stack q s = Inr (Inr (stack_start i + KERNEL_STACK_SIZE),
       s\<lparr>KERNEL_STACKS_ALLOCATED := (KERNEL_STACKS_ALLOCATED s)[i := Allocated q], pg := g1\<rparr>)"
     "i < 50" "KERNEL_STACKS_ALLOCATED s ! i = Free" "stacks_inv (s\<lparr>KERNEL_STACKS_ALLOCATED := (KERNEL_STACKS_ALLOCATED s)[i := Allocated q], pg := g1\<rparr>) ps1"
     "all_frames g1 (kroot s) ps1 = all_frames (pg s) (kroot s) ps" "keeps (set_mset (all_frames (pg s) (kroot s) ps)) (ram (pg s)) (ram g1)"
     "\<And>va p. node (ram (pg s)) (kroot s) (path va) = Some p \<Longrightarrow> node (ram g1) (kroot s) (path va) = Some p \<and> same_frame (ram (pg s)) (ram g1) (ttbr1_to_va p)"
    using alloc_stack_spec [OF inv new] by blast
  let ?ks = "(KERNEL_STACKS_ALLOCATED s)[i := Allocated q]"
  let ?s1 = "s\<lparr>KERNEL_STACKS_ALLOCATED := ?ks, pg := g1\<rparr>"
  have ij: "i \<noteq> j" using a(3) j(2) by auto
  have len: "length (KERNEL_STACKS_ALLOCATED s) = 50" by (rule stacks_invD(3) [OF inv])
  define n where "n = unat (stk - sp)"
  have n: "n \<le> 0x6000" using act(2) by (simp add: n_def word_le_nat_alt)
  define S D where "S = stack_base j + 0x7000 - n" and "D = stack_base i + 0x7000 - n"
  note SD = stack_spans [OF a(2) j(1) ij n, folded S_def D_def]
  have u: "stk - sp = of_nat n" by (simp add: n_def)
  have sps: "sp = kaddr S"
  proof -
    have "sp + of_nat n = stk" by (simp flip: u)
    also have "stk = kaddr S + of_nat n" unfolding j(3) stack_top_addr SD(6) [symmetric] kaddr_add ..
    finally show ?thesis by simp
  qed
  have dst: "stack_start i + KERNEL_STACK_SIZE - (stk - sp) = kaddr D"
    unfolding u stack_top_addr SD(7) [symmetric] kaddr_add by simp
  have sp1: "spaces g1 (kroot s # rs) ps1" "untouched rs (pg s) g1"
    using spaces_step [OF sp _ a(5,6)] stacks_invD(2) [OF a(4)] by simp_all
  have ksj: "KERNEL_STACKS_ALLOCATED ?s1 ! j \<noteq> Free" "KERNEL_STACKS_ALLOCATED ?s1 ! i \<noteq> Free" using j(1,2) a(2) ij len by simp_all
  have m: "umem (pg ?s1) (kroot ?s1) (S + k) \<noteq> None \<and> umem (pg ?s1) (kroot ?s1) (D + k) \<noteq> None" if "k < n" for k
    using stack_byte_mapped [OF a(4) j(1) ksj(1), of "S + k"] stack_byte_mapped [OF a(4) a(2) ksj(2), of "D + k"] SD(6-9) that by simp
  from kcopy_stack [OF SD(1-5) stacks_invD(2) [OF a(4)] m] obtain g2 where
    c: "kcopy (kaddr S) (kaddr D) n ?s1 = Inr (?s1\<lparr>pg := g2\<rparr>)" "same_space (kroot s) ps1 g1 g2"
    "\<And>y. y < 2 ^ 39 \<Longrightarrow> umem g2 (kroot s) y = (if D \<le> y \<and> y < D + n then umem g1 (kroot s) (S + (y - D)) else umem g1 (kroot s) y)" by auto
  let ?s2 = "s\<lparr>KERNEL_STACKS_ALLOCATED := ?ks, pg := g2\<rparr>"
  have o1: "owned g1 (kroot s) ps1" using stacks_invD(2) [OF a(4)] by simp
  have inv2: "stacks_inv ?s2 ps1" using stacks_inv_same_space [OF a(4)] c(2) by simp
  have stk': "get_stack_top q ?s2 = Inr (stack_start i + KERNEL_STACK_SIZE)"
    using get_stack_top_iff [OF inv2] a(2) len by auto
  have top1: "get_stack_top p ?s1 = Inr stk" using get_stack_top_iff [OF a(4)] j ij len by auto
  have "get_stack_top q s = Inl ''[get_stack_top] Process does not have a kernel stack allocated''" using new(1) by (simp add: get_stack_top_def)
  then have "duplicate_stack p q sp s = Inr (Inr (stack_start i + KERNEL_STACK_SIZE - (stk - sp)), ?s2)"
    using a(1) top1 act(1) dst sps c(1) by (simp add: duplicate_stack_def get_stack_usage_def not_less n_def)
  moreover have "spaces g2 (kroot s # rs) ps1" "untouched rs g1 g2"
    using spaces_step [OF sp1(1), of g2 ps1] c(2) by (simp_all add: same_space_def)
  moreover have "kload (stack_start i + KERNEL_STACK_SIZE - (stk - sp) + of_nat k) ?s2 = kload (sp + of_nat k) s" if k: "k < n" for k
  proof -
    have "umem (pg s) (kroot s) (S + k) \<noteq> None" using stack_byte_mapped [OF inv j(1), of "S + k"] j(2) SD(6,8) k by simp
    then have "umem g1 (kroot s) (S + k) = umem (pg s) (kroot s) (S + k)"
      using kept_byte [OF stacks_invD(2) [OF inv] o1, of "S + k"] a(7) SD(2) k by simp
    then have "umem g2 (kroot s) (D + k) = umem (pg s) (kroot s) (S + k)" using c(3) [of "D + k"] SD(4) k by simp
    then show ?thesis
      using kload_stack [of "D + k" ?s2] kload_stack [of "S + k" s] SD(1-4) k unfolding dst by (simp add: sps kaddr_add)
  qed
  moreover have "KERNEL_STACK_REGION_START \<le> sp + of_nat k" if k: "k < n" for k
    unfolding sps kaddr_add [symmetric] word_le_nat_alt KERNEL_STACK_REGION_START_def using unat_kaddr [of "S + k"] SD(1,2) k by simp
  ultimately show ?thesis
    using inv2 stk' untouched_trans [OF sp1(2)] unfolding n_def by blast
qed

definition forkable :: "kstate \<Rightarrow> Process \<Rightarrow> u64 list \<Rightarrow> u64 list \<Rightarrow> bool" where
  "forkable s p rs ps \<longleftrightarrow> stacks_inv s ps \<and> spaces (pg s) (kroot s # ttbr0 (pctx p) # rs) ps
     \<and> (case get_stack_top (pid p) s of Inr stk \<Rightarrow> sp_el1 (pctx p) \<le> stk \<and> stk - sp_el1 (pctx p) \<le> 0x6000 | Inl _ \<Rightarrow> False)
     \<and> get_active_stack_index (NEXT_PID s) s = None \<and> Free \<in> set (KERNEL_STACKS_ALLOCATED s)
     \<and> length (tree_frames (ram (pg s)) 1 (ttbr0 (pctx p))) + 18 \<le> length ps"

lemma get_stack_top_frame [simp]:
  "get_stack_top p (s\<lparr>pg := g\<rparr>) = get_stack_top p s" "get_stack_top p (s\<lparr>NEXT_PID := n\<rparr>) = get_stack_top p s"
  "get_active_stack_index p (s\<lparr>pg := g\<rparr>) = get_active_stack_index p s" "get_active_stack_index p (s\<lparr>NEXT_PID := n\<rparr>) = get_active_stack_index p s"
  by (simp_all add: get_stack_top_def get_active_stack_index_def)

lemma fork_spec:
  assumes "forkable s p rs ps"
  shows "\<exists>child g ks s' ps'. s' = s\<lparr>NEXT_PID := NEXT_PID s + 1, KERNEL_STACKS_ALLOCATED := ks, pg := g\<rparr> \<and> fork p s = Inr (Inr child, s')
     \<and> pid child = NEXT_PID s \<and> parent_pid child = pid p \<and> state child = Ready \<and> name child = name p
     \<and> pctx child = (pctx p)\<lparr>ttbr0 := ttbr0 (pctx child), sp_el1 := sp_el1 (pctx child)\<rparr>
     \<and> stacks_inv s' ps'
     \<and> spaces g (kroot s # ttbr0 (pctx child) # ttbr0 (pctx p) # rs) ps'
     \<and> (\<forall>x. umem g (ttbr0 (pctx child)) x = umem (pg s) (ttbr0 (pctx p)) x) \<and> untouched (ttbr0 (pctx p) # rs) (pg s) g
     \<and> (\<exists>stk stk'. get_stack_top (pid p) s = Inr stk
          \<and> get_stack_top (pid child) s' = Inr stk'
          \<and> stk' - sp_el1 (pctx child) = stk - sp_el1 (pctx p)
          \<and> (\<forall>k < unat (stk - sp_el1 (pctx p)).
               kload (sp_el1 (pctx child) + of_nat k) s'
             = kload (sp_el1 (pctx p) + of_nat k) s))"
proof -
  let ?r = "ttbr0 (pctx p)" and ?sp = "sp_el1 (pctx p)"
  obtain stk where f: "stacks_inv s ps" "spaces (pg s) (kroot s # ?r # rs) ps" "get_stack_top (pid p) s = Inr stk" "?sp \<le> stk" "stk - ?sp \<le> 0x6000"
    "get_active_stack_index (NEXT_PID s) s = None" "Free \<in> set (KERNEL_STACKS_ALLOCATED s)" "length (tree_frames (ram (pg s)) 1 ?r) + 18 \<le> length ps"
    using assms unfolding forkable_def by (cases "get_stack_top (pid p) s") auto
  have "spaces (pg s) (?r # kroot s # rs) ps" by (rule spaces_perm [OF f(2)]) simp
  from spaces_dup [OF this] f(8) obtain d g1 ps1 where
    d: "duplicate_va_space (Some ?r) (pg s) = (Inr d, g1)" "spaces g1 (d # ?r # kroot s # rs) ps1" "untouched (?r # kroot s # rs) (pg s) g1"
      "\<forall>x. umem g1 d x = umem (pg s) ?r x" "18 \<le> length ps1" by auto
  let ?s1 = "s\<lparr>pg := g1, NEXT_PID := NEXT_PID s + 1\<rparr>"
  have sp1: "spaces g1 (kroot s # d # ?r # rs) ps1" by (rule spaces_perm [OF d(2)]) simp
  have "untouched [kroot s] (pg s) g1" by (rule untouched_mono [OF d(3)]) simp
  then have inv1: "stacks_inv ?s1 ps1" using stacks_inv_untouched [OF f(1)] sp1 by (simp add: spaces_Cons)
  have sp1': "spaces (pg ?s1) (kroot ?s1 # d # ?r # rs) ps1" using sp1 by simp
  from duplicate_stack_spec [OF inv1 sp1', of "pid p" stk ?sp "NEXT_PID s"] f(3-7) d(5) obtain g ks stk' ps' where
    k: "duplicate_stack (pid p) (NEXT_PID s) ?sp ?s1 = Inr (Inr (stk' - (stk - ?sp)), ?s1\<lparr>KERNEL_STACKS_ALLOCATED := ks, pg := g\<rparr>)"
      "stacks_inv (?s1\<lparr>KERNEL_STACKS_ALLOCATED := ks, pg := g\<rparr>) ps'" "spaces g (kroot s # d # ?r # rs) ps'" "untouched (d # ?r # rs) g1 g"
      "get_stack_top (NEXT_PID s) (?s1\<lparr>KERNEL_STACKS_ALLOCATED := ks, pg := g\<rparr>) = Inr stk'"
      "\<forall>k < unat (stk - ?sp). kload (stk' - (stk - ?sp) + of_nat k) (?s1\<lparr>KERNEL_STACKS_ALLOCATED := ks, pg := g\<rparr>) = kload (?sp + of_nat k) ?s1"
      "\<forall>k < unat (stk - ?sp). KERNEL_STACK_REGION_START \<le> ?sp + of_nat k"
    by auto
  define child where "child = \<lparr>pid = NEXT_PID s, name = name p, state = Ready, block_reason = None, parent_pid = pid p,
     pctx = (pctx p)\<lparr>ttbr0 := d, sp_el1 := stk' - (stk - ?sp)\<rparr>, chan = 0, exit_code = 0\<rparr>"
  have s2: "?s1\<lparr>KERNEL_STACKS_ALLOCATED := ks, pg := g\<rparr> = s\<lparr>NEXT_PID := NEXT_PID s + 1, KERNEL_STACKS_ALLOCATED := ks, pg := g\<rparr>" by simp
  have "fork p s = Inr (Inr child, ?s1\<lparr>KERNEL_STACKS_ALLOCATED := ks, pg := g\<rparr>)"
    using d(1) k(1) by (simp add: fork_def next_pid_def child_def)
  moreover have "kload (?sp + of_nat k) ?s1 = kload (?sp + of_nat k) s" if "k < unat (stk - ?sp)" for k
    using kload_high [of "?sp + of_nat k" ?s1] kload_high [of "?sp + of_nat k" s] k(7) that d(3) by (simp add: untouched_def)
  moreover have "untouched (?r # rs) (pg s) g"
    by (rule untouched_trans [OF untouched_mono [OF d(3)] untouched_mono [OF k(4)]]) auto
  moreover have "umem g d x = umem (pg s) ?r x" for x using d(4) k(4) by (simp add: untouched_def)
  ultimately show ?thesis
    using k f(3) unfolding s2 by (intro exI [of _ child] exI [of _ g] exI [of _ ks] exI [of _ "s\<lparr>NEXT_PID := NEXT_PID s + 1, KERNEL_STACKS_ALLOCATED := ks, pg := g\<rparr>"] exI [of _ ps']) (simp add: child_def)
qed

lemma add_process_vacant:
  assumes "None \<in> set (PROCESS_TABLE s)"
  shows "\<exists>i < length (PROCESS_TABLE s). PROCESS_TABLE s ! i = None \<and> add_process_to_ptable p s = Inr (s\<lparr>PROCESS_TABLE := (PROCESS_TABLE s)[i := Some p]\<rparr>)"
proof -
  obtain i where i: "pt.first_vacant (PROCESS_TABLE s) = Some i" using assms pt.first_vacant_None [of "PROCESS_TABLE s"] by auto
  then show ?thesis using pt.first_vacant_Some [OF i] by (intro exI [of _ i]) (simp add: add_process_to_ptable_def ptable_scans)
qed

section \<open>Properties\<close>

text \<open>C2. A fork that has the resources it needs (free frames for a copy of the address space and for a kernel stack, a free stack, a free slot) succeeds. The
  parent gets the new process id and the child gets 0 in x0; in all other registers, in the name and in every byte of its memory the child is a copy of the
  parent, also in the part of the kernel stack in use; its parent is the caller. The memory of the parent and of every other process is as before, no frame is
  shared, and the invariant of the kernel stacks holds again.\<close>

theorem fork_correct:
  assumes "get_current_process s = Some p" "forkable s p rs ps" "None \<in> set (PROCESS_TABLE s)"
  shows "\<exists>child i s' ps' stk stk'. sys_fork ctx s = Inr (Inr (), set_x 0 (pid child) ctx, s')
     \<and> i < length (PROCESS_TABLE s) \<and> PROCESS_TABLE s ! i = None \<and> PROCESS_TABLE s' = (PROCESS_TABLE s)[i := Some child]
     \<and> pid child = NEXT_PID s \<and> NEXT_PID s' = NEXT_PID s + 1 \<and> parent_pid child = pid p \<and> state child = Ready \<and> name child = name p
     \<and> pctx child = (pctx p)\<lparr>regs := (regs (pctx p))[0 := 0], ttbr0 := ttbr0 (pctx child), sp_el1 := sp_el1 (pctx child)\<rparr>
     \<and> (\<forall>x. umem (pg s') (ttbr0 (pctx child)) x = umem (pg s) (ttbr0 (pctx p)) x) \<and> untouched (ttbr0 (pctx p) # rs) (pg s) (pg s')
     \<and> stacks_inv s' ps' \<and> spaces (pg s') (kroot s' # ttbr0 (pctx child) # ttbr0 (pctx p) # rs) ps'
     \<and> get_stack_top (pid p) s = Inr stk \<and> get_stack_top (pid child) s' = Inr stk' \<and> stk' - sp_el1 (pctx child) = stk - sp_el1 (pctx p)
     \<and> (\<forall>k < unat (stk - sp_el1 (pctx p)). kload (sp_el1 (pctx child) + of_nat k) s' = kload (sp_el1 (pctx p) + of_nat k) s)"
proof -
  obtain c g ks t ps' stk stk' where t: "t = s\<lparr>NEXT_PID := NEXT_PID s + 1, KERNEL_STACKS_ALLOCATED := ks, pg := g\<rparr>" and f: "fork p s = Inr (Inr c, t)"
    "pid c = NEXT_PID s" "parent_pid c = pid p" "state c = Ready" "name c = name p"
    "pctx c = (pctx p)\<lparr>ttbr0 := ttbr0 (pctx c), sp_el1 := sp_el1 (pctx c)\<rparr>" "stacks_inv t ps'"
    "spaces g (kroot s # ttbr0 (pctx c) # ttbr0 (pctx p) # rs) ps'" "\<forall>x. umem g (ttbr0 (pctx c)) x = umem (pg s) (ttbr0 (pctx p)) x"
    "untouched (ttbr0 (pctx p) # rs) (pg s) g" "get_stack_top (pid p) s = Inr stk" "get_stack_top (pid c) t = Inr stk'"
    "stk' - sp_el1 (pctx c) = stk - sp_el1 (pctx p)"
    "\<forall>k < unat (stk - sp_el1 (pctx p)). kload (sp_el1 (pctx c) + of_nat k) t = kload (sp_el1 (pctx p) + of_nat k) s"
    using fork_spec [OF assms(2)] by blast
  define child where "child = c\<lparr>pctx := (pctx c)\<lparr>regs := (regs (pctx c))[0 := 0]\<rparr>\<rparr>"
  obtain i where i: "i < length (PROCESS_TABLE s)" "PROCESS_TABLE s ! i = None"
    "add_process_to_ptable child t = Inr (t\<lparr>PROCESS_TABLE := (PROCESS_TABLE s)[i := Some child]\<rparr>)"
    using add_process_vacant [of t child] assms(3) t by auto
  let ?s' = "t\<lparr>PROCESS_TABLE := (PROCESS_TABLE s)[i := Some child]\<rparr>"
  have ch: "pid child = pid c" "parent_pid child = parent_pid c" "state child = state c" "name child = name c"
    "ttbr0 (pctx child) = ttbr0 (pctx c)" "sp_el1 (pctx child) = sp_el1 (pctx c)" by (simp_all add: child_def)
  have "regs (pctx c) = regs (pctx p)" by (subst f(6)) simp
  then have px: "pctx child = (pctx p)\<lparr>regs := (regs (pctx p))[0 := 0], ttbr0 := ttbr0 (pctx child), sp_el1 := sp_el1 (pctx child)\<rparr>"
    using f(6) by (cases "pctx c"; cases "pctx p") (simp add: child_def)
  have "sys_fork ctx s = Inr (Inr (), set_x 0 (pid child) ctx, ?s')"
    using assms(1) f(1) i(3) by (simp add: sys_fork_def child_def Let_def)
  moreover have "get_stack_top q ?s' = get_stack_top q t" for q by (simp add: get_stack_top_def get_active_stack_index_def)
  moreover have "kload v ?s' = kload v t" for v by (simp add: kload_frame)
  ultimately show ?thesis using f i(1,2) px unfolding ch
    by (intro exI [of _ child] exI [of _ i] exI [of _ ?s'] exI [of _ ps'] exI [of _ stk] exI [of _ stk']) (simp add: ch t)
qed

definition fork_demo :: "kstate \<Rightarrow> u64 \<Rightarrow> u64 \<Rightarrow> kstate" where
  "fork_demo s t sp = s\<lparr>PROCESS_TABLE := Some ((lone_process Running 0)\<lparr>pctx := ProcessContext_new 0x400000 0x401000 sp t\<rparr>) # replicate 49 None,
     CURRENT_PROCESS := 0, NEXT_PID := 2\<rparr>"

lemma fork_demo_current:
  "get_current_process (fork_demo s t sp) = Some ((lone_process Running 0)\<lparr>pctx := ProcessContext_new 0x400000 0x401000 sp t\<rparr>)"
  by (simp add: fork_demo_def get_current_process_def find_by_ptable_index_def MAX_PROCESSES_def)

lemma demo_forkable: "\<exists>s t sp ps. forkable (fork_demo s t sp) ((lone_process Running 0)\<lparr>pctx := ProcessContext_new 0x400000 0x401000 sp t\<rparr>) [] ps"
proof -
  obtain ps where ps: "stacks_inv demo_kernel ps" "length ps = 63" using demo_kernel_inv by blast
  have n: "get_active_stack_index 1 demo_kernel = None" "Free \<in> set (KERNEL_STACKS_ALLOCATED demo_kernel)"
    by (simp_all add: get_active_stack_index_def demo_kernel_def boot_state_def find_index_None)
  have "18 \<le> length ps" using ps(2) by simp
  from alloc_stack_tops [OF ps(1) n this] obtain i g ps1 s1 where a: "i < 50" "stacks_inv s1 ps1"
     "length ps \<le> length ps1 + 18" "\<forall>q. get_active_stack_index q s1 = (if q = 1 then Some i else get_active_stack_index q demo_kernel)"
     and s1: "s1 = demo_kernel\<lparr>KERNEL_STACKS_ALLOCATED := (KERNEL_STACKS_ALLOCATED demo_kernel)[i := Allocated 1], pg := g\<rparr>" by blast
  have "spaces g [kroot s1] ps1" using stacks_invD(2) [OF a(2)] s1 by (simp add: spaces_Cons) (simp add: spaces_def owned_def)
  moreover obtain t ps2 where t: "ps1 = t # ps2" using a(3) ps(2) by (cases ps1) auto
  ultimately obtain g1 where g: "spaces (fill_zero t g1) (t # [kroot s1]) ps2" "untouched [kroot s1] g (fill_zero t g1)"
    "tree_frames (ram (fill_zero t g1)) 1 t = [t]" using spaces_new [of g "[kroot s1]" t ps2] by blast
  let ?s = "s1\<lparr>pg := fill_zero t g1\<rparr>" and ?sp = "stack_start i + KERNEL_STACK_SIZE"
  have sp: "spaces (fill_zero t g1) [kroot s1, t] ps2" by (rule spaces_perm [OF g(1)]) simp
  then have inv: "stacks_inv ?s ps2" using stacks_inv_untouched [OF a(2), of "fill_zero t g1" ps2] g(2) s1 by (simp add: spaces_Cons)
  have "get_active_stack_index q demo_kernel = None" for q by (simp add: get_active_stack_index_def demo_kernel_def boot_state_def find_index_None)
  then have ix: "get_active_stack_index q ?s = (if q = 1 then Some i else None)" for q using a(4) by (simp add: get_active_stack_index_def)
  have fr: "Free \<in> set (KERNEL_STACKS_ALLOCATED ?s)"
    using a(1) s1 set_update_memI [of i "KERNEL_STACKS_ALLOCATED demo_kernel"] by (auto simp: demo_kernel_def boot_state_def in_set_conv_nth intro!: exI [of _ "if i = 0 then 1 else 0"])
  have "get_active_stack_index q (fork_demo ?s t ?sp) = get_active_stack_index q ?s" for q by (simp add: fork_demo_def get_active_stack_index_def)
  then have "forkable (fork_demo ?s t ?sp) ((lone_process Running 0)\<lparr>pctx := ProcessContext_new 0x400000 0x401000 ?sp t\<rparr>) [] ps2"
    using inv sp ix fr g(3) a(3) ps(2) t
    by (simp add: forkable_def get_stack_top_def) (simp add: fork_demo_def ProcessContext_new_def lone_process_def)
  then show ?thesis by blast
qed

theorem fork_correct_witness:
  "\<exists>s t sp s' child. get_current_process s = Some ((lone_process Running 0)\<lparr>pctx := ProcessContext_new 0x400000 0x401000 sp t\<rparr>)
     \<and> sys_fork demo_ectx s = Inr (Inr (), set_x 0 2 demo_ectx, s') \<and> Some child \<in> set (PROCESS_TABLE s') \<and> pid child = 2"
proof -
  obtain s t sp ps where f: "forkable (fork_demo s t sp) ((lone_process Running 0)\<lparr>pctx := ProcessContext_new 0x400000 0x401000 sp t\<rparr>) [] ps"
    using demo_forkable by blast
  have "None \<in> set (PROCESS_TABLE (fork_demo s t sp))" by (simp add: fork_demo_def)
  from fork_correct [OF fork_demo_current f this, of demo_ectx] obtain child k s' where
    c: "sys_fork demo_ectx (fork_demo s t sp) = Inr (Inr (), set_x 0 (pid child) demo_ectx, s')" "k < length (PROCESS_TABLE (fork_demo s t sp))"
      "PROCESS_TABLE s' = (PROCESS_TABLE (fork_demo s t sp))[k := Some child]" "pid child = NEXT_PID (fork_demo s t sp)" by blast
  have "pid child = 2" using c(4) by (simp add: fork_demo_def)
  moreover have "Some child \<in> set (PROCESS_TABLE s')" unfolding c(3) by (rule set_update_memI [OF c(2)])
  ultimately show ?thesis using c(1) fork_demo_current by metis
qed

text \<open>A fork whose copy of the address space succeeds, but for whose kernel stack fewer than six frames are left: the mapping of the stack panics.\<close>

lemma fork_stack_starved:
  assumes "stacks_inv s ps" "spaces (pg s) (kroot s # ttbr0 (pctx p) # rs) ps" "get_active_stack_index (NEXT_PID s) s = None" "Free \<in> set (KERNEL_STACKS_ALLOCATED s)"
    "length (tree_frames (ram (pg s)) 1 (ttbr0 (pctx p))) \<le> length ps" "length ps < length (tree_frames (ram (pg s)) 1 (ttbr0 (pctx p))) + 6"
  shows "\<exists>m. fork p s = Inl (Panic m)"
proof -
  let ?r = "ttbr0 (pctx p)"
  have "spaces (pg s) (?r # kroot s # rs) ps" by (rule spaces_perm [OF assms(2)]) simp
  from spaces_dup [OF this assms(5)] assms(6) obtain d g ps1 where
    d: "duplicate_va_space (Some ?r) (pg s) = (Inr d, g)" "spaces g (d # ?r # kroot s # rs) ps1" "untouched (?r # kroot s # rs) (pg s) g" "length ps1 < 6" by auto
  let ?s1 = "s\<lparr>pg := g, NEXT_PID := NEXT_PID s + 1\<rparr>"
  have "spaces g (kroot s # d # ?r # rs) ps1" by (rule spaces_perm [OF d(2)]) simp
  moreover have "untouched [kroot s] (pg s) g" by (rule untouched_mono [OF d(3)]) simp
  ultimately have "stacks_inv ?s1 ps1" using stacks_inv_untouched [OF assms(1)] by (simp add: spaces_Cons)
  then obtain m where m: "alloc_stack (NEXT_PID s) ?s1 = Inl (Panic m)" using alloc_stack_starved [of ?s1 ps1 "NEXT_PID s"] assms(3,4) d(4) by auto
  have "get_stack_top (NEXT_PID s) ?s1 = Inl ''[get_stack_top] Process does not have a kernel stack allocated''" using assms(3) by (simp add: get_stack_top_def)
  then show ?thesis using d(1) m by (simp add: fork_def next_pid_def duplicate_stack_def)
qed

text \<open>C17. A fork ends in a kernel panic, although it is documented to return -1, when the free frames do not suffice for the copy of the address space and the six pages of
  the kernel stack. If they do not suffice for the copy, the copy gives back every frame it took, no memory is changed, and the error that \<^verbatim>\<open>sys_fork\<close> returns reaches
  an \<^verbatim>\<open>unwrap\<close>. If they suffice for the copy but leave fewer than six, \<^verbatim>\<open>sys_fork\<close> itself panics while it maps the stack: it does not return, and nothing gives the
  copied space back.\<close>

theorem fork_out_of_memory:
  assumes "get_current_process s = Some p" "stacks_inv s ps" "spaces (pg s) (kroot s # ttbr0 (pctx p) # rs) ps"
    "get_active_stack_index (NEXT_PID s) s = None" "Free \<in> set (KERNEL_STACKS_ALLOCATED s)"
    "length ps < length (tree_frames (ram (pg s)) 1 (ttbr0 (pctx p))) + 6"
  shows "(length ps < length (tree_frames (ram (pg s)) 1 (ttbr0 (pctx p))) \<longrightarrow>
        (\<exists>e g ps'. sys_fork ctx s = Inr (Inl e, ctx, s\<lparr>pg := g\<rparr>) \<and> mset ps' = mset ps
          \<and> spaces g (kroot s # ttbr0 (pctx p) # rs) ps' \<and> untouched (kroot s # ttbr0 (pctx p) # rs) (pg s) g)
        \<and> (esr ctx AND 0xffff = 4 \<longrightarrow>
            handle_syscall files intro ticks ctx ws s = Inl (Panic ''called `Result::unwrap()` on an `Err` value'')))
     \<and> (length (tree_frames (ram (pg s)) 1 (ttbr0 (pctx p))) \<le> length ps \<longrightarrow>
        (\<exists>m. sys_fork ctx s = Inl (Panic m) \<and> (esr ctx AND 0xffff = 4 \<longrightarrow> handle_syscall files intro ticks ctx ws s = Inl (Panic m))))"
proof (intro conjI impI)
  assume few: "length ps < length (tree_frames (ram (pg s)) 1 (ttbr0 (pctx p)))"
  have "spaces (pg s) (ttbr0 (pctx p) # kroot s # rs) ps" by (rule spaces_perm [OF assms(3)]) simp
  then obtain e g ps' where d: "duplicate_va_space (Some (ttbr0 (pctx p))) (pg s) = (Inl e, g)" "spaces g (ttbr0 (pctx p) # kroot s # rs) ps'"
    "untouched (ttbr0 (pctx p) # kroot s # rs) (pg s) g" "mset ps' = mset ps" using spaces_dup_fails [OF _ few] by blast
  have f: "sys_fork ctx s = Inr (Inl e, ctx, s\<lparr>pg := g\<rparr>)" using assms(1) d(1) by (simp add: sys_fork_def fork_def)
  moreover have "spaces g (kroot s # ttbr0 (pctx p) # rs) ps'" by (rule spaces_perm [OF d(2)]) simp
  moreover have "untouched (kroot s # ttbr0 (pctx p) # rs) (pg s) g" by (rule untouched_mono [OF d(3)]) auto
  ultimately show "\<exists>e g ps'. sys_fork ctx s = Inr (Inl e, ctx, s\<lparr>pg := g\<rparr>) \<and> mset ps' = mset ps
     \<and> spaces g (kroot s # ttbr0 (pctx p) # rs) ps' \<and> untouched (kroot s # ttbr0 (pctx p) # rs) (pg s) g" using d(4) by blast
  show "handle_syscall files intro ticks ctx ws s = Inl (Panic ''called `Result::unwrap()` on an `Err` value'')" if "esr ctx AND 0xffff = 4"
    using f that by (simp add: handle_syscall_def unwrap_def)
next
  assume "length (tree_frames (ram (pg s)) 1 (ttbr0 (pctx p))) \<le> length ps"
  from fork_stack_starved [OF assms(2-5) this assms(6)] obtain m where "sys_fork ctx s = Inl (Panic m)" using assms(1) by (auto simp: sys_fork_def)
  then show "\<exists>m. sys_fork ctx s = Inl (Panic m) \<and> (esr ctx AND 0xffff = 4 \<longrightarrow> handle_syscall files intro ticks ctx ws s = Inl (Panic m))"
    by (intro exI [of _ m]) (simp add: handle_syscall_def)
qed

text \<open>A machine with four frames: one for the kernel's table, one for the table of the only process, two free.\<close>

lemma demo_starved:
  "\<exists>g ps. stacks_inv (fork_demo (boot_state g 0xffffff8000103000) 0x102000 0) ps
     \<and> spaces g [0x103000, 0x102000] ps \<and> tree_frames (ram g) 1 0x102000 = [0x102000] \<and> length ps = 2"
proof -
  let ?l = "rev (map ttbr1_to_pa (step_by_page 0xffffff8000100000 0xffffff8000104000))" and ?g = "demo_pg 0xffffff8000104000"
  have r: "ttbr1_to_pa (0xffffff8000104000 - 4096) = 0x103000" "ttbr1_to_pa 0xffffff8000103000 = 0x103000" by (simp_all add: ttbr1_to_pa_def)
  have l: "?l = 0x103000 # [0x102000, 0x101000, 0x100000]" by (simp add: step_by_page_def ttbr1_to_pa_def PAGE_SIZE_def upt_rec)
  have le: "(0xffffff8000100000 :: u64) \<le> 0xffffff8000104000" by simp
  note d = demo_owned [of "0xffffff8000104000", unfolded r, OF l le]
  have inv: "stacks_inv (boot_state ?g 0xffffff8000103000) [0x102000, 0x101000, 0x100000]"
    using d(1,3) by (auto simp: stacks_inv_def boot_state_def r is_frame_va_def page_aligned_def ttbr1_to_va_def ks.uniq_def)
  have "spaces ?g [0x103000] (0x102000 # [0x101000, 0x100000])" using d(1) by (simp add: spaces_Cons) (simp add: spaces_def owned_def)
  from spaces_new [OF this] obtain g1 where g: "spaces (fill_zero 0x102000 g1) [0x102000, 0x103000] [0x101000, 0x100000]"
    "untouched [0x103000] ?g (fill_zero 0x102000 g1)" "tree_frames (ram (fill_zero 0x102000 g1)) 1 0x102000 = [0x102000]" by blast
  have sp: "spaces (fill_zero 0x102000 g1) [0x103000, 0x102000] [0x101000, 0x100000]" by (rule spaces_perm [OF g(1)]) simp
  have "stacks_inv ((boot_state ?g 0xffffff8000103000)\<lparr>pg := fill_zero 0x102000 g1\<rparr>) [0x101000, 0x100000]"
    using stacks_inv_untouched [OF inv, of "fill_zero 0x102000 g1"] sp g(2) by (simp add: spaces_Cons boot_state_def r)
  moreover have "(boot_state ?g 0xffffff8000103000)\<lparr>pg := fill_zero 0x102000 g1\<rparr> = boot_state (fill_zero 0x102000 g1) 0xffffff8000103000" by (simp add: boot_state_def)
  ultimately have "stacks_inv (fork_demo (boot_state (fill_zero 0x102000 g1) 0xffffff8000103000) 0x102000 0) [0x101000, 0x100000]"
    by (simp add: fork_demo_def)
  then show ?thesis using sp g(3) by (intro exI [of _ "fill_zero 0x102000 g1"] exI [of _ "[0x101000, 0x100000]"]) simp
qed

theorem fork_out_of_memory_witness:
  "\<exists>s m. get_current_process s \<noteq> None \<and> handle_syscall (\<lambda>_. []) [] [] (demo_ectx\<lparr>esr := 4\<rparr>) [] s = Inl (Panic m)"
proof -
  obtain g ps where a: "stacks_inv (fork_demo (boot_state g 0xffffff8000103000) 0x102000 0) ps" "spaces g [0x103000, 0x102000] ps"
    "tree_frames (ram g) 1 0x102000 = [0x102000]" "length ps = 2" using demo_starved by blast
  let ?s = "fork_demo (boot_state g 0xffffff8000103000) 0x102000 0"
  let ?p = "(lone_process Running 0)\<lparr>pctx := ProcessContext_new 0x400000 0x401000 0 0x102000\<rparr>"
  note cur = fork_demo_current [of "boot_state g 0xffffff8000103000" "0x102000" 0]
  have k: "kroot ?s = 0x103000" "pg ?s = g" "ttbr0 (pctx ?p) = 0x102000" by (simp_all add: fork_demo_def boot_state_def ttbr1_to_pa_def ProcessContext_new_def)
  have "get_active_stack_index (NEXT_PID ?s) ?s = None" "Free \<in> set (KERNEL_STACKS_ALLOCATED ?s)"
    by (simp_all add: get_active_stack_index_def fork_demo_def boot_state_def find_index_None)
  then show ?thesis
    using fork_out_of_memory [OF cur a(1), where rs = "[]" and ctx = "demo_ectx\<lparr>esr := 4\<rparr>" and files = "\<lambda>_. []" and intro = "[]" and ticks = "[]" and ws = "[]"]
      a(2-4) k cur by (intro exI [of _ ?s]) auto
qed

end
