(* ===== verification/Exec.thy ===== *)
theory Exec
  imports ElfSpec Fork
begin

text \<open>
  \<^verbatim>\<open>sys_exec\<close> end to end: the loader, the release of the old address space, the change of kernel stacks and the arguments together. The process runs the new
  program with the arguments it was given, and no other process notices.
\<close>

section \<open>The pieces\<close>

lemma untouched_umem: "untouched rs s s' \<Longrightarrow> r \<in> set rs \<Longrightarrow> umem s' r x = umem s r x"
  by (simp add: untouched_def)

definition executable :: "kstate \<Rightarrow> Process \<Rightarrow> u8 list \<Rightarrow> u64 list \<Rightarrow> u64 \<Rightarrow> u64 list \<Rightarrow> bool" where
  "executable s p bytes rs t ps \<longleftrightarrow> stacks_inv s (t # ps) \<and> spaces (pg s) (kroot s # ttbr0 (pctx p) # rs) (t # ps) \<and> blank (ram (pg s)) t
     \<and> loadable bytes \<and> 3 * (image_pages bytes + 14) + 18 \<le> length ps
     \<and> get_active_stack_index (pid p) s \<noteq> None \<and> Free \<in> set (KERNEL_STACKS_ALLOCATED s)"

lemma fresh_stack:
  assumes inv: "stacks_inv s ps" and sp: "spaces (pg s) (kroot s # rs) ps" and act: "get_active_stack_index p s = None"
    and fr: "Free \<in> set (KERNEL_STACKS_ALLOCATED s)" and len: "18 \<le> length ps"
  shows "\<exists>ks g ps' stk. alloc_stack p s = Inr (Inr stk, s\<lparr>KERNEL_STACKS_ALLOCATED := ks, pg := g\<rparr>)
     \<and> stacks_inv (s\<lparr>KERNEL_STACKS_ALLOCATED := ks, pg := g\<rparr>) ps' \<and> spaces g (kroot s # rs) ps' \<and> untouched rs (pg s) g
     \<and> frames_in g (kroot s # rs) ps' = frames_in (pg s) (kroot s # rs) ps
     \<and> get_stack_top p (s\<lparr>KERNEL_STACKS_ALLOCATED := ks, pg := g\<rparr>) = Inr stk"
proof -
  obtain j g ps' where a: "alloc_stack p s = Inr (Inr (stack_start j + KERNEL_STACK_SIZE), s\<lparr>KERNEL_STACKS_ALLOCATED := (KERNEL_STACKS_ALLOCATED s)[j := Allocated p], pg := g\<rparr>)"
    "j < 50" "stacks_inv (s\<lparr>KERNEL_STACKS_ALLOCATED := (KERNEL_STACKS_ALLOCATED s)[j := Allocated p], pg := g\<rparr>) ps'"
    "all_frames g (kroot s) ps' = all_frames (pg s) (kroot s) ps" "keeps (set_mset (all_frames (pg s) (kroot s) ps)) (ram (pg s)) (ram g)"
    using alloc_stack_spec [OF inv act fr len] by auto
  have o: "owned g (kroot s) ps'" using stacks_invD(2) [OF a(3)] by simp
  have "get_stack_top p (s\<lparr>KERNEL_STACKS_ALLOCATED := (KERNEL_STACKS_ALLOCATED s)[j := Allocated p], pg := g\<rparr>) = Inr (stack_start j + KERNEL_STACK_SIZE)"
    using get_stack_top_iff [OF a(3), of p] a(2) stacks_invD(3) [OF inv] by auto
  then show ?thesis using a(1,3) spaces_step [OF sp o a(4,5)] by blast
qed

lemma new_stack:
  assumes inv: "stacks_inv s ps" and sp: "spaces (pg s) (kroot s # rs) ps" and act: "get_active_stack_index p s \<noteq> None"
    and fr: "Free \<in> set (KERNEL_STACKS_ALLOCATED s)" and len: "18 \<le> length ps"
  shows "\<exists>s1 ks g ps' stk. queue_stack_to_free p s = Inr s1 \<and> alloc_stack p s1 = Inr (Inr stk, s\<lparr>KERNEL_STACKS_ALLOCATED := ks, pg := g\<rparr>)
     \<and> stacks_inv (s\<lparr>KERNEL_STACKS_ALLOCATED := ks, pg := g\<rparr>) ps' \<and> spaces g (kroot s # rs) ps' \<and> untouched rs (pg s) g
     \<and> frames_in g (kroot s # rs) ps' = frames_in (pg s) (kroot s # rs) ps
     \<and> get_stack_top p (s\<lparr>KERNEL_STACKS_ALLOCATED := ks, pg := g\<rparr>) = Inr stk"
proof -
  obtain i where i: "get_active_stack_index p s = Some i" using act by blast
  let ?ks = "(KERNEL_STACKS_ALLOCATED s)[i := QueuedToFree p]"
  let ?s1 = "s\<lparr>KERNEL_STACKS_ALLOCATED := ?ks\<rparr>"
  note q = queue_stack_spec [OF inv i]
  have st: "i < length (KERNEL_STACKS_ALLOCATED s)" "KERNEL_STACKS_ALLOCATED s ! i = Allocated p"
    using i ks.lookup_SomeD [of p "KERNEL_STACKS_ALLOCATED s" i] by (auto simp: stack_scans)
  have none: "get_active_stack_index p ?s1 = None"
    using ks.lookup_remove [OF stacks_invD(5) [OF inv] st(1), of "QueuedToFree p" p p] st(2) by (simp add: stack_scans)
  obtain f where f: "f < length (KERNEL_STACKS_ALLOCATED s)" "KERNEL_STACKS_ALLOCATED s ! f = Free" using fr by (auto simp: in_set_conv_nth)
  then have "f \<noteq> i" using st(2) by auto
  then have "?ks ! f = Free" "f < length ?ks" using f by simp_all
  then have fr1: "Free \<in> set (KERNEL_STACKS_ALLOCATED ?s1)" using nth_mem [of f ?ks] by simp
  have "spaces (pg ?s1) (kroot ?s1 # rs) ps" using sp by simp
  from fresh_stack [OF q(2) this none fr1 len] obtain ks g ps' stk where
    a: "alloc_stack p ?s1 = Inr (Inr stk, s\<lparr>KERNEL_STACKS_ALLOCATED := ks, pg := g\<rparr>)" "stacks_inv (s\<lparr>KERNEL_STACKS_ALLOCATED := ks, pg := g\<rparr>) ps'"
    "spaces g (kroot s # rs) ps'" "untouched rs (pg s) g" "frames_in g (kroot s # rs) ps' = frames_in (pg s) (kroot s # rs) ps"
    "get_stack_top p (s\<lparr>KERNEL_STACKS_ALLOCATED := ks, pg := g\<rparr>) = Inr stk" by auto
  then show ?thesis using q(1) by blast
qed

lemma arg_page_mapped:
  assumes "T < 2 ^ 39" "4096 \<le> T" "\<forall>x < 2 ^ 39. x div 4096 \<in> stack_pages T \<longrightarrow> umem g t x \<noteq> None" "T - 4096 \<le> x" "x < T"
  shows "mapped (of_nat x) t g"
proof -
  have "(T - 1) div 4096 \<le> (x + 4096) div 4096" using assms(4,5) by (intro div_le_mono) simp
  then have "x div 4096 \<in> stack_pages T" unfolding stack_pages_def using div_le_mono [of x "T - 1" 4096] assms(5) by auto
  then show ?thesis using assms(1,3,5) by (auto simp: umem_def)
qed

lemma swap_space:
  assumes "executable s p bytes rs t ps"
  defines "T \<equiv> user_stack_top (image_end bytes)"
  shows "\<exists>g1 g2 ps2. load_elf bytes (pg s) = Inr (Inr (e_entry (read_hdr bytes), of_nat T, t), g1) \<and> T < 2 ^ 39
     \<and> g2 = free_page_table (Some (ttbr0 (pctx p))) g1 \<and> stacks_inv (s\<lparr>pg := g2\<rparr>) ps2 \<and> spaces g2 (kroot s # t # rs) ps2 \<and> untouched rs (pg s) g2
     \<and> frames_in g2 (kroot s # t # rs) ps2 = frames_in (pg s) (kroot s # ttbr0 (pctx p) # rs) (t # ps) \<and> 18 \<le> length ps2
     \<and> (\<forall>ph \<in> set (load_segs bytes). \<forall>k < unat (memsize ph). umem g2 t (unat (virtaddr ph) + k) = Some (file_byte bytes ph k))
     \<and> (\<forall>x < 2 ^ 39. x div 4096 \<in> stack_pages T \<longrightarrow> umem g2 t x \<noteq> None)"
proof -
  let ?old = "ttbr0 (pctx p)" and ?k = "kroot s"
  have h: "stacks_inv s (t # ps)" "spaces (pg s) (?k # ?old # rs) (t # ps)" "blank (ram (pg s)) t" "loadable bytes" "3 * (image_pages bytes + 14) + 18 \<le> length ps"
    using assms(1) by (simp_all add: executable_def)
  have len: "3 * (image_pages bytes + 14) \<le> length ps" using h(5) by simp
  obtain g1 ps1 where l: "load_elf bytes (pg s) = Inr (Inr (e_entry (read_hdr bytes), of_nat T, t), g1)" "T < 2 ^ 39" "spaces g1 (t # ?k # ?old # rs) ps1"
    "untouched (?k # ?old # rs) (pg s) g1" "frames_in g1 (t # ?k # ?old # rs) ps1 = frames_in (pg s) (?k # ?old # rs) (t # ps)"
    "length ps \<le> length ps1 + 3 * (image_pages bytes + 14)"
    "\<forall>ph \<in> set (load_segs bytes). \<forall>k < unat (memsize ph). umem g1 t (unat (virtaddr ph) + k) = Some (file_byte bytes ph k)"
    "\<forall>x < 2 ^ 39. umem g1 t x \<noteq> None \<longleftrightarrow> x div 4096 \<in> stack_pages T \<or> (\<exists>ph \<in> set (load_segs bytes). x div 4096 \<in> seg_pages ph)"
    using load_elf_spec [OF h(2,3,4) len] unfolding T_def by blast
  have sp1: "spaces g1 (?old # ?k # t # rs) ps1" by (rule spaces_perm [OF l(3)]) simp
  let ?g2 = "free_page_table (Some ?old) g1"
  obtain ps2 where f: "spaces ?g2 (?k # t # rs) ps2" "untouched (?k # t # rs) g1 ?g2" "mset ps2 = all_frames g1 ?old ps1"
    "frames_in ?g2 (?k # t # rs) ps2 = frames_in g1 (?old # ?k # t # rs) ps1" using spaces_free [OF sp1] by blast
  have "length ps1 \<le> length ps2" using arg_cong [OF f(3), of size] by (simp add: all_frames_def)
  then have "18 \<le> length ps2" using l(6) h(5) by simp
  moreover have uk: "untouched [?k] (pg s) ?g2" "untouched rs (pg s) ?g2"
    by (rule untouched_trans [OF untouched_mono [OF l(4)] untouched_mono [OF f(2)]]; auto)+
  moreover have "stacks_inv (s\<lparr>pg := ?g2\<rparr>) ps2" by (rule stacks_inv_untouched [OF h(1) _ uk(1)]) (use f(1) in \<open>simp add: spaces_Cons\<close>)
  moreover have "umem ?g2 t x = umem g1 t x" for x using untouched_umem [OF f(2)] by simp
  moreover have "frames_in g1 (?old # ?k # t # rs) ps1 = frames_in g1 (t # ?k # ?old # rs) ps1" by (rule frames_in_perm) simp
  ultimately show ?thesis using l f(1,4) by (intro exI [of _ g1] exI [of _ ?g2] exI [of _ ps2]) simp
qed

definition image_loaded :: "u8 list \<Rightarrow> u64 \<Rightarrow> pgstate \<Rightarrow> bool" where
  "image_loaded bytes t g \<longleftrightarrow> (\<forall>ph \<in> set (load_segs bytes). \<forall>k < unat (memsize ph). umem g t (unat (virtaddr ph) + k) = Some (file_byte bytes ph k))"

definition start_pctx :: "u8 list \<Rightarrow> u8 list list \<Rightarrow> u64 \<Rightarrow> u64 \<Rightarrow> u64 \<Rightarrow> ProcessContext" where
  "start_pctx bytes args sp stk t = \<lparr>regs = (replicate 31 0)[0 := of_nat (length args), 1 := sp, 2 := of_nat (user_stack_top (image_end bytes))],
     elr = e_entry (read_hdr bytes), spsr = 0, sp_el0 = sp, sp_el1 = stk, ttbr0 = t\<rparr>"

lemma start_args:
  assumes sp: "spaces g (t # rs) ps" and ok: "loadable bytes" and args: "args_fit args" "list_all utf8_valid args" and im: "image_loaded bytes t g"
    and p: "pctx p = ProcessContext_new (e_entry (read_hdr bytes)) (of_nat T) stk t" and T: "T = user_stack_top (image_end bytes)" "T < 2 ^ 39"
    and m: "\<forall>x < 2 ^ 39. x div 4096 \<in> stack_pages T \<longrightarrow> umem g t x \<noteq> None"
  shows "\<exists>g' sp. initialize_args args p g = (Inr (p\<lparr>pctx := start_pctx bytes args sp stk t\<rparr>), g')
     \<and> spaces g' (t # rs) ps \<and> untouched rs g g' \<and> frames_in g' (t # rs) ps = frames_in g (t # rs) ps \<and> image_loaded bytes t g'
     \<and> parse_args (of_nat (length args)) sp (of_nat T) (umem g' t) = Inr args \<and> unat sp mod 16 = 0"
proof -
  have u: "unat (of_nat T :: u64) = T" "4096 \<le> T" "T mod 16 = 0" using unat_va_nat [OF T(2)] by (simp_all add: T(1) user_stack_top_def)
  have o: "owned g (ttbr0 (pctx p)) ps" using sp p by (simp add: ProcessContext_new_def spaces_Cons)
  obtain g' sp where i: "initialize_args args p g = (Inr (p\<lparr>pctx := start_pctx bytes args sp stk t\<rparr>), g')" "same_space t ps g g'"
    "parse_args (of_nat (length args)) sp (of_nat T) (umem g' t) = Inr args" "T \<le> unat sp + 4096" "unat sp mod 16 = 0"
    "\<forall>y < 2 ^ 39. \<not> (unat sp \<le> y \<and> y < T) \<longrightarrow> umem g' t y = umem g t y"
    using init_args_spec [OF o args] arg_page_mapped [OF T(2) u(2) m] T(2) u p by (auto simp: ProcessContext_new_def start_pctx_def T(1) [symmetric])
  have "umem g' t (unat (virtaddr ph) + k) = Some (file_byte bytes ph k)" if ph: "ph \<in> set (load_segs bytes)" "k < unat (memsize ph)" for ph k
  proof -
    have "unat (virtaddr ph) + k < image_end bytes" using ph(2) image_end_bounds(2) [OF ok ph(1)] by (simp add: seg_end_def)
    moreover have "image_end bytes + 0x16000 < T + 16" by (simp add: T(1) user_stack_top_def)
    ultimately show ?thesis using i(4,6) T(2) im ph by (simp add: image_loaded_def)
  qed
  then have "image_loaded bytes t g'" by (simp add: image_loaded_def)
  then show ?thesis using i(1,3,5) spaces_step [OF sp, of g' ps] i(2) by (intro exI [of _ g'] exI [of _ sp]) (simp add: same_space_def)
qed

lemma exec_spec:
  assumes ok: "executable s p bytes rs t ps" and args: "args_fit args" "list_all utf8_valid args"
  shows "\<exists>g ks ps' stk sp. let s' = s\<lparr>KERNEL_STACKS_ALLOCATED := ks, pg := g\<rparr> in
       exec bytes args p s = Inr (Inr (), p\<lparr>pctx := start_pctx bytes args sp stk t\<rparr>, s')
     \<and> parse_args (of_nat (length args)) sp (of_nat (user_stack_top (image_end bytes))) (umem g t) = Inr args \<and> unat sp mod 16 = 0 \<and> image_loaded bytes t g
     \<and> stacks_inv s' ps' \<and> get_stack_top (pid p) s' = Inr stk \<and> spaces g (kroot s # t # rs) ps' \<and> untouched rs (pg s) g
     \<and> frames_in g (kroot s # t # rs) ps' = frames_in (pg s) (kroot s # ttbr0 (pctx p) # rs) (t # ps)"
proof -
  let ?k = "kroot s"
  define T where "T = user_stack_top (image_end bytes)"
  obtain g1 g2 ps2 where l: "load_elf bytes (pg s) = Inr (Inr (e_entry (read_hdr bytes), of_nat T, t), g1)" "T < 2 ^ 39" "g2 = free_page_table (Some (ttbr0 (pctx p))) g1"
    and inv2: "stacks_inv (s\<lparr>pg := g2\<rparr>) ps2" and f: "spaces g2 (?k # t # rs) ps2" "untouched rs (pg s) g2"
    "frames_in g2 (?k # t # rs) ps2 = frames_in (pg s) (?k # ttbr0 (pctx p) # rs) (t # ps)" "18 \<le> length ps2"
    and m: "image_loaded bytes t g2" "\<forall>x < 2 ^ 39. x div 4096 \<in> stack_pages T \<longrightarrow> umem g2 t x \<noteq> None"
    using swap_space [OF ok] unfolding T_def image_loaded_def by blast
  let ?s2 = "s\<lparr>pg := g2\<rparr>"
  have h2: "spaces (pg ?s2) (kroot ?s2 # t # rs) ps2" "get_active_stack_index (pid p) ?s2 \<noteq> None" "Free \<in> set (KERNEL_STACKS_ALLOCATED ?s2)" "loadable bytes"
    using f(1) ok by (simp_all add: executable_def)
  obtain s3 ks g4 ps4 stk where n: "queue_stack_to_free (pid p) ?s2 = Inr s3" "alloc_stack (pid p) s3 = Inr (Inr stk, s\<lparr>KERNEL_STACKS_ALLOCATED := ks, pg := g4\<rparr>)"
    "stacks_inv (s\<lparr>KERNEL_STACKS_ALLOCATED := ks, pg := g4\<rparr>) ps4" "spaces g4 (?k # t # rs) ps4" "untouched (t # rs) g2 g4"
    "frames_in g4 (?k # t # rs) ps4 = frames_in g2 (?k # t # rs) ps2" "get_stack_top (pid p) (s\<lparr>KERNEL_STACKS_ALLOCATED := ks, pg := g4\<rparr>) = Inr stk"
    using new_stack [OF inv2 h2(1-3) f(4)] by auto
  let ?p = "p\<lparr>pctx := ProcessContext_new (e_entry (read_hdr bytes)) (of_nat T) stk t\<rparr>"
  have u4: "umem g4 t x = umem g2 t x" for x using untouched_umem [OF n(5)] by simp
  have sp4: "spaces g4 (t # ?k # rs) ps4" by (rule spaces_perm [OF n(4)]) simp
  have m4: "image_loaded bytes t g4" "\<forall>x < 2 ^ 39. x div 4096 \<in> stack_pages T \<longrightarrow> umem g4 t x \<noteq> None" using m by (simp_all add: u4 image_loaded_def)
  obtain g sp where i: "initialize_args args ?p g4 = (Inr (?p\<lparr>pctx := start_pctx bytes args sp stk t\<rparr>), g)" "spaces g (t # ?k # rs) ps4" "untouched (?k # rs) g4 g"
    "frames_in g (t # ?k # rs) ps4 = frames_in g4 (t # ?k # rs) ps4" "image_loaded bytes t g"
    "parse_args (of_nat (length args)) sp (of_nat T) (umem g t) = Inr args" "unat sp mod 16 = 0"
    using start_args [OF sp4 h2(4) args m4(1) _ T_def l(2) m4(2), of ?p stk] by auto
  have "exec bytes args p s = Inr (Inr (), p\<lparr>pctx := start_pctx bytes args sp stk t\<rparr>, s\<lparr>KERNEL_STACKS_ALLOCATED := ks, pg := g\<rparr>)"
    using l(1,3) n(1,2) i(1) by (simp add: exec_def at_pg_def)
  moreover have "stacks_inv (s\<lparr>KERNEL_STACKS_ALLOCATED := ks, pg := g4\<rparr>\<lparr>pg := g\<rparr>) ps4"
    by (rule stacks_inv_untouched [OF n(3)]) (use spaces_owned [OF i(2), of ?k] untouched_mono [OF i(3)] in simp_all)
  moreover have "spaces g (?k # t # rs) ps4" by (rule spaces_perm [OF i(2)]) simp
  moreover have "untouched rs (pg s) g"
    by (rule untouched_trans [OF f(2) untouched_trans [OF untouched_mono [OF n(5)] untouched_mono [OF i(3)]]]) auto
  moreover have "frames_in g (?k # t # rs) ps4 = frames_in g (t # ?k # rs) ps4" "frames_in g4 (t # ?k # rs) ps4 = frames_in g4 (?k # t # rs) ps4"
    by (rule frames_in_perm; simp)+
  moreover have "get_stack_top (pid p) (s\<lparr>KERNEL_STACKS_ALLOCATED := ks, pg := g\<rparr>) = Inr stk" using n(7) by (simp add: get_stack_top_def get_active_stack_index_def)
  ultimately show ?thesis
    using i(4-7) f(3) n(6) unfolding Let_def T_def by (intro exI [of _ g] exI [of _ ks] exI [of _ ps4] exI [of _ stk] exI [of _ sp]) simp
qed

section \<open>Properties\<close>

text \<open>C4. An \<^verbatim>\<open>exec\<close> of a known program with valid arguments, a well-formed image and the resources it needs succeeds. The process keeps its identity and place in the table and
  takes the program's name; it continues at the entry point of the image in a new address space that holds all segments of the file, on a 16-byte aligned stack from which the
  program reads exactly the arguments given, with a fresh kernel stack. The old address space is given back, no frame is lost or shared, and no other process
  sees a change.\<close>

theorem exec_correct:
  assumes "get_current_process s = Some p" "length (PROCESS_TABLE s) = MAX_PROCESSES" "executable s p bytes rs t ps"
    "x0 ctx \<noteq> 0" "x1 ctx \<noteq> 0" "x2 ctx \<noteq> 0" "x2 ctx \<le> 32" "exec_args (x0 ctx) (x1 ctx) [0..<unat (x2 ctx)] s = Inr (Some args)"
    "list_all utf8_valid args" "args_fit args" "read_file files (hd args) = Some bytes"
  shows "\<exists>ctx' p' s' ps'. sys_exec files ctx s = Inr (ctx', s') \<and> PROCESS_TABLE s' = (PROCESS_TABLE s)[CURRENT_PROCESS s := Some p'] \<and> get_current_process s' = Some p'
     \<and> pid p' = pid p \<and> parent_pid p' = parent_pid p \<and> state p' = state p \<and> name p' = name_bytes (hd args)
     \<and> ctx' = update_from_pctx (pctx p') ctx \<and> elr ctx' = e_entry (read_hdr bytes) \<and> ttbr0 ctx' = t
     \<and> parse_args (x0 ctx') (x1 ctx') (x2 ctx') (umem (pg s') t) = Inr args \<and> sp_el0 ctx' = x1 ctx' \<and> unat (sp_el0 ctx') mod 16 = 0
     \<and> image_loaded bytes t (pg s') \<and> stacks_inv s' ps' \<and> get_stack_top (pid p) s' = Inr (sp_el1 ctx')
     \<and> spaces (pg s') (kroot s' # t # rs) ps' \<and> untouched rs (pg s) (pg s')
     \<and> frames_in (pg s') (kroot s' # t # rs) ps' = frames_in (pg s) (kroot s # ttbr0 (pctx p) # rs) (t # ps)"
proof -
  obtain g ks ps' stk sp where e: "exec bytes args p s = Inr (Inr (), p\<lparr>pctx := start_pctx bytes args sp stk t\<rparr>, s\<lparr>KERNEL_STACKS_ALLOCATED := ks, pg := g\<rparr>)"
    "parse_args (of_nat (length args)) sp (of_nat (user_stack_top (image_end bytes))) (umem g t) = Inr args" "unat sp mod 16 = 0" "image_loaded bytes t g"
    "stacks_inv (s\<lparr>KERNEL_STACKS_ALLOCATED := ks, pg := g\<rparr>) ps'" "get_stack_top (pid p) (s\<lparr>KERNEL_STACKS_ALLOCATED := ks, pg := g\<rparr>) = Inr stk"
    "spaces g (kroot s # t # rs) ps'" "untouched rs (pg s) g" "frames_in g (kroot s # t # rs) ps' = frames_in (pg s) (kroot s # ttbr0 (pctx p) # rs) (t # ps)"
    using exec_spec [OF assms(3,10,9)] unfolding Let_def by (elim exE conjE) (rule that)
  have c: "CURRENT_PROCESS s < MAX_PROCESSES" "PROCESS_TABLE s ! CURRENT_PROCESS s = Some p"
    using assms(1) by (auto simp: get_current_process_def find_by_ptable_index_def split: if_splits)
  define c' where "c' = start_pctx bytes args sp stk t"
  define p' where "p' = p\<lparr>pctx := c', name := name_bytes (hd args)\<rparr>"
  define s' where "s' = s\<lparr>KERNEL_STACKS_ALLOCATED := ks, pg := g, PROCESS_TABLE := (PROCESS_TABLE s)[CURRENT_PROCESS s := Some p']\<rparr>"
  have "\<not> 32 < x2 ctx" using assms(7) by simp
  then have "sys_exec files ctx s = Inr (update_from_pctx c' ctx, s')"
    using assms(1,4-6,8,9,11) e(1) c(2) by (simp add: sys_exec_def Let_def update_slot_def s'_def p'_def c'_def)
  moreover have "get_current_process s' = Some p'"
    using c assms(2) by (simp add: s'_def get_current_process_def find_by_ptable_index_def)
  moreover have "stacks_inv s' ps'" using e(5) by (simp add: s'_def)
  moreover have "get_stack_top (pid p) s' = Inr stk" using e(6) by (simp add: s'_def get_stack_top_def get_active_stack_index_def)
  moreover have "regs c' ! 0 = of_nat (length args)" "regs c' ! 1 = sp" "regs c' ! 2 = of_nat (user_stack_top (image_end bytes))" by (simp_all add: c'_def start_pctx_def)
  ultimately show ?thesis
    using e(2-4,7-9) by (intro exI [of _ "update_from_pctx c' ctx"] exI [of _ p'] exI [of _ s'] exI [of _ ps']) (simp add: update_from_pctx_def p'_def s'_def c'_def start_pctx_def image_loaded_def)
qed

section \<open>A state in which \<^verbatim>\<open>exec\<close> succeeds\<close>

lemma frames_in_set: "set_mset (frames_in s rs ps) = (\<Union>r \<in> set rs. set (tree_frames (ram s) 1 r)) \<union> set ps"
  by (auto simp: frames_in_def)

lemma recycle_head:
  assumes "spaces s rs (q # ps)"
  shows "\<exists>s'. spaces s' rs (q # ps) \<and> blank (ram s') q \<and> untouched rs s s'"
proof -
  have p: "pool s (q # ps)" and q: "is_frame_pa q" "q \<notin> set ps" using assms by (auto simp: spaces_def pool_def)
  obtain s1 where s1: "pool s1 ps" "ram s1 = ram s" by (rule get_free_frame_pa_Cons [OF p])
  let ?s = "add_free_frame (ttbr1_to_va q) s1"
  have k: "keeps {q} (ram s) (ram ?s)" using keeps_add_free_frame [OF q(1), of s1] s1(2) by simp
  have u: "untouched rs s ?s" by (rule keeps_untouched [OF assms k]) (use assms in \<open>auto simp: spaces_def\<close>)
  have "spaces ?s rs (q # ps)"
    by (rule spaces_untouched [OF assms u add_free_frame_pool [OF s1(1) q]]) (use assms in \<open>auto simp: spaces_def\<close>)
  then show ?thesis using add_free_frame_blank(1) [OF s1(1) q] u by blast
qed

lemma write_outside:
  assumes "spaces s rs ps" "f \<notin> set_mset (frames_in s rs ps)" "keeps {f} (ram s) m"
  shows "spaces (s\<lparr>ram := m\<rparr>) rs ps" "untouched rs s (s\<lparr>ram := m\<rparr>)"
proof -
  have f: "{f} \<inter> set (concat (map (tree_frames (ram s) 1) rs)) = {}" "{f} \<inter> set ps = {}" using assms(2) by (auto simp: frames_in_set)
  show u: "untouched rs s (s\<lparr>ram := m\<rparr>)" using keeps_untouched [OF assms(1) _ f(1)] assms(3) by simp
  have "pool (s\<lparr>ram := m\<rparr>) ps" by (rule pool_keeps [of s ps "{f}"]) (use assms(1,3) f(2) in \<open>simp_all add: spaces_def\<close>)
  then show "spaces (s\<lparr>ram := m\<rparr>) rs ps" by (rule spaces_untouched [OF assms(1) u]) (use assms(1) in \<open>auto simp: spaces_def\<close>)
qed

lemma untouched_frames_in: "untouched rs s s' \<Longrightarrow> set_mset (frames_in s' rs ps) = set_mset (frames_in s rs ps)"
  by (simp add: untouched_in)

definition demo_strings :: "u8 list" where
  "demo_strings = [0x10, 0x10, 0, 0, 0x80, 0xff, 0xff, 0xff] @ [5, 0, 0, 0, 0, 0, 0, 0] @ lit ''clear''"

definition demo_exec_ctx :: ExceptionContext where
  "demo_exec_ctx = demo_ectx\<lparr>regs := [0xffffff8000001000, 0xffffff8000001008, 1] @ replicate 28 0\<rparr>"

lemma demo_exec_args:
  assumes "\<And>k. k < 21 \<Longrightarrow> ram (pg s) (0xffffff8000001000 + of_nat k) = demo_strings ! k"
  shows "exec_args 0xffffff8000001000 0xffffff8000001008 [0..<1] s = Inr (Some [lit ''clear''])"
proof -
  have k: "kload (0xffffff8000001000 + of_nat k) s = Inr (demo_strings ! k)" if "k < 21" for k
  proof -
    have "unat (0xffffff8000001000 + of_nat k :: u64) = 0xffffff8000001000 + k" using that by (simp add: unat_word_ariths unat_of_nat)
    then have "mmu (0xffffff8000001000 + of_nat k) s = Some (0xffffff8000001000 + of_nat k)"
      using that by (simp add: mmu_def word_less_nat_alt KERNEL_STACK_REGION_START_def)
    then show ?thesis using assms [OF that] by (simp add: kload_def)
  qed
  have b: "kload_bytes (0xffffff8000001000 + of_nat i) n s = Inr (take n (drop i demo_strings))" if "i + n \<le> 21" for i n
    using that
  proof (induction n arbitrary: i)
    case (Suc n)
    have "drop i demo_strings = demo_strings ! i # drop (Suc i) demo_strings" using Suc.prems by (intro Cons_nth_drop_Suc [symmetric]) (simp add: demo_strings_def lit_def)
    moreover have "kload_bytes (0xffffff8000001000 + of_nat i + 1) n s = Inr (take n (drop (Suc i) demo_strings))"
      using Suc.IH [of "Suc i"] Suc.prems by (simp add: ac_simps)
    ultimately show ?case using k [of i] Suc.prems by simp
  qed simp
  have "kload64 0xffffff8000001000 s = Inr 0xffffff8000001010" "kload64 0xffffff8000001008 s = Inr 5" "kload_bytes 0xffffff8000001010 5 s = Inr (lit ''clear'')"
    using b [of 0 8] b [of 8 8] b [of 16 5] by (simp_all add: kload64_def demo_strings_def lit_def)
  then show ?thesis by simp
qed

lemma demo_stacked:
  "\<exists>s ps. stacks_inv s ps \<and> spaces (pg s) [kroot s] ps \<and> 0x1000 \<notin> set_mset (frames_in (pg s) [kroot s] ps) \<and> 109 \<le> length ps
     \<and> get_active_stack_index 1 s \<noteq> None \<and> Free \<in> set (KERNEL_STACKS_ALLOCATED s)"
proof -
  obtain g0 ps0 where b: "spaces g0 [] ps0" "length ps0 = 128" "\<forall>p \<in> set ps0. blank (ram g0) p" "0x1000 \<notin> set ps0" using boot_frames by blast
  then obtain r ps where r: "ps0 = r # ps" by (cases ps0) auto
  obtain g1 where g1: "spaces g1 [r] ps" "ram g1 = ram g0" "tree_frames (ram g1) 1 r = [r]" "\<And>va. \<not> mapped va r g1"
    using spaces_blank [of g0 "[]" r ps] b r by auto
  have fr: "is_frame_pa r" using g1(1) by (auto simp: spaces_def)
  let ?s = "boot_state g1 (ttbr1_to_va r)"
  have kr: "kroot ?s = r" using fr by (simp add: boot_state_def)
  have inv: "stacks_inv ?s ps" using g1(1,4) fr frame_paD [OF fr] by (simp add: stacks_inv_def boot_state_def spaces_Cons ks.uniq_def)
  have n: "get_active_stack_index 1 ?s = None" "Free \<in> set (KERNEL_STACKS_ALLOCATED ?s)" "18 \<le> length ps"
    using b(2) r by (simp_all add: get_active_stack_index_def boot_state_def find_index_None)
  obtain i g ps' where a: "i < 50" "stacks_inv (?s\<lparr>KERNEL_STACKS_ALLOCATED := (KERNEL_STACKS_ALLOCATED ?s)[i := Allocated 1], pg := g\<rparr>) ps'"
    "all_frames g r ps' = all_frames g1 r ps" "length ps \<le> length ps' + 18" "keeps (set_mset (all_frames g1 r ps)) (ram g1) (ram g)"
    using alloc_stack_spec [OF inv n] unfolding kr by (auto simp: boot_state_def)
  let ?s' = "?s\<lparr>KERNEL_STACKS_ALLOCATED := (KERNEL_STACKS_ALLOCATED ?s)[i := Allocated 1], pg := g\<rparr>"
  have o: "owned g r ps'" using stacks_invD(2) [OF a(2)] fr by (simp add: boot_state_def)
  note st = spaces_step [OF g1(1) o a(3,5)]
  have "0x1000 \<notin> set_mset (frames_in g [r] ps')" unfolding st(3) using b(4) r g1(3) by (simp add: frames_in_set)
  moreover have "get_active_stack_index 1 ?s' \<noteq> None"
    using a(1) by (auto simp: get_active_stack_index_def boot_state_def find_index_None in_set_conv_nth intro!: exI [of _ i])
  moreover have "Free \<in> set (KERNEL_STACKS_ALLOCATED ?s')"
    using a(1) by (auto simp: boot_state_def in_set_conv_nth intro!: exI [of _ "if i = 0 then 1 else 0"])
  ultimately show ?thesis using a(2,4) st(1) b(2) r fr by (intro exI [of _ ?s'] exI [of _ ps']) (simp add: boot_state_def)
qed

lemma demo_executable:
  "\<exists>s t q ps. executable (fork_demo s t 0) ((lone_process Running 0)\<lparr>pctx := ProcessContext_new 0x400000 0x401000 0 t\<rparr>) demo_elf [] q ps
     \<and> exec_args 0xffffff8000001000 0xffffff8000001008 [0..<1] (fork_demo s t 0) = Inr (Some [lit ''clear''])"
proof -
  obtain s ps where s: "stacks_inv s ps" "spaces (pg s) [kroot s] ps" "0x1000 \<notin> set_mset (frames_in (pg s) [kroot s] ps)" "109 \<le> length ps"
    "get_active_stack_index 1 s \<noteq> None" "Free \<in> set (KERNEL_STACKS_ALLOCATED s)" using demo_stacked by (elim exE conjE) (rule that)
  obtain t q qs where t: "ps = t # q # qs" "107 \<le> length qs" using s(4) by (cases ps; cases "tl ps") auto
  obtain g1 where g1: "spaces (fill_zero t g1) [t, kroot s] (q # qs)" "untouched [kroot s] (pg s) (fill_zero t g1)" "tree_frames (ram (fill_zero t g1)) 1 t = [t]"
    using spaces_new [of "pg s" "[kroot s]" t "q # qs"] s(2) t by auto
  obtain g2 where g2: "spaces g2 [t, kroot s] (q # qs)" "blank (ram g2) q" "untouched [t, kroot s] (fill_zero t g1) g2" using recycle_head [OF g1(1)] by blast
  have u2: "untouched [kroot s] (pg s) g2" by (rule untouched_trans [OF g1(2) untouched_mono [OF g2(3)]]) simp
  have no: "0x1000 \<notin> set_mset (frames_in g2 [t, kroot s] (q # qs))"
    using s(3) t g1(3) g2(3) u2 by (auto simp: frames_in_set untouched_def)
  have fp: "is_frame_pa 0x1000" "is_frame_pa q" using g2(1) by (auto simp: is_frame_pa_def page_aligned_def ttbr1_to_pa_def spaces_def pool_def)
  have va: "ttbr1_to_va 0x1000 = 0xffffff8000001000" by (simp add: ttbr1_to_va_def)
  have ln: "0 + length demo_strings \<le> 4096" by (simp add: demo_strings_def lit_def)
  let ?m = "put_bytes (ram g2) (ttbr1_to_va 0x1000 + of_nat 0) demo_strings"
  note kp = keeps_put_bytes [OF fp(1) ln, where m = "ram g2"]
  note w = write_outside [OF g2(1) no kp(1)]
  let ?g = "g2\<lparr>ram := ?m\<rparr>"
  have bl: "blank (ram ?g) q"
    using blank_same_frame [OF fp(2), of "ram g2" ?m] g2(2) kp(1) fp(2) no by (simp add: keeps_def frames_in_set)
  have u: "untouched [kroot s] (pg s) ?g" by (rule untouched_trans [OF u2 untouched_mono [OF w(2)]]) simp
  have sp: "spaces ?g [kroot s, t] (q # qs)" by (rule spaces_perm [OF w(1)]) simp
  have inv: "stacks_inv (s\<lparr>pg := ?g\<rparr>) (q # qs)" by (rule stacks_inv_untouched [OF s(1) _ u]) (use sp in \<open>simp add: spaces_Cons\<close>)
  let ?s = "fork_demo (s\<lparr>pg := ?g\<rparr>) t 0"
  have "executable ?s ((lone_process Running 0)\<lparr>pctx := ProcessContext_new 0x400000 0x401000 0 t\<rparr>) demo_elf [] q qs"
    using inv sp bl t(2) s(5,6) demo_elf_loadable(3,4)
    by (simp add: executable_def fork_demo_def ProcessContext_new_def lone_process_def get_active_stack_index_def)
  moreover have "exec_args 0xffffff8000001000 0xffffff8000001008 [0..<1] ?s = Inr (Some [lit ''clear''])"
  proof (rule demo_exec_args)
    fix k :: nat assume "k < 21"
    then show "ram (pg ?s) (0xffffff8000001000 + of_nat k) = demo_strings ! k"
      using kp(2) [of k] by (simp add: va fork_demo_def) (simp add: demo_strings_def lit_def)
  qed
  ultimately show ?thesis by blast
qed

theorem exec_correct_witness:
  "\<exists>s ctx' p' s'. sys_exec (\<lambda>_. demo_elf) demo_exec_ctx s = Inr (ctx', s') \<and> get_current_process s' = Some p' \<and> elr ctx' = 0x400000
     \<and> parse_args (x0 ctx') (x1 ctx') (x2 ctx') (umem (pg s') (ttbr0 ctx')) = Inr [lit ''clear'']"
proof -
  obtain s t q ps where e: "executable (fork_demo s t 0) ((lone_process Running 0)\<lparr>pctx := ProcessContext_new 0x400000 0x401000 0 t\<rparr>) demo_elf [] q ps"
    "exec_args 0xffffff8000001000 0xffffff8000001008 [0..<1] (fork_demo s t 0) = Inr (Some [lit ''clear''])" using demo_executable by blast
  have x: "x0 demo_exec_ctx = 0xffffff8000001000" "x1 demo_exec_ctx = 0xffffff8000001008" "x2 demo_exec_ctx = 1" by (simp_all add: demo_exec_ctx_def)
  have u: "list_all utf8_valid [lit ''clear'']" "args_fit [lit ''clear'']" by (simp_all add: lit_def args_fit_def)
  have rf: "read_file (\<lambda>_. demo_elf) (hd [lit ''clear'']) = Some demo_elf" by (simp add: read_file_def lit_def)
  have len: "length (PROCESS_TABLE (fork_demo s t 0)) = MAX_PROCESSES" by (simp add: fork_demo_def MAX_PROCESSES_def)
  have "\<exists>ctx' p' s'. sys_exec (\<lambda>_. demo_elf) demo_exec_ctx (fork_demo s t 0) = Inr (ctx', s') \<and> get_current_process s' = Some p' \<and> elr ctx' = e_entry (read_hdr demo_elf)
     \<and> ttbr0 ctx' = q \<and> parse_args (x0 ctx') (x1 ctx') (x2 ctx') (umem (pg s') q) = Inr [lit ''clear'']"
    using exec_correct [OF fork_demo_current len e(1), of demo_exec_ctx "[lit ''clear'']" "\<lambda>_. demo_elf", unfolded x, OF _ _ _ _ _ u rf] e(2) by (simp add: x) metis
  then show ?thesis unfolding demo_elf_hdr by blast
qed

end
