(* ===== verification/Spawn.thy ===== *)
theory Spawn
  imports Exec
begin

text \<open>
  \<^verbatim>\<open>spawn_from_elf\<close> and \<^verbatim>\<open>run_executable\<close> end to end: the first process of a program, from the file to a Ready entry of the process table.
\<close>

definition spawnable :: "kstate \<Rightarrow> u8 list \<Rightarrow> u64 list \<Rightarrow> u64 \<Rightarrow> u64 list \<Rightarrow> bool" where
  "spawnable s bytes rs t ps \<longleftrightarrow> stacks_inv s (t # ps) \<and> spaces (pg s) (kroot s # rs) (t # ps) \<and> blank (ram (pg s)) t
     \<and> loadable bytes \<and> 3 * (image_pages bytes + 14) + 18 \<le> length ps
     \<and> get_active_stack_index (NEXT_PID s) s = None \<and> Free \<in> set (KERNEL_STACKS_ALLOCATED s) \<and> None \<in> set (PROCESS_TABLE s)"

definition started :: "u8 list \<Rightarrow> u64 \<Rightarrow> u8 list \<Rightarrow> u8 list list \<Rightarrow> u64 \<Rightarrow> u64 \<Rightarrow> u64 \<Rightarrow> u64 \<Rightarrow> Process" where
  "started nm parent bytes args p sp stk t = \<lparr>pid = p, name = name_bytes nm, state = Ready, block_reason = None, parent_pid = parent,
     pctx = start_pctx bytes args sp stk t, chan = 0, exit_code = 0\<rparr>"

lemma spawn_spec:
  assumes ok: "spawnable s bytes rs t ps" and args: "args_fit args" "list_all utf8_valid args"
  shows "\<exists>g ks ps' stk sp i. let p = started nm parent bytes args (NEXT_PID s) sp stk t;
         s' = s\<lparr>NEXT_PID := NEXT_PID s + 1, KERNEL_STACKS_ALLOCATED := ks, pg := g, PROCESS_TABLE := (PROCESS_TABLE s)[i := Some p]\<rparr> in
       pt.first_vacant (PROCESS_TABLE s) = Some i \<and> spawn_from_elf nm parent bytes args s = Inr (Inr (NEXT_PID s), s')
     \<and> parse_args (of_nat (length args)) sp (of_nat (user_stack_top (image_end bytes))) (umem g t) = Inr args \<and> unat sp mod 16 = 0 \<and> image_loaded bytes t g
     \<and> stacks_inv s' ps' \<and> get_stack_top (NEXT_PID s) s' = Inr stk \<and> spaces g (kroot s # t # rs) ps' \<and> untouched rs (pg s) g
     \<and> frames_in g (kroot s # t # rs) ps' = frames_in (pg s) (kroot s # rs) (t # ps)"
proof -
  let ?k = "kroot s" and ?p = "NEXT_PID s"
  define T where "T = user_stack_top (image_end bytes)"
  have h: "stacks_inv s (t # ps)" "spaces (pg s) (?k # rs) (t # ps)" "blank (ram (pg s)) t" "loadable bytes" "3 * (image_pages bytes + 14) + 18 \<le> length ps"
    "get_active_stack_index ?p s = None" "Free \<in> set (KERNEL_STACKS_ALLOCATED s)" "None \<in> set (PROCESS_TABLE s)"
    using ok by (simp_all add: spawnable_def)
  have len: "3 * (image_pages bytes + 14) \<le> length ps" using h(5) by simp
  obtain g1 ps1 where l: "load_elf bytes (pg s) = Inr (Inr (e_entry (read_hdr bytes), of_nat T, t), g1)" "T < 2 ^ 39" "spaces g1 (t # ?k # rs) ps1"
    "untouched (?k # rs) (pg s) g1" "frames_in g1 (t # ?k # rs) ps1 = frames_in (pg s) (?k # rs) (t # ps)" "length ps \<le> length ps1 + 3 * (image_pages bytes + 14)"
    "image_loaded bytes t g1"
    "\<forall>x < 2 ^ 39. umem g1 t x \<noteq> None \<longleftrightarrow> x div 4096 \<in> stack_pages T \<or> (\<exists>ph \<in> set (load_segs bytes). x div 4096 \<in> seg_pages ph)"
    using load_elf_spec [OF h(2,3,4) len] unfolding T_def image_loaded_def by blast
  let ?s1 = "s\<lparr>pg := g1, NEXT_PID := ?p + 1\<rparr>"
  have sp1: "spaces g1 (?k # t # rs) ps1" by (rule spaces_perm [OF l(3)]) simp
  have "stacks_inv (s\<lparr>pg := g1\<rparr>) ps1"
    by (rule stacks_inv_untouched [OF h(1) _ untouched_mono [OF l(4)]]) (use sp1 in \<open>auto simp: spaces_Cons\<close>)
  then have inv1: "stacks_inv ?s1 ps1" by (simp add: stacks_inv_def)
  have a1: "spaces (pg ?s1) (kroot ?s1 # t # rs) ps1" "get_active_stack_index ?p ?s1 = None" "Free \<in> set (KERNEL_STACKS_ALLOCATED ?s1)" "18 \<le> length ps1"
    using sp1 h(5-7) l(6) by (simp_all add: get_active_stack_index_def)
  obtain ks g2 ps2 stk where a: "alloc_stack ?p ?s1 = Inr (Inr stk, s\<lparr>NEXT_PID := ?p + 1, KERNEL_STACKS_ALLOCATED := ks, pg := g2\<rparr>)"
    "stacks_inv (s\<lparr>NEXT_PID := ?p + 1, KERNEL_STACKS_ALLOCATED := ks, pg := g2\<rparr>) ps2" "spaces g2 (?k # t # rs) ps2" "untouched (t # rs) g1 g2"
    "frames_in g2 (?k # t # rs) ps2 = frames_in g1 (?k # t # rs) ps1" "get_stack_top ?p (s\<lparr>NEXT_PID := ?p + 1, KERNEL_STACKS_ALLOCATED := ks, pg := g2\<rparr>) = Inr stk"
    using fresh_stack [OF inv1 a1] by auto
  let ?q = "\<lparr>pid = ?p, name = name_bytes nm, state = Ready, block_reason = None, parent_pid = parent,
     pctx = ProcessContext_new (e_entry (read_hdr bytes)) (of_nat T) stk t, chan = 0, exit_code = 0\<rparr>"
  have u2: "umem g2 t x = umem g1 t x" for x using untouched_umem [OF a(4)] by simp
  have sp2: "spaces g2 (t # ?k # rs) ps2" by (rule spaces_perm [OF a(3)]) simp
  have m2: "image_loaded bytes t g2" "\<forall>x < 2 ^ 39. x div 4096 \<in> stack_pages T \<longrightarrow> umem g2 t x \<noteq> None"
    using l(7,8) by (simp_all add: u2 image_loaded_def)
  obtain g sp where i: "initialize_args args ?q g2 = (Inr (started nm parent bytes args ?p sp stk t), g)" "spaces g (t # ?k # rs) ps2" "untouched (?k # rs) g2 g"
    "frames_in g (t # ?k # rs) ps2 = frames_in g2 (t # ?k # rs) ps2" "image_loaded bytes t g"
    "parse_args (of_nat (length args)) sp (of_nat T) (umem g t) = Inr args" "unat sp mod 16 = 0"
    using start_args [OF sp2 h(4) args m2(1) _ T_def l(2) m2(2), of ?q stk] by (auto simp: started_def)
  obtain v where v: "pt.first_vacant (PROCESS_TABLE s) = Some v" using h(8) pt.first_vacant_None [of "PROCESS_TABLE s"] by auto
  let ?s' = "s\<lparr>NEXT_PID := ?p + 1, KERNEL_STACKS_ALLOCATED := ks, pg := g, PROCESS_TABLE := (PROCESS_TABLE s)[v := Some (started nm parent bytes args ?p sp stk t)]\<rparr>"
  have "spawn_from_elf nm parent bytes args s = Inr (Inr ?p, ?s')"
    using l(1) a(1) i(1) v by (simp add: spawn_from_elf_def at_pg_def Process_new_def next_pid_def add_process_to_ptable_def ptable_scans started_def)
  moreover have "stacks_inv (s\<lparr>NEXT_PID := ?p + 1, KERNEL_STACKS_ALLOCATED := ks, pg := g2\<rparr>\<lparr>pg := g\<rparr>) ps2"
    by (rule stacks_inv_untouched [OF a(2)]) (use spaces_owned [OF i(2), of ?k] untouched_mono [OF i(3)] in simp_all)
  then have "stacks_inv ?s' ps2" by (simp add: stacks_inv_def)
  moreover have "spaces g (?k # t # rs) ps2" by (rule spaces_perm [OF i(2)]) simp
  moreover have "untouched rs (pg s) g"
    by (rule untouched_trans [OF untouched_mono [OF l(4)] untouched_trans [OF untouched_mono [OF a(4)] untouched_mono [OF i(3)]]]) auto
  moreover have "frames_in g (?k # t # rs) ps2 = frames_in g (t # ?k # rs) ps2" "frames_in g2 (t # ?k # rs) ps2 = frames_in g2 (?k # t # rs) ps2"
    "frames_in g1 (?k # t # rs) ps1 = frames_in g1 (t # ?k # rs) ps1" by (rule frames_in_perm; simp)+
  moreover have "get_stack_top ?p ?s' = Inr stk" using a(6) by (simp add: get_stack_top_def get_active_stack_index_def)
  ultimately show ?thesis
    using i(4-7) a(5) l(5) v unfolding Let_def T_def
    by (intro exI [of _ g] exI [of _ ks] exI [of _ ps2] exI [of _ stk] exI [of _ sp] exI [of _ v]) simp
qed

end
