(* ===== verification/KernelTables.thy ===== *)
theory KernelTables
  imports KernelMap Spawn
begin

text \<open>
  The kernel's translation tables as they lie in memory when the Rust code starts: the level 1 table at \<open>r\<close> with its first two entries linked by \<^verbatim>\<open>entry.S\<close> to the tables
  of 2 MB blocks at \<open>a\<close> and \<open>b\<close>. Block descriptors are not entries in the sense of \<open>is_valid\<close>, so the paging code sees a tree of three frames, and the
  invariants of the address spaces and of the kernel stacks hold once the frame allocator is initialised.
\<close>

definition kernel_tables :: "ram \<Rightarrow> u64 \<Rightarrow> u64 \<Rightarrow> u64 \<Rightarrow> bool" where
  "kernel_tables m r a b \<longleftrightarrow> is_frame_pa r \<and> is_frame_pa a \<and> is_frame_pa b \<and> distinct [r, a, b]
     \<and> entry m r 0 = a OR 0b11 \<and> entry m r 1 = b OR 0b11 \<and> (\<forall>i < 512. 2 \<le> i \<longrightarrow> entry m r i = 0)
     \<and> (\<forall>i < 512. entry m a i = kernel_l2_0 ! i \<and> entry m b i = kernel_l2_1 ! i)"

lemma kernel_tablesD:
  assumes "kernel_tables m r a b"
  shows "is_frame_pa r" "is_frame_pa a" "is_frame_pa b" "distinct [r, a, b]" "entry m r 0 = a OR 0b11" "entry m r 1 = b OR 0b11"
    "\<And>i. i < 512 \<Longrightarrow> 2 \<le> i \<Longrightarrow> entry m r i = 0" "\<And>i. i < 512 \<Longrightarrow> entry m a i = kernel_l2_0 ! i" "\<And>i. i < 512 \<Longrightarrow> entry m b i = kernel_l2_1 ! i"
  using assms by (simp_all add: kernel_tables_def)

lemma block_not_valid: "\<not> is_valid (block_entry pa)"
  by (simp add: is_valid_bits block_bits)

lemma kernel_tree:
  assumes k: "kernel_tables m r a b"
  shows "tree_frames m 1 r = [r, a, b]"
proof -
  note t = kernel_tablesD [OF k]
  have l2: "tree_frames m 2 a = [a]" "tree_frames m 2 b = [b]"
    using t(8,9) by (auto intro!: tree_empty_table simp: l2_nth block_not_valid)
  have v: "is_valid (a OR 3)" "is_valid (b OR 3)" "entry_pa (a OR 3) = a" "entry_pa (b OR 3) = b"
    using t(2,3) by (auto intro: is_valid_or simp: entry_pa_or)
  have k01: "kids m 1 r 0 = [a]" "kids m 1 r 1 = [b]"
    using t(5,6) v l2 by (simp_all add: kids_def numeral_2_eq_2)
  have rest: "concat (map (kids m 1 r) [2..<512]) = []" using t(7) by (auto simp: kids_def)
  have "[0..<512] = [0..<2] @ [2..<512]" using upt_add_eq_append [of 0 2 510] by (simp del: upt_rec_numeral)
  moreover have "[0..<2] = [0 :: nat, 1]" by (simp add: upt_rec)
  ultimately have "concat (map (kids m 1 r) [0..<512]) = [a, b]" using k01 rest by (simp del: upt_rec_numeral)
  then show ?thesis by (simp add: tree_frames_table del: upt_rec_numeral)
qed

lemma stack_l1: "i < 50 \<Longrightarrow> j < 7 \<Longrightarrow> l1_i (stack_page i j) = 2"
proof -
  assume ij: "i < 50" "j < 7"
  have "unat (stack_page i j) = 0xFFFFFF8080000000 + 4096 * (7 * i + j)" using unat_stack_page [OF ij(1), of j] ij(2) by simp
  moreover have "(0xFFFFFF8080000000 + 4096 * (7 * i + j)) div 2 ^ 30 = (0x3FFFFFE02 :: nat)" using ij by (simp add: div_nat_eqI)
  ultimately show ?thesis unfolding indices by simp
qed

lemma stacks_unmapped:
  assumes "kernel_tables (ram g) r a b" "i < 50" "j < 7"
  shows "\<not> mapped (stack_page i j) r g"
  using kernel_tablesD(7) [OF assms(1), of 2] stack_l1 [OF assms(2,3)] by (simp add: ttbr0_to_pa_def translation_table_def)

lemma kernel_tables_keeps:
  assumes k: "kernel_tables m r a b" and "keeps F m m'" "F \<inter> {r, a, b} = {}"
  shows "kernel_tables m' r a b"
proof -
  have "entry m' f i = entry m f i" if "f \<in> {r, a, b}" "i < 512" for f i
    using that assms(2,3) kernel_tablesD(1-3) [OF k] by (intro keeps_entry [OF assms(2)]) auto
  then show ?thesis using k by (simp add: kernel_tables_def)
qed

section \<open>After the frame allocator is initialised\<close>

lemma keeps_add_frames:
  "(\<And>q. q \<in> set qs \<Longrightarrow> is_frame_va q) \<Longrightarrow> keeps (ttbr1_to_pa ` set qs) (ram s) (ram (fold add_free_frame qs s))"
proof (induction qs arbitrary: s)
  case (Cons q qs)
  have q: "is_frame_pa (ttbr1_to_pa q)" "ttbr1_to_va (ttbr1_to_pa q) = q" using Cons.prems [of q] by (simp_all add: is_frame_va_def)
  show ?case
    using keeps_trans [OF keeps_add_free_frame [OF q(1), of s] Cons.IH [of "add_free_frame (ttbr1_to_va (ttbr1_to_pa q)) s"]] Cons.prems q(2) by simp
qed simp

lemma keeps_init_frames:
  assumes "page_aligned x" "0xffffff8000000000 \<le> x" "x \<le> y"
  shows "keeps (set (map ttbr1_to_pa (step_by_page x y))) (ram s) (ram (init_frames x y s))"
  using keeps_add_frames [of "step_by_page x y" s] step_by_page_frames(2) [OF assms] by (simp add: init_frames_def Let_def)

lemma tables_below:
  assumes "page_aligned x" "0xffffff8000000000 \<le> x" "x \<le> y" "is_frame_pa q" "ttbr1_to_va q < x"
  shows "q \<notin> set (map ttbr1_to_pa (step_by_page x y))"
proof
  assume "q \<in> set (map ttbr1_to_pa (step_by_page x y))"
  then obtain f where f: "f \<in> set (step_by_page x y)" "q = ttbr1_to_pa f" by auto
  then have "ttbr1_to_va q = f" "x \<le> f" using step_by_page_frames(2) [OF assms(1-3) f(1)] by simp_all
  then show False using assms(5) by simp
qed

lemma boot_spaces:
  assumes k: "kernel_tables (ram g) r a b" and e: "FREE_FRAME_LIST g = None" "FREE_FRAME_COUNT g = 0"
    and x: "page_aligned x" "0xffffff8000000000 \<le> x" "x \<le> y" and below: "ttbr1_to_va r < x" "ttbr1_to_va a < x" "ttbr1_to_va b < x"
  defines "ps \<equiv> rev (map ttbr1_to_pa (step_by_page x y))"
  shows "spaces (init_frames x y g) [r] ps" "kernel_tables (ram (init_frames x y g)) r a b" "\<forall>p \<in> set ps. blank (ram (init_frames x y g)) p"
    "length ps = (unat y - unat x + 4095) div 4096"
proof -
  have n: "r \<notin> set ps" "a \<notin> set ps" "b \<notin> set ps"
    using tables_below [OF x _ below(1)] tables_below [OF x _ below(2)] tables_below [OF x _ below(3)] kernel_tablesD(1-3) [OF k] by (simp_all add: ps_def)
  show kt: "kernel_tables (ram (init_frames x y g)) r a b"
    by (rule kernel_tables_keeps [OF k keeps_init_frames [OF x]]) (use n in \<open>auto simp: ps_def\<close>)
  have "pool (init_frames x y g) ps" unfolding ps_def by (rule init_frames_pool [OF x e])
  then show "spaces (init_frames x y g) [r] ps"
    using kernel_tree [OF kt] kernel_tablesD(1-4) [OF k] n by (auto simp: spaces_def pool_def)
  show "\<forall>p \<in> set ps. blank (ram (init_frames x y g)) p" using init_frames_blank [OF x e] by (simp add: ps_def)
  show "length ps = (unat y - unat x + 4095) div 4096" by (simp add: ps_def step_by_page_def)
qed

lemma boot_stacks:
  assumes "kernel_tables (ram (pg s)) r a b" "spaces (pg s) [r] ps" "PAGE_TABLE_KERNEL_L1 s = ttbr1_to_va r" "KERNEL_STACKS_ALLOCATED s = replicate 50 Free"
  shows "stacks_inv s ps"
  using assms stacks_unmapped [OF assms(1)] kernel_tablesD(1) [OF assms(1)] frame_paD
  by (auto simp: stacks_inv_def spaces_Cons ks.uniq_def)

end
