(* ===== verification/ExitWait.thy ===== *)
theory ExitWait
  imports Exceptions Console
begin

text \<open>
  How a process ends: \<^verbatim>\<open>sys_exit\<close> and \<^verbatim>\<open>sys_wait\<close> meet in either order, and the parent learns the child's process id and exit code exactly once.
\<close>

section \<open>The table lock\<close>

lemma ptable_lock:
  assumes "kcpu (cpu s)" "PROCESS_TABLE_LOCK s = Spinlock_new"
  shows "ptable_acquire s = Inr (s\<lparr>cpu := push_off (cpu s), PROCESS_TABLE_LOCK := taken (cpu s)\<rparr>)"
    and "ptable_release (s\<lparr>cpu := push_off (cpu s), PROCESS_TABLE_LOCK := taken (cpu s),
          KERNEL_STACKS_ALLOCATED := k, pg := g, PROCESS_TABLE := t\<rparr>) = Inr (s\<lparr>KERNEL_STACKS_ALLOCATED := k, pg := g, PROCESS_TABLE := t\<rparr>)"
proof -
  show "ptable_acquire s = Inr (s\<lparr>cpu := push_off (cpu s), PROCESS_TABLE_LOCK := taken (cpu s)\<rparr>)"
    using assms by (simp add: ptable_acquire_def spin_free)
  show "ptable_release (s\<lparr>cpu := push_off (cpu s), PROCESS_TABLE_LOCK := taken (cpu s),
          KERNEL_STACKS_ALLOCATED := k, pg := g, PROCESS_TABLE := t\<rparr>) = Inr (s\<lparr>KERNEL_STACKS_ALLOCATED := k, pg := g, PROCESS_TABLE := t\<rparr>)"
    using assms spin_free(2) [OF assms(1)] by (simp add: ptable_release_def)
qed

section \<open>Termination of a process\<close>

definition adopt :: "u64 \<Rightarrow> Process \<Rightarrow> Process" where
  "adopt p q = (if parent_pid q = p then q\<lparr>parent_pid := 1\<rparr> else q)"

lemma pid_adopt [simp]: "pid (adopt p q) = pid q"
  by (simp add: adopt_def)

definition exit_table :: "nat \<Rightarrow> u64 \<Rightarrow> u64 \<Rightarrow> Process option list \<Rightarrow> Process option list" where
  "exit_table i p code t = map (map_option (adopt p)) (t[i := map_option (\<lambda>q. q\<lparr>exit_code := code, state := Terminated\<rparr>) (t ! i)])"

lemma terminate_spec:
  assumes "get_active_stack_index (pid self) s = Some k"
  shows "terminate i self code s = Inr (s\<lparr>KERNEL_STACKS_ALLOCATED := (KERNEL_STACKS_ALLOCATED s)[k := QueuedToFree (pid self)],
     pg := free_page_table (Some (ttbr0 (pctx self))) (pg s), PROCESS_TABLE := exit_table i (pid self) code (PROCESS_TABLE s)\<rparr>)"
proof -
  have "get_active_stack_index (pid self) (update_slot i f s) = Some k" for f
    using assms by (simp add: get_active_stack_index_def update_slot_def)
  then have "unwrap (queue_stack_to_free (pid self) (update_slot i f s))
      = Inr ((update_slot i f s)\<lparr>KERNEL_STACKS_ALLOCATED := (KERNEL_STACKS_ALLOCATED s)[k := QueuedToFree (pid self)]\<rparr>)" for f
    by (simp add: queue_stack_to_free_def unwrap_def update_slot_def)
  then show ?thesis
    by (cases "i < length (PROCESS_TABLE s)")
      (simp_all add: terminate_def exit_table_def update_slot_def reparent_children_to_def Let_def option.map_comp comp_def set_state_def
        adopt_def [abs_def] list_update_beyond)
qed

lemma exit_table_nth:
  "j < length t \<Longrightarrow> exit_table i p code t ! j =
     map_option (adopt p) (if j = i then map_option (\<lambda>q. q\<lparr>exit_code := code, state := Terminated\<rparr>) (t ! i) else t ! j)"
  by (simp add: exit_table_def nth_list_update)

lemma length_exit_table [simp]: "length (exit_table i p code t) = length t"
  by (simp add: exit_table_def)

lemma exit_table_keys: "map (map_option pid) (exit_table i p code t) = map (map_option pid) t"
proof (rule nth_equalityI)
  fix j assume "j < length (map (map_option pid) (exit_table i p code t))"
  then show "map (map_option pid) (exit_table i p code t) ! j = map (map_option pid) t ! j"
    by (cases "t ! j"; cases "j = i") (simp_all add: exit_table_nth)
qed simp

lemma lookup_keys: "pt.lookup p t = find_index (\<lambda>k. k = Some p) (map (map_option pid) t)"
  unfolding pt.lookup_def by (induction t) auto

lemma uniq_keys: "pt.uniq t \<longleftrightarrow> (\<forall>i < length t. \<forall>j < length t. \<forall>k. map (map_option pid) t ! i = Some k \<and> map (map_option pid) t ! j = Some k \<longrightarrow> i = j)"
  unfolding pt.uniq_def by (auto simp: nth_map)

lemma lookup_exit_table: "pt.lookup q (exit_table i p code t) = pt.lookup q t"
  by (simp add: lookup_keys exit_table_keys)

lemma uniq_exit_table: "pt.uniq (exit_table i p code t) = pt.uniq t"
  unfolding uniq_keys exit_table_keys by simp

section \<open>Exiting\<close>

text \<open>The state of a process that calls \<^verbatim>\<open>exit\<close>: it is in the current slot, has a kernel stack, and no lock is held.\<close>

definition exiting :: "nat \<Rightarrow> Process \<Rightarrow> nat \<Rightarrow> kstate \<Rightarrow> bool" where
  "exiting i c k s \<longleftrightarrow> kcpu (cpu s) \<and> PROCESS_TABLE_LOCK s = Spinlock_new \<and> length (PROCESS_TABLE s) = 50 \<and> pt.uniq (PROCESS_TABLE s)
     \<and> CURRENT_PROCESS s = i \<and> i < 50 \<and> PROCESS_TABLE s ! i = Some c \<and> get_active_stack_index (pid c) s = Some k \<and> parent_pid c \<noteq> pid c"

definition exited :: "nat \<Rightarrow> Process \<Rightarrow> nat \<Rightarrow> u64 \<Rightarrow> kstate \<Rightarrow> kstate" where
  "exited i c k code s = s\<lparr>KERNEL_STACKS_ALLOCATED := (KERNEL_STACKS_ALLOCATED s)[k := QueuedToFree (pid c)],
     pg := free_page_table (Some (ttbr0 (pctx c))) (pg s), PROCESS_TABLE := exit_table i (pid c) code (PROCESS_TABLE s)\<rparr>"

definition hand_over :: "u64 \<Rightarrow> u64 \<Rightarrow> Process \<Rightarrow> Process" where
  "hand_over p code q = (set_state Ready q)\<lparr>pctx := (pctx q)\<lparr>regs := (regs (pctx q))[0 := p, 1 := code]\<rparr>\<rparr>"

lemma exit_current:
  assumes "exiting i c k s"
  shows "get_current_process s = Some c"
    "PROCESS_TABLE (exited i c k code s) ! i = Some (c\<lparr>exit_code := code, state := Terminated\<rparr>)"
    "pt.lookup p (PROCESS_TABLE (exited i c k code s)) = pt.lookup p (PROCESS_TABLE s)"
  using assms by (simp_all add: exiting_def get_current_process_def find_by_ptable_index_def MAX_PROCESSES_def exited_def exit_table_nth adopt_def lookup_exit_table)

abbreviation locked_table :: "kstate \<Rightarrow> kstate \<Rightarrow> kstate" where
  "locked_table s t \<equiv> t\<lparr>cpu := push_off (cpu s), PROCESS_TABLE_LOCK := taken (cpu s)\<rparr>"

text \<open>After the parent has been given the result, the entry of the process is still where it was, and is removed.\<close>

lemma exit_entry_found:
  assumes e: "exiting i c k s" and j: "pt.lookup (parent_pid c) (PROCESS_TABLE s) = Some j" "exit_table i (pid c) x (PROCESS_TABLE s) ! j = Some q"
  shows "pt.lookup (pid c) ((exit_table i (pid c) x (PROCESS_TABLE s))[j := Some (hand_over (pid c) x q)]) = Some i"
proof -
  let ?T = "exit_table i (pid c) x (PROCESS_TABLE s)"
  have s: "length (PROCESS_TABLE s) = 50" "pt.uniq (PROCESS_TABLE s)" "i < 50" "PROCESS_TABLE s ! i = Some c" using e by (auto simp: exiting_def)
  have "j < 50" using pt.lookup_SomeD [OF j(1)] s(1) by auto
  then have "map (map_option pid) (?T[j := Some (hand_over (pid c) x q)]) = map (map_option pid) ?T"
    using j(2) s(1) by (simp add: map_update hand_over_def set_state_def list_update_same_conv)
  then have "pt.lookup (pid c) (?T[j := Some (hand_over (pid c) x q)]) = pt.lookup (pid c) (PROCESS_TABLE s)"
    unfolding lookup_keys by (simp add: exit_table_keys)
  also have "\<dots> = Some i" using s by (simp add: pt.lookup_Some)
  finally show ?thesis .
qed

lemma sys_exit_unfold:
  assumes e: "exiting i c k s"
  shows "sys_exit ctx s =
     (case pt.lookup (parent_pid c) (PROCESS_TABLE s) of
        Some j \<Rightarrow>
          (case PROCESS_TABLE (exited i c k (x0 ctx) s) ! j of
             Some q \<Rightarrow>
               if state q = Blocked \<and> block_reason q = Some WaitingForChild \<and> (regs (pctx q) ! 0 = 0 \<or> pid c = regs (pctx q) ! 0)
               then kbind (schedule_next ctx ((exited i c k (x0 ctx) s)\<lparr>PROCESS_TABLE := (PROCESS_TABLE (exited i c k (x0 ctx) s))[j := Some (hand_over (pid c) (x0 ctx) q), i := None]\<rparr>))
                      (\<lambda>(ctx, s). Inr (Inr (), ctx, s))
               else kbind (schedule_next ctx (exited i c k (x0 ctx) s)) (\<lambda>(ctx, s). Inr (Inr (), ctx, s))
           | None \<Rightarrow> kbind (schedule_next ctx (exited i c k (x0 ctx) s)) (\<lambda>(ctx, s). Inr (Inr (), ctx, s)))
      | None \<Rightarrow> if parent_pid c \<noteq> 0 then Inl (Panic ''[SYS_EXIT] Parent process pid '')
          else kbind (schedule_next ctx (exited i c k (x0 ctx) s)) (\<lambda>(ctx, s). Inr (Inr (), ctx, s)))"
proof -
  let ?sl = "s\<lparr>cpu := push_off (cpu s), PROCESS_TABLE_LOCK := taken (cpu s)\<rparr>" and ?T = "exit_table i (pid c) (x0 ctx) (PROCESS_TABLE s)"
  let ?K = "(KERNEL_STACKS_ALLOCATED s)[k := QueuedToFree (pid c)]" and ?g = "free_page_table (Some (ttbr0 (pctx c))) (pg s)"
  let ?tl = "?sl\<lparr>KERNEL_STACKS_ALLOCATED := ?K, pg := ?g, PROCESS_TABLE := ?T\<rparr>"
  have x: "kcpu (cpu s)" "PROCESS_TABLE_LOCK s = Spinlock_new" "length (PROCESS_TABLE s) = 50" "pt.uniq (PROCESS_TABLE s)" "CURRENT_PROCESS s = i" "i < 50"
    "PROCESS_TABLE s ! i = Some c" "get_active_stack_index (pid c) s = Some k" "parent_pid c \<noteq> pid c" using e by (auto simp: exiting_def)
  have "get_active_stack_index (pid c) ?sl = Some k" using x(8) by (simp add: get_active_stack_index_def)
  from terminate_spec [OF this, of i "x0 ctx"] have t: "terminate i c (x0 ctx) ?sl = Inr ?tl" by simp
  have cur: "get_current_process ?tl = Some (c\<lparr>exit_code := x0 ctx, state := Terminated\<rparr>)"
    using x by (simp add: get_current_process_def find_by_ptable_index_def MAX_PROCESSES_def exit_table_nth adopt_def)
  have sl: "slot_of p ?tl = pt.lookup p (PROCESS_TABLE s)" for p by (simp add: ptable_scans lookup_exit_table)
  have rel: "ptable_release (?sl\<lparr>KERNEL_STACKS_ALLOCATED := ?K, pg := ?g, PROCESS_TABLE := u\<rparr>) = Inr (s\<lparr>KERNEL_STACKS_ALLOCATED := ?K, pg := ?g, PROCESS_TABLE := u\<rparr>)" for u
    using ptable_lock(2) [OF x(1,2)] by simp
  have ex: "s\<lparr>KERNEL_STACKS_ALLOCATED := ?K, pg := ?g, PROCESS_TABLE := ?T\<rparr> = exited i c k (x0 ctx) s" by (simp add: exited_def)
  let ?fin = "\<lambda>s. kbind (schedule_next ctx s) (\<lambda>(ctx, s). Inr (Inr (), ctx, s))"
  have wake: "(case remove_process_from_ptable (pid c) (?sl\<lparr>KERNEL_STACKS_ALLOCATED := ?K, pg := ?g, PROCESS_TABLE := ?T[j := Some (hand_over (pid c) (x0 ctx) q)]\<rparr>) of
        Inl e \<Rightarrow> Inr (Inl e, ctx, u) | Inr s \<Rightarrow> kbind (ptable_release s) ?fin)
      = ?fin ((exited i c k (x0 ctx) s)\<lparr>PROCESS_TABLE := ?T[j := Some (hand_over (pid c) (x0 ctx) q), i := None]\<rparr>)"
    if j: "pt.lookup (parent_pid c) (PROCESS_TABLE s) = Some j" "?T ! j = Some q" for j q u
    using rel [of "?T[j := Some (hand_over (pid c) (x0 ctx) q), i := None]"] exit_entry_found [OF e j]
    by (simp add: remove_process_from_ptable_def ptable_scans exited_def)
  have up: "update_slot j (\<lambda>q. (set_state Ready q)\<lparr>pctx := (pctx q)\<lparr>regs := (regs (pctx q))[0 := pid c, 1 := x0 ctx]\<rparr>\<rparr>) ?tl
      = ?tl\<lparr>PROCESS_TABLE := ?T[j := Some (hand_over (pid c) (x0 ctx) q)]\<rparr>" if "?T ! j = Some q" for j q
    using that by (simp add: update_slot_def hand_over_def)
  have pex: "PROCESS_TABLE (exited i c k (x0 ctx) s) = ?T" by (simp add: exited_def)
  note base = sys_exit_def exit_current(1) [OF e] ptable_lock(1) [OF x(1,2)] x(5) t cur sl rel pex
  show ?thesis
  proof (cases "pt.lookup (parent_pid c) (PROCESS_TABLE s)")
    case None
    then show ?thesis by (simp add: base exited_def)
  next
    case (Some j)
    show ?thesis
    proof (cases "?T ! j")
      case None
      then show ?thesis using Some by (simp add: base exited_def)
    next
      case q: (Some q)
      show ?thesis
      proof (cases "state q = Blocked \<and> block_reason q = Some WaitingForChild \<and> (regs (pctx q) ! 0 = 0 \<or> pid c = regs (pctx q) ! 0)")
        case True
        then show ?thesis using Some q by (simp add: base up [OF q] wake [OF Some q] Let_def del: One_nat_def)
      next
        case False
        then show ?thesis using Some q by (auto simp: base exited_def Let_def)
      qed
    qed
  qed
qed

section \<open>Waiting\<close>

lemma table_lock_only:
  assumes "kcpu (cpu s)" "PROCESS_TABLE_LOCK s = Spinlock_new"
  shows "ptable_release (s\<lparr>cpu := push_off (cpu s), PROCESS_TABLE_LOCK := taken (cpu s), PROCESS_TABLE := t\<rparr>) = Inr (s\<lparr>PROCESS_TABLE := t\<rparr>)"
    and "ptable_release (s\<lparr>cpu := push_off (cpu s), PROCESS_TABLE_LOCK := taken (cpu s)\<rparr>) = Inr s"
  using assms spin_free(2) [OF assms(1)] by (simp_all add: ptable_release_def)

lemma wait_reaps:
  assumes "kcpu (cpu s)" "PROCESS_TABLE_LOCK s = Spinlock_new" "length (PROCESS_TABLE s) = 50" "pt.uniq (PROCESS_TABLE s)"
    "CURRENT_PROCESS s = j" "j < 50" "PROCESS_TABLE s ! j = Some q" "i < 50" "PROCESS_TABLE s ! i = Some z" "state z = Terminated" "parent_pid z = pid q"
    "x0 ctx = pid z" "pid z \<noteq> 0"
  shows "sys_wait ctx s = Inr (Inr (), set_x 1 (exit_code z) (set_x 0 (pid z) ctx), s\<lparr>PROCESS_TABLE := (PROCESS_TABLE s)[i := None]\<rparr>)"
proof -
  have cur: "get_current_process s = Some q" using assms(5-7) by (simp add: get_current_process_def find_by_ptable_index_def MAX_PROCESSES_def)
  have "\<not> (awaits (pid q) (pid z) (PROCESS_TABLE s ! l))" if "l < i" for l
  proof
    assume "awaits (pid q) (pid z) (PROCESS_TABLE s ! l)"
    then have "map_option pid (PROCESS_TABLE s ! l) = Some (pid z)" using assms(13) by (auto simp: awaits_def split: option.splits)
    then have "l = i" using assms(3,4,8,9) that by (intro pt.uniqD [OF assms(4)]) auto
    then show False using that by simp
  qed
  then have f: "find_index (\<lambda>sl. awaits (pid q) (pid z) sl \<and> in_state Terminated sl) (PROCESS_TABLE s) = Some i"
    using assms(3,8-11) by (auto simp: find_index_Some awaits_def in_state_def)
  show ?thesis
    using f cur assms(9,12) by (simp add: sys_wait_def ptable_lock(1) [OF assms(1,2)] table_lock_only [OF assms(1,2)] Let_def)
qed

section \<open>Properties\<close>

text \<open>A parent (process 1, slot 0), blocked for a given reason, and its child (process 2, slot 1), which is running.\<close>

definition family_parent :: "BlockReason \<Rightarrow> Process" where
  "family_parent br = \<lparr>pid = 1, name = replicate 32 0, state = Blocked, block_reason = Some br, parent_pid = 0,
     pctx = ProcessContext_new 0x400000 0x401000 0 0x106000, chan = 0, exit_code = 0\<rparr>"

definition family_child :: Process where
  "family_child = \<lparr>pid = 2, name = replicate 32 0, state = Running, block_reason = None, parent_pid = 1,
     pctx = ProcessContext_new 0x400000 0x401000 0 0x107000, chan = 0, exit_code = 0\<rparr>"

definition family :: "BlockReason \<Rightarrow> kstate" where
  "family br = (boot_state (demo_pg 0xffffff8000108000) 0xffffff8000105000)\<lparr>CURRENT_PROCESS := 1,
     PROCESS_TABLE := Some (family_parent br) # Some family_child # replicate 48 None,
     KERNEL_STACKS_ALLOCATED := Allocated 1 # Allocated 2 # replicate 48 Free\<rparr>"

lemma family_exiting: "exiting 1 family_child 1 (family br)" "PROCESS_TABLE (family br) ! 0 = Some (family_parent br)"
proof -
  have "pt.uniq (Some (family_parent br) # Some family_child # replicate 48 None)"
    by (auto simp: pt.uniq_def nth_Cons family_parent_def family_child_def split: nat.splits)
  moreover have "kcpu (cpu (family br))" by (simp add: kcpu_def family_def boot_state_def boot_cpu_def is_irq_enabled_def)
  ultimately show "exiting 1 family_child 1 (family br)" "PROCESS_TABLE (family br) ! 0 = Some (family_parent br)"
    by (simp_all add: exiting_def family_def boot_state_def get_active_stack_index_def family_child_def)
qed


text \<open>C18. A process that exits while its parent waits for it: the parent becomes ready with the child's process id and exit code in the registers where \<^verbatim>\<open>wait\<close> returns them, the
  child's slot is free, its memory and kernel stack are given up, its own children now belong to init, every other process is as before, and the table lock is free
  when the scheduler takes over.\<close>

theorem exit_wakes_waiting_parent:
  assumes "exiting i c k s" "j < 50" "PROCESS_TABLE s ! j = Some q" "pid q = parent_pid c" "state q = Blocked" "block_reason q = Some WaitingForChild"
    "regs (pctx q) ! 0 = 0 \<or> regs (pctx q) ! 0 = pid c" "length (regs (pctx q)) = 31"
  shows "\<exists>s1 q'. sys_exit ctx s = kbind (schedule_next ctx s1) (\<lambda>(ctx, s). Inr (Inr (), ctx, s))
     \<and> PROCESS_TABLE s1 ! i = None \<and> PROCESS_TABLE s1 ! j = Some q' \<and> pid q' = pid q \<and> state q' = Ready
     \<and> regs (pctx q') ! 0 = pid c \<and> regs (pctx q') ! 1 = x0 ctx \<and> elr (pctx q') = elr (pctx q)
     \<and> (\<forall>l < 50. l \<noteq> i \<and> l \<noteq> j \<longrightarrow> PROCESS_TABLE s1 ! l = map_option (adopt (pid c)) (PROCESS_TABLE s ! l))
     \<and> KERNEL_STACKS_ALLOCATED s1 = (KERNEL_STACKS_ALLOCATED s)[k := QueuedToFree (pid c)]
     \<and> pg s1 = free_page_table (Some (ttbr0 (pctx c))) (pg s) \<and> PROCESS_TABLE_LOCK s1 = Spinlock_new \<and> cpu s1 = cpu s"
proof -
  have x: "length (PROCESS_TABLE s) = 50" "pt.uniq (PROCESS_TABLE s)" "i < 50" "PROCESS_TABLE s ! i = Some c" "parent_pid c \<noteq> pid c" "PROCESS_TABLE_LOCK s = Spinlock_new"
    using assms(1) by (auto simp: exiting_def)
  have ji: "j \<noteq> i" using assms(3,4) x(4,5) by auto
  have l: "pt.lookup (parent_pid c) (PROCESS_TABLE s) = Some j" using assms(2-4) x by (simp add: pt.lookup_Some)
  let ?T = "exit_table i (pid c) (x0 ctx) (PROCESS_TABLE s)" and ?q = "adopt (pid c) q"
  have Tj: "?T ! j = Some ?q" using ji assms(2,3) x(1) by (simp add: exit_table_nth)
  have q: "state ?q = Blocked" "block_reason ?q = Some WaitingForChild" "pctx ?q = pctx q" using assms(5,6) by (simp_all add: adopt_def)
  let ?s1 = "(exited i c k (x0 ctx) s)\<lparr>PROCESS_TABLE := ?T[j := Some (hand_over (pid c) (x0 ctx) ?q), i := None]\<rparr>"
  have "PROCESS_TABLE (exited i c k (x0 ctx) s) = ?T" by (simp add: exited_def)
  then have "sys_exit ctx s = kbind (schedule_next ctx ?s1) (\<lambda>(ctx, s). Inr (Inr (), ctx, s))"
    using assms(7) q Tj by (auto simp: sys_exit_unfold [OF assms(1)] l)
  then show ?thesis
    using assms(2,8) x ji q by (intro exI [of _ ?s1] exI [of _ "hand_over (pid c) (x0 ctx) ?q"]) (simp add: hand_over_def set_state_def exited_def exit_table_nth nth_list_update)
qed

theorem exit_wakes_waiting_parent_witness:
  "\<exists>s1 q'. sys_exit demo_ectx (family WaitingForChild) = kbind (schedule_next demo_ectx s1) (\<lambda>(ctx, s). Inr (Inr (), ctx, s))
     \<and> PROCESS_TABLE s1 ! 0 = Some q' \<and> state q' = Ready \<and> regs (pctx q') ! 0 = 2"
proof -
  let ?q = "family_parent WaitingForChild"
  have "pid ?q = parent_pid family_child" "state ?q = Blocked" "block_reason ?q = Some WaitingForChild"
    "regs (pctx ?q) ! 0 = 0 \<or> regs (pctx ?q) ! 0 = pid family_child" "length (regs (pctx ?q)) = 31"
    by (simp_all add: family_parent_def family_child_def ProcessContext_new_def)
  from exit_wakes_waiting_parent [OF family_exiting(1) _ family_exiting(2) this, of demo_ectx]
  show ?thesis by (auto simp: family_child_def)
qed

text \<open>C8. A process that exits while its parent does not wait for it (whether the parent runs, is ready, or is blocked on the UART, on a timer or on another child) stays in
  the table as a terminated process that keeps its exit code, and the exit neither wakes the parent nor writes its registers (at most
  its own parent becomes init, when that was the exiting process). A later \<^verbatim>\<open>wait\<close> by the parent
  returns its process id and exit code at once and frees its slot, and only its slot.\<close>

theorem exit_then_wait:
  assumes "exiting i c k s" "j < 50" "PROCESS_TABLE s ! j = Some q" "pid q = parent_pid c" "pid c \<noteq> 0"
    "\<not> (state q = Blocked \<and> block_reason q = Some WaitingForChild \<and> (regs (pctx q) ! 0 = 0 \<or> regs (pctx q) ! 0 = pid c))"
  shows "\<exists>s1 z. sys_exit ctx s = kbind (schedule_next ctx s1) (\<lambda>(ctx, s). Inr (Inr (), ctx, s))
     \<and> z = c\<lparr>exit_code := x0 ctx, state := Terminated\<rparr> \<and> PROCESS_TABLE s1 ! i = Some z \<and> PROCESS_TABLE s1 ! j = Some (adopt (pid c) q)
     \<and> pt.uniq (PROCESS_TABLE s1)
     \<and> (\<forall>s2 wctx q2. CURRENT_PROCESS s2 = j \<and> PROCESS_TABLE s2 ! j = Some q2 \<and> pid q2 = pid q \<and> PROCESS_TABLE s2 ! i = Some z
          \<and> length (PROCESS_TABLE s2) = 50 \<and> pt.uniq (PROCESS_TABLE s2) \<and> kcpu (cpu s2) \<and> PROCESS_TABLE_LOCK s2 = Spinlock_new \<and> x0 wctx = pid c \<longrightarrow>
          sys_wait wctx s2 = Inr (Inr (), set_x 1 (x0 ctx) (set_x 0 (pid c) wctx), s2\<lparr>PROCESS_TABLE := (PROCESS_TABLE s2)[i := None]\<rparr>))"
proof -
  have x: "length (PROCESS_TABLE s) = 50" "pt.uniq (PROCESS_TABLE s)" "i < 50" "PROCESS_TABLE s ! i = Some c" "parent_pid c \<noteq> pid c"
    using assms(1) by (auto simp: exiting_def)
  have ji: "j \<noteq> i" using assms(3,4) x(4,5) by auto
  have l: "pt.lookup (parent_pid c) (PROCESS_TABLE s) = Some j" using assms(2-4) x by (simp add: pt.lookup_Some)
  let ?T = "exit_table i (pid c) (x0 ctx) (PROCESS_TABLE s)" and ?z = "c\<lparr>exit_code := x0 ctx, state := Terminated\<rparr>"
  have Tj: "PROCESS_TABLE (exited i c k (x0 ctx) s) ! j = Some (adopt (pid c) q)" using ji assms(2,3) x(1) by (simp add: exit_table_nth exited_def)
  have "sys_exit ctx s = kbind (schedule_next ctx (exited i c k (x0 ctx) s)) (\<lambda>(ctx, s). Inr (Inr (), ctx, s))"
    using assms(6) by (auto simp: sys_exit_unfold [OF assms(1)] l Tj adopt_def)
  moreover have "pt.uniq (PROCESS_TABLE (exited i c k (x0 ctx) s))" using x(2) by (simp add: exited_def uniq_exit_table)
  moreover have "sys_wait wctx s2 = Inr (Inr (), set_x 1 (x0 ctx) (set_x 0 (pid c) wctx), s2\<lparr>PROCESS_TABLE := (PROCESS_TABLE s2)[i := None]\<rparr>)"
    if s2: "CURRENT_PROCESS s2 = j" "PROCESS_TABLE s2 ! j = Some q2" "pid q2 = pid q" "PROCESS_TABLE s2 ! i = Some ?z" "length (PROCESS_TABLE s2) = 50"
      "pt.uniq (PROCESS_TABLE s2)" "kcpu (cpu s2)" "PROCESS_TABLE_LOCK s2 = Spinlock_new" "x0 wctx = pid c" for s2 wctx q2
    using wait_reaps [OF s2(7,8,5,6), of j q2 i ?z wctx] s2 assms(2,4,5) x(3) by simp
  ultimately show ?thesis using exit_current(2) [OF assms(1), of "x0 ctx"] Tj by blast
qed

theorem exit_then_wait_witness:
  "\<exists>s1. sys_exit demo_ectx (family AwaitingIO) = kbind (schedule_next demo_ectx s1) (\<lambda>(ctx, s). Inr (Inr (), ctx, s))
     \<and> PROCESS_TABLE s1 ! 1 = Some (family_child\<lparr>exit_code := 0, state := Terminated\<rparr>)
     \<and> PROCESS_TABLE s1 ! 0 = Some (family_parent AwaitingIO)"
proof -
  let ?q = "family_parent AwaitingIO"
  have "pid ?q = parent_pid family_child" "pid family_child \<noteq> 0"
    "\<not> (state ?q = Blocked \<and> block_reason ?q = Some WaitingForChild \<and> (regs (pctx ?q) ! 0 = 0 \<or> regs (pctx ?q) ! 0 = pid family_child))"
    by (simp_all add: family_parent_def family_child_def)
  moreover have "adopt (pid family_child) ?q = ?q" by (simp add: adopt_def family_parent_def family_child_def)
  ultimately show ?thesis using exit_then_wait [OF family_exiting(1) _ family_exiting(2), of AwaitingIO demo_ectx] by (auto simp: demo_ectx_def)
qed

end
