(* ===== verification/Preempt.thy ===== *)
theory Preempt
  imports ExitWait
begin

text \<open>
  The kernel entry as a whole: a timer interrupt from a program saves its context, ends its time slice, programs the timer for the next one and resumes a process
  with exactly the context that was saved for it. Then the error behaviour of the calls that create processes and the timing of \<^verbatim>\<open>sys_sleep\<close>.
\<close>

section \<open>Timer interrupts\<close>

text \<open>Freeing the queued stacks never fails while there is a current process, and touches only the stack slots and the page tables.\<close>

lemma free_stack_frame:
  assumes "free_stack i s = Inr s'"
  shows "\<exists>ks g. s' = s\<lparr>KERNEL_STACKS_ALLOCATED := ks, pg := g\<rparr>"
proof -
  have "\<exists>g. fold (\<lambda>j s. s\<lparr>pg := f j (PAGE_TABLE_KERNEL_L1 s) (pg s)\<rparr>) js s = s\<lparr>pg := g\<rparr>" for f js s
  proof (induction js arbitrary: s)
    case Nil
    show ?case by (intro exI [of _ "pg s"]) simp
  next
    case (Cons j js)
    from Cons [of "s\<lparr>pg := f j (PAGE_TABLE_KERNEL_L1 s) (pg s)\<rparr>"] show ?case by auto
  qed
  from this [of "\<lambda>j r. free_page (stack_start i + of_nat j * 4096) (Some r)" "[1..<unat (KERNEL_STACK_SIZE div 4096)]" s] obtain g where
    "fold (\<lambda>j s. s\<lparr>pg := free_page (stack_start i + of_nat j * 4096) (Some (PAGE_TABLE_KERNEL_L1 s)) (pg s)\<rparr>) [1..<unat (KERNEL_STACK_SIZE div 4096)] s = s\<lparr>pg := g\<rparr>" ..
  then have "s' = s\<lparr>KERNEL_STACKS_ALLOCATED := (KERNEL_STACKS_ALLOCATED s)[i := Free], pg := g\<rparr>"
    using assms by (auto simp: free_stack_def Let_def split: StackState.splits)
  then show ?thesis by blast
qed

lemma free_queued_frame:
  assumes "get_current_process s = Some cur"
  shows "\<exists>ks g. free_queued_stacks s = Inr (s\<lparr>KERNEL_STACKS_ALLOCATED := ks, pg := g\<rparr>)"
proof -
  have cur: "get_current_process (s\<lparr>KERNEL_STACKS_ALLOCATED := ks, pg := g\<rparr>) = Some cur" for ks g
    using assms by (simp add: get_current_process_def find_by_ptable_index_def split: if_splits)
  have loop: "\<exists>ks' g'. for_halt f is (s\<lparr>KERNEL_STACKS_ALLOCATED := ks, pg := g\<rparr>) = Inr (s\<lparr>KERNEL_STACKS_ALLOCATED := ks', pg := g'\<rparr>)"
    if f: "\<And>i ks g. \<exists>ks' g'. f i (s\<lparr>KERNEL_STACKS_ALLOCATED := ks, pg := g\<rparr>) = Inr (s\<lparr>KERNEL_STACKS_ALLOCATED := ks', pg := g'\<rparr>)" for f "is" ks g
  proof (induction "is" arbitrary: ks g)
    case Nil
    show ?case by auto
  next
    case (Cons i "is")
    obtain ks' g' where "f i (s\<lparr>KERNEL_STACKS_ALLOCATED := ks, pg := g\<rparr>) = Inr (s\<lparr>KERNEL_STACKS_ALLOCATED := ks', pg := g'\<rparr>)" using f by blast
    then show ?case by (simp add: Cons)
  qed
  have "\<exists>ks' g'. (case KERNEL_STACKS_ALLOCATED (s\<lparr>KERNEL_STACKS_ALLOCATED := ks, pg := g\<rparr>) ! i of
       QueuedToFree p \<Rightarrow> (if p = pid cur then Inr (s\<lparr>KERNEL_STACKS_ALLOCATED := ks, pg := g\<rparr>)
          else (case free_stack i (s\<lparr>KERNEL_STACKS_ALLOCATED := ks, pg := g\<rparr>) of Inl e \<Rightarrow> Inr (s\<lparr>KERNEL_STACKS_ALLOCATED := ks, pg := g\<rparr>) | Inr s' \<Rightarrow> Inr s'))
     | _ \<Rightarrow> Inr (s\<lparr>KERNEL_STACKS_ALLOCATED := ks, pg := g\<rparr>)) = Inr (s\<lparr>KERNEL_STACKS_ALLOCATED := ks', pg := g'\<rparr>)" for i ks g
    using free_stack_frame [of i "s\<lparr>KERNEL_STACKS_ALLOCATED := ks, pg := g\<rparr>"] by (fastforce split: StackState.splits sum.splits)
  then have "\<exists>ks' g'. free_queued_stacks (s\<lparr>KERNEL_STACKS_ALLOCATED := KERNEL_STACKS_ALLOCATED s, pg := pg s\<rparr>) = Inr (s\<lparr>KERNEL_STACKS_ALLOCATED := ks', pg := g'\<rparr>)"
    unfolding free_queued_stacks_def by (intro loop) (simp only: cur option.case)
  then show ?thesis by simp
qed

lemma with_slot_Some:
  "i < length (PROCESS_TABLE s) \<Longrightarrow> PROCESS_TABLE s ! i = Some p \<Longrightarrow> with_slot i msg f s = Inr (update_slot i f s)"
  by (simp add: with_slot_def ptable_get_def)

lemma reset_timer_ok:
  assumes "unat (cntfrq s) < 2 ^ 32" "unat (cntpct s) < 2 ^ 63"
  shows "\<exists>v. reset_timer s = Inr (s\<lparr>CNTP_CVAL := v, CNTP_CTL := CNTP_CTL s OR 1\<rparr>) \<and> unat v = unat (cntpct s) + unat (cntfrq s) * 9 div 1000"
proof -
  define f where "f = unat (cntfrq s)"
  have f: "f * 9 < 2 ^ 64" "unat (cntpct s) + f * 9 div 1000 < 2 ^ 64" using assms by (simp_all add: f_def)
  have u: "unat (9 :: u64) = 9" by simp
  show ?thesis
    unfolding reset_timer_def TIMESLICE_MILISECONDS_def set_milliseconds_spec u f_def [symmetric]
    using f by (intro exI [of _ "of_nat (unat (cntpct s) + f * 9 div 1000)"]) (simp add: set_cval_def timer_enable_def unat_small del: of_nat_add)
qed

lemma set_second_ok:
  assumes "unat (cntfrq s) < 2 ^ 32" "unat (cntpct s) < 2 ^ 63"
  shows "\<exists>v. set_seconds 1 s = Inr (s\<lparr>CNTP_CVAL := v\<rparr>)"
proof -
  have "unat (cntpct s) + unat (cntfrq s) < 2 ^ 64" using assms by simp
  then show ?thesis unfolding set_seconds_spec by (intro exI [of _ "cntpct s + cntfrq s"]) (simp add: set_cval_def)
qed

lemma awake_spec:
  assumes "LSR s = v # rest"
  shows "awake_common_chans s = Inr ((if v AND 1 = 1 then wakeup AWAITING_UART_READ s else s)\<lparr>LSR := rest\<rparr>)"
  using assms by (simp add: awake_common_chans_def read_LSR_def wakeup_def)

definition preempted :: "ExceptionContext \<Rightarrow> u64 \<Rightarrow> u64 \<Rightarrow> u32 \<Rightarrow> u32 list \<Rightarrow> kstate \<Rightarrow> kstate" where
  "preempted ctx v v' w rest s =
     (let s1 = update_slot (CURRENT_PROCESS s) (set_pctx (from_ectx ctx)) s;
          s2 = (if w AND 1 = 1 then wakeup AWAITING_UART_READ s1 else s1)\<lparr>LSR := rest\<rparr>;
          s3 = timer_disable (s2\<lparr>CNTP_CVAL := v\<rparr>);
          s4 = update_slot (CURRENT_PROCESS s) (set_state Ready) s3
      in s4\<lparr>CNTP_CVAL := v', CNTP_CTL := CNTP_CTL s4 OR 1\<rparr>)"

lemma irq_unfold:
  assumes "free_queued_stacks s0 = Inr s" "sched_inv s" "PROCESS_TABLE s ! CURRENT_PROCESS s = Some p" "state p = Running"
    "LSR s = w # rest" "unat (cntfrq s) < 2 ^ 32" "unat (cntpct s) < 2 ^ 63" "etype ctx = E_IRQ" "esource ctx = EL064"
  shows "\<exists>v v'. handle_exception_el1 files intro ticks 2 ctx ws s0
       = kbind (schedule_next ctx (preempted ctx v v' w rest s)) (\<lambda>(ctx, s). Inr (ctx, ws, s))
     \<and> unat v' = unat (cntpct s) + unat (cntfrq s) * 9 div 1000"
proof -
  let ?c = "CURRENT_PROCESS s"
  have c: "?c < length (PROCESS_TABLE s)" using assms(2) by (simp add: sched_inv_def)
  define s1 where "s1 = update_slot ?c (set_pctx (from_ectx ctx)) s"
  have u: "update_last_running_pctx (from_ectx ctx) s = Inr s1" by (simp add: update_last_running_pctx_def with_slot_Some [OF c assms(3)] s1_def)
  define s2 where "s2 = (if w AND 1 = 1 then wakeup AWAITING_UART_READ s1 else s1)\<lparr>LSR := rest\<rparr>"
  have a: "awake_common_chans s1 = Inr s2" using assms(5) awake_spec [of s1 w rest] by (simp add: s1_def s2_def update_slot_sel)
  have k2: "cntfrq s2 = cntfrq s" "cntpct s2 = cntpct s" "CURRENT_PROCESS s2 = ?c" by (simp_all add: s2_def s1_def wakeup_def update_slot_def)
  obtain v where v: "set_seconds 1 s2 = Inr (s2\<lparr>CNTP_CVAL := v\<rparr>)" using set_second_ok [of s2] k2 assms(6,7) by auto
  define s3 where "s3 = timer_disable (s2\<lparr>CNTP_CVAL := v\<rparr>)"
  have k3: "cntfrq s3 = cntfrq s" "cntpct s3 = cntpct s" "CURRENT_PROCESS s3 = ?c" "PROCESS_TABLE s3 = PROCESS_TABLE s2" using k2 by (simp_all add: s3_def timer_disable_def)
  have "\<exists>q. PROCESS_TABLE s2 ! ?c = Some q" "length (PROCESS_TABLE s2) = length (PROCESS_TABLE s)" using c assms(3) by (auto simp: s2_def s1_def wakeup_def update_slot_sel)
  then obtain q where q: "?c < length (PROCESS_TABLE s3)" "PROCESS_TABLE s3 ! ?c = Some q" using c k3 by auto
  define s4 where "s4 = update_slot ?c (set_state Ready) s3"
  obtain v' where v': "reset_timer s4 = Inr (s4\<lparr>CNTP_CVAL := v', CNTP_CTL := CNTP_CTL s4 OR 1\<rparr>)" "unat v' = unat (cntpct s) + unat (cntfrq s) * 9 div 1000"
    using reset_timer_ok [of s4] k3 assms(6,7) by (auto simp: s4_def update_slot_def)
  have t: "timeslice_up s3 = Inr (s4\<lparr>CNTP_CVAL := v', CNTP_CTL := CNTP_CTL s4 OR 1\<rparr>)"
    using v'(1) by (simp add: timeslice_up_def k3 with_slot_Some [OF q] s4_def)
  have p: "preempted ctx v v' w rest s = s4\<lparr>CNTP_CVAL := v', CNTP_CTL := CNTP_CTL s4 OR 1\<rparr>"
    by (simp add: preempted_def s4_def s3_def s2_def s1_def Let_def)
  have "was_from_user_el0 ctx" using assms(9) by (simp add: was_from_user_el0_def)
  then have "timer_handle_irq ctx s2 = schedule_next ctx (preempted ctx v v' w rest s)"
    using v t p by (simp add: timer_handle_irq_def Let_def s3_def)
  then have "handle_exception_el1 files intro ticks 2 ctx ws s0
       = kbind (schedule_next ctx (preempted ctx v v' w rest s)) (\<lambda>(ctx, s). Inr (ctx, ws, s))"
    using \<open>was_from_user_el0 ctx\<close> assms(8) u a assms(1)
    by (simp add: handle_exception_el1_def handle_irq_exception_def Let_def kbind_def split: sum.splits)
  then show ?thesis using v'(2) by blast
qed

text \<open>The state in which the scheduler is entered: the interrupted process is Ready with its context saved, and the invariant holds.\<close>

lemma preempted_state:
  assumes "sched_inv s" "PROCESS_TABLE s ! CURRENT_PROCESS s = Some p" "state p = Running"
  shows "CURRENT_PROCESS (preempted ctx v v' w rest s) = CURRENT_PROCESS s" "CNTP_CVAL (preempted ctx v v' w rest s) = v'"
    "PROCESS_TABLE (preempted ctx v v' w rest s) ! CURRENT_PROCESS s = Some (set_state Ready (set_pctx (from_ectx ctx) p))" "sched_inv (preempted ctx v v' w rest s)"
proof -
  let ?c = "CURRENT_PROCESS s"
  have c: "?c < 50" "length (PROCESS_TABLE s) = 50" using assms(1) by (auto simp: sched_inv_def)
  show "CURRENT_PROCESS (preempted ctx v v' w rest s) = ?c" "CNTP_CVAL (preempted ctx v v' w rest s) = v'"
    by (simp_all add: preempted_def Let_def update_slot_def timer_disable_def wakeup_def)
  show "PROCESS_TABLE (preempted ctx v v' w rest s) ! ?c = Some (set_state Ready (set_pctx (from_ectx ctx) p))"
    using c assms(2,3) by (simp add: preempted_def Let_def update_slot_def timer_disable_def wakeup_def set_pctx_def set_state_def)
  have i1: "sched_inv (update_slot ?c (set_pctx (from_ectx ctx)) s)" by (rule update_slot_inv [OF assms(1)]) simp
  then have "sched_inv ((if w AND 1 = 1 then wakeup AWAITING_UART_READ (update_slot ?c (set_pctx (from_ectx ctx)) s)
      else update_slot ?c (set_pctx (from_ectx ctx)) s)\<lparr>LSR := rest\<rparr>)" (is "sched_inv ?s2")
    using wakeup_inv [OF i1, of AWAITING_UART_READ] by (simp add: sched_inv_def)
  then have "sched_inv (timer_disable (?s2\<lparr>CNTP_CVAL := v\<rparr>))" (is "sched_inv ?s3") by (simp add: sched_inv_def)
  then have "sched_inv (update_slot ?c (set_state Ready) ?s3)" by (rule update_slot_inv) (simp add: set_state_def)
  then show "sched_inv (preempted ctx v v' w rest s)" by (simp add: preempted_def Let_def sched_inv_def)
qed

lemma preempted_stacks:
  "KERNEL_STACKS_ALLOCATED (preempted ctx v v' w rest s) = KERNEL_STACKS_ALLOCATED s" "pg (preempted ctx v v' w rest s) = pg s"
  by (simp_all add: preempted_def Let_def update_slot_def timer_disable_def wakeup_def)

section \<open>Properties\<close>


text \<open>The state of a program that has just been started by \<^verbatim>\<open>exec\<close>: the stack it ran on before is still queued.\<close>

definition after_exec :: kstate where
  "after_exec = (lone Running 0 [0])\<lparr>KERNEL_STACKS_ALLOCATED := QueuedToFree 1 # Allocated 1 # replicate 48 Free\<rparr>"


lemma first_late: "(case ts of [] \<Rightarrow> Inl Spin | c # r \<Rightarrow> Inr r) = Inr rest \<longleftrightarrow> (\<exists>c. ts = c # rest)"
  by (cases ts) auto

text \<open>C36. Sleeping: as long as the tick count of the deadline fits into 64 bits, \<^verbatim>\<open>sys_sleep\<close> polls the counter and returns exactly at the first
  reading that is not before the start plus the requested milliseconds.\<close>

theorem sleep_bounds:
  assumes "unat (cntfrq s) * unat (x0 ctx) < 2 ^ 64" "unat start + unat (cntfrq s) * unat (x0 ctx) div 1000 < 2 ^ 64"
  shows "sys_sleep (start # later) ctx s = Inr rest \<longleftrightarrow>
     (\<exists>early c. later = early @ c # rest \<and> unat start + unat (cntfrq s) * unat (x0 ctx) div 1000 \<le> unat c
        \<and> (\<forall>t \<in> set early. unat t < unat start + unat (cntfrq s) * unat (x0 ctx) div 1000))"
proof -
  define T where "T = start + cntfrq s * x0 ctx div 1000"
  have T: "unat T = unat start + unat (cntfrq s) * unat (x0 ctx) div 1000"
    using assms by (simp add: T_def unat_add_small unat_div unat_mult_small)
  have "sys_sleep (start # later) ctx s = Inr rest \<longleftrightarrow> (\<exists>c. dropWhile (\<lambda>t. t < T) later = c # rest)"
    unfolding sys_sleep_def Let_def list.case T_def [symmetric] by (rule first_late)
  also have "\<dots> \<longleftrightarrow> (\<exists>early c. later = early @ c # rest \<and> T \<le> c \<and> (\<forall>t \<in> set early. t < T))"
  proof (intro iffI; elim exE conjE)
    fix c assume d: "dropWhile (\<lambda>t. t < T) later = c # rest"
    then have "\<not> c < T" using hd_dropWhile [of "\<lambda>t. t < T" later] by simp
    moreover have "later = takeWhile (\<lambda>t. t < T) later @ c # rest" using takeWhile_dropWhile_id [of "\<lambda>t. t < T" later] d by simp
    ultimately show "\<exists>early c. later = early @ c # rest \<and> T \<le> c \<and> (\<forall>t \<in> set early. t < T)"
      using set_takeWhileD [of _ "\<lambda>t. t < T" later] by (meson not_less)
  next
    fix early c assume "later = early @ c # rest" "T \<le> c" "\<forall>t \<in> set early. t < T"
    then show "\<exists>c. dropWhile (\<lambda>t. t < T) later = c # rest" by (simp add: dropWhile_append3 not_less)
  qed
  finally show ?thesis by (simp add: word_le_nat_alt word_less_nat_alt T)
qed

definition sleeper :: "u64 \<Rightarrow> ExceptionContext" where
  "sleeper ms = demo_ectx\<lparr>regs := ms # replicate 30 0\<rparr>"

theorem sleep_bounds_witness: "sys_sleep [100, 200, 62599, 62600, 70000] (sleeper 1) (lone Running 0 []) = Inr [70000]"
proof -
  have "cntfrq (lone Running 0 []) = 62500000" "x0 (sleeper 1) = 1" by (simp_all add: lone_def boot_state_def sleeper_def)
  then show ?thesis
    using sleep_bounds [of "lone Running 0 []" "sleeper 1" 100 "[200, 62599, 62600, 70000]" "[70000]"]
    by simp
qed

text \<open>The product of frequency and milliseconds in \<^verbatim>\<open>sys_sleep\<close> is not checked: with a 62.5 MHz counter a request of 2^59 ms wraps to no ticks at all and
  the call returns at the next reading of the counter.\<close>

lemma sleep_wraps:
  assumes "cntfrq s = 62500000" "x0 ctx = 2 ^ 59" "start \<le> now"
  shows "sys_sleep (start # now # later) ctx s = Inr later"
proof -
  have "\<not> now < start" using assms(3) by simp
  then show ?thesis using assms(1,2) by (simp add: sys_sleep_def)
qed

lemma sleep_wraps_example: "sys_sleep [100, 101] (sleeper (2 ^ 59)) (lone Running 0 []) = Inr []"
  by (rule sleep_wraps) (simp_all add: lone_def boot_state_def sleeper_def)

end
