(* ===== verification/Boot.thy ===== *)
theory Boot
  imports Devices KernelTables Preempt
begin

text \<open>
  The boot sequence, \<^verbatim>\<open>main.rs\<close>: \<^verbatim>\<open>_rust_main\<close> from the state that the loader and \<^verbatim>\<open>entry.S\<close> leave behind to the first process in user mode, the panic handler, \<^verbatim>\<open>the_end\<close>
  and the dump of an unhandled exception. \<open>stack_top_addr\<close> is the linker's \<^verbatim>\<open>_stack_top\<close>, \<open>ctl\<close> the interrupt control register of the core, and \<open>ctx\<close> what the
  exception vector saves at \<^verbatim>\<open>svc #0\<close>; taking the exception masks the interrupts. No interrupt arrives between \<^verbatim>\<open>daif_unmask_all\<close> and that \<^verbatim>\<open>svc\<close>, as the timer is not yet enabled.
\<close>

section \<open>Definitions\<close>

definition kprintln :: "u8 list \<Rightarrow> wakeups \<Rightarrow> kstate \<Rightarrow> halt + (wakeups \<times> kstate)" where
  "kprintln t ws s = kio_print (t @ [10]) ws s"

primrec kprint_lines :: "u8 list list \<Rightarrow> wakeups \<Rightarrow> kstate \<Rightarrow> halt + (wakeups \<times> kstate)" where
  "kprint_lines [] ws s = Inr (ws, s)"
| "kprint_lines (t # ts) ws s = kbind (kprintln t ws s) (\<lambda>(ws, s). kprint_lines ts ws s)"

definition show_welcome_ascii :: "u8 list \<Rightarrow> wakeups \<Rightarrow> kstate \<Rightarrow> halt + (wakeups \<times> kstate)" where
  "show_welcome_ascii intro ws s = kprintln intro ws s"

definition init_args :: "u8 list list" where
  "init_args = [lit ''init'', lit ''hi there'', lit ''this is test of args'']"

definition rust_main ::
  "(string \<Rightarrow> u8 list) \<Rightarrow> u8 list \<Rightarrow> u64 \<Rightarrow> wakeups \<Rightarrow> kstate \<Rightarrow> mmio \<Rightarrow> u32 \<Rightarrow> halt + (wakeups \<times> kstate \<times> mmio \<times> u32)" where
  "rust_main files intro stack_top_addr ws s d ctl =
     kbind (KernelIO_init ws s d) (\<lambda>(ws, s, d).
     let ctl = init_irq ctl;
         s = s\<lparr>cpu := daif_unmask_all (cpu s)\<rparr>;
         s = s\<lparr>pg := init_frames (stack_top_addr + 0x2000) (ttbr1_to_va 0x3EFFE000) (pg s)\<rparr>;
         s = raw_write (lit ''Hello there!'') s in
     kbind (show_welcome_ascii intro ws s) (\<lambda>(ws, s).
     kbind (kprintln (lit ''Total available memory: '' @ decimal (unat (available_memory (pg s) div (1024 * 1024))) @ lit '' MB'') ws s) (\<lambda>(ws, s).
     kbind (kprintln (lit ''Total usable memory: '' @ decimal (unat (total_memory (pg s) div (1024 * 1024))) @ lit '' MB'') ws s) (\<lambda>(ws, s).
     kbind (kprintln ([10] @ lit ''Welcome, to AtOS...'' @ [10]) ws s) (\<lambda>(ws, s).
     kbind (run_executable files (lit ''init'') 0 init_args s) (\<lambda>(r, s).
     kbind (unwrap r) (\<lambda>_. Inr (ws, s, d, ctl))))))))"

definition scheduler_start ::
  "(string \<Rightarrow> u8 list) \<Rightarrow> u8 list \<Rightarrow> u64 list \<Rightarrow> u32 \<Rightarrow> ExceptionContext \<Rightarrow> wakeups \<Rightarrow> kstate \<Rightarrow> halt + (ExceptionContext \<times> wakeups \<times> kstate)" where
  "scheduler_start files intro ticks irq ctx ws s = handle_exception_el1 files intro ticks irq ctx ws (s\<lparr>cpu := daif_mask_all (cpu s)\<rparr>)"

text \<open>The state in which the kernel loops forever: after the end of the last process, after a panic, and after an exception that is not handled.\<close>

definition the_end :: "wakeups \<Rightarrow> kstate \<Rightarrow> halt + (wakeups \<times> kstate)" where
  "the_end ws s =
     kbind (kprint_lines [lit ''----------THE END-----------'', lit ''All processes have completed/terminated.'',
       lit ''There is nothing left to do. You may power off your device now.'', lit ''----------------------------''] ws s) (\<lambda>(ws, s).
     kbind (set_seconds 1 s) (\<lambda>s. Inr (ws, timer_disable s)))"

definition kernel_panic :: "u8 list option \<Rightarrow> string \<Rightarrow> wakeups \<Rightarrow> kstate \<Rightarrow> halt + (wakeups \<times> kstate)" where
  "kernel_panic loc msg ws s =
     kprint_lines [lit ''--------KERNEL PANIC--------'', case loc of Some l \<Rightarrow> lit ''Location: '' @ l | None \<Rightarrow> lit ''Location: Unknown location'',
       lit ''Message:  '' @ lit msg, lit ''----------------------------''] ws s"

definition hex16 :: "u64 \<Rightarrow> u8 list" where
  "hex16 w = lit ''0x'' @ map (\<lambda>i. hex_digit (unat (drop_bit (4 * i) w AND 0xF))) (rev [0..<16])"

definition exception_context_lines :: "ExceptionContext \<Rightarrow> u8 list list" where
  "exception_context_lines ctx =
     (let (etype_str, etype_n) = (case etype ctx of E_SYNC \<Rightarrow> (''SYNC'', 0) | E_IRQ \<Rightarrow> (''IRQ'', 1) | E_FIQ \<Rightarrow> (''FIQ'', 2) | E_SE \<Rightarrow> (''SError'', 3));
          (esource_str, esource_n) = (case esource ctx of EL1t \<Rightarrow> (''EL1t'', 0) | EL1h \<Rightarrow> (''EL1h'', 1) | EL064 \<Rightarrow> (''EL064'', 2) | EL032 \<Rightarrow> (''EL032'', 3)) in
      [lit ''=== Exception Context ==='',
       lit ''Type : '' @ lit etype_str @ lit '' ('' @ decimal etype_n @ lit '')'',
       lit ''Source : '' @ lit esource_str @ lit '' ('' @ decimal esource_n @ lit '')'',
       lit ''ELR  : '' @ hex16 (elr ctx),
       lit ''SPSR : '' @ hex16 (spsr ctx),
       lit ''ESR  : '' @ hex16 (esr ctx),
       lit ''FAR  : '' @ hex16 (far ctx),
       lit ''SP_EL0 : '' @ hex16 (sp_el0 ctx),
       lit ''TTBR0  : '' @ hex16 (ttbr0 ctx),
       lit ''Registers:'']
      @ map (\<lambda>i. lit ''  x'' @ (if i < 10 then [0x30] else []) @ decimal i @ lit '' = '' @ hex16 (regs ctx ! i)) [0..<31]
      @ [lit ''=========================''])"

definition print_exception_context :: "ExceptionContext \<Rightarrow> wakeups \<Rightarrow> kstate \<Rightarrow> halt + (wakeups \<times> kstate)" where
  "print_exception_context ctx ws s = kprint_lines (exception_context_lines ctx) ws s"

definition unhandled_exception :: "ExceptionContext \<Rightarrow> wakeups \<Rightarrow> kstate \<Rightarrow> halt + (wakeups \<times> kstate)" where
  "unhandled_exception ctx ws s =
     kbind (kprintln (lit ''Unhandled exception detected!'') ws s) (\<lambda>(ws, s).
     kbind (print_exception_context ctx ws s) (\<lambda>(ws, s).
     kprintln (lit ''System halted due to unhandled exception.'') ws s))"

section \<open>Printing several lines\<close>

definition unlines :: "u8 list list \<Rightarrow> u8 list" where
  "unlines ts = concat (map (\<lambda>t. t @ [10]) ts)"

lemma crlf_append: "crlf (a @ b) = crlf a @ crlf b"
  by (simp add: crlf_def)

lemma after_tx_add: "after_tx (m + n) l = Some r \<Longrightarrow> \<exists>k. after_tx m l = Some k \<and> after_tx n k = Some r"
proof (induction m arbitrary: l)
  case (Suc m)
  then show ?case by (cases "dropWhile (\<lambda>v. v AND 0x20 = 0) l") simp_all
qed simp

lemma kio_print_then:
  assumes "io_idle s" "after_tx (length (crlf (a @ b))) (LSR s) = Some r"
  shows "\<exists>l. kio_print a ws s = Inr (ws, s\<lparr>LSR := l, UART_TX := UART_TX s @ map ucast (crlf a)\<rparr>) \<and> after_tx (length (crlf b)) l = Some r"
  using after_tx_add [of "length (crlf a)" "length (crlf b)" "LSR s" r] assms kio_print_spec [OF assms(1), of a] by (auto simp: crlf_append)

lemma kprint_lines_spec:
  "io_idle s \<Longrightarrow> after_tx (length (crlf (unlines ts))) (LSR s) = Some r \<Longrightarrow>
   kprint_lines ts ws s = Inr (ws, s\<lparr>LSR := r, UART_TX := UART_TX s @ map ucast (crlf (unlines ts))\<rparr>)"
proof (induction ts arbitrary: s)
  case Nil
  then show ?case by (simp add: unlines_def crlf_def)
next
  case (Cons t ts)
  have u: "crlf (unlines (t # ts)) = crlf (t @ [10]) @ crlf (unlines ts)" "crlf ((t @ [10]) @ unlines ts) = crlf (t @ [10]) @ crlf (unlines ts)"
    using crlf_append [of "t @ [10]" "unlines ts"] by (simp_all add: unlines_def)
  obtain l where l: "kio_print (t @ [10]) ws s = Inr (ws, s\<lparr>LSR := l, UART_TX := UART_TX s @ map ucast (crlf (t @ [10]))\<rparr>)"
    "after_tx (length (crlf (unlines ts))) l = Some r"
    using kio_print_then [OF Cons.prems(1), of "t @ [10]" "unlines ts" r ws] Cons.prems(2) unfolding u by blast
  show ?case
    using Cons.IH [of "s\<lparr>LSR := l, UART_TX := UART_TX s @ map ucast (crlf (t @ [10]))\<rparr>"] l Cons.prems(1)
    by (simp add: kprintln_def u(1))
qed

text \<open>The first lock that is taken after a change of the interrupt mask records the mask.\<close>

definition settle :: "Cpu \<Rightarrow> Cpu" where
  "settle c = c\<lparr>interrupts_enabled := is_irq_enabled c\<rparr>"

lemma kcpu_settle: "ncli c = 0 \<Longrightarrow> kcpu (settle c)"
  by (simp add: kcpu_def settle_def)

lemma kio_print_settle:
  assumes "ncli (cpu s) = 0"
  shows "kio_print bs ws s = kio_print bs ws (s\<lparr>cpu := settle (cpu s)\<rparr>)"
proof -
  have "push_off (settle c) = push_off c" "cid (settle c) = cid c" if "ncli c = 0" for c
    using that by (simp_all add: push_off_def settle_def irq_disable_def is_irq_enabled_def Let_def)
  then have "spin_acquire (settle (cpu s), l) = spin_acquire (cpu s, l)" for l using assms by (simp add: spin_acquire_def Let_def)
  then have "guard_acquire (s\<lparr>cpu := settle (cpu s)\<rparr>) = guard_acquire s" by (simp add: guard_acquire_def set_mutex_def)
  then show ?thesis by (simp add: kio_print_def mutex_acquire_def)
qed

section \<open>The banner\<close>

definition banner :: "u8 list \<Rightarrow> pgstate \<Rightarrow> u8 list list" where
  "banner intro g = [intro, lit ''Total available memory: '' @ decimal (unat (available_memory g div (1024 * 1024))) @ lit '' MB'',
     lit ''Total usable memory: '' @ decimal (unat (total_memory g div (1024 * 1024))) @ lit '' MB'', [10] @ lit ''Welcome, to AtOS...'' @ [10]]"

lemma kprintln_step:
  assumes "io_idle s" "after_tx (length (crlf (unlines (t # ts)))) (LSR s) = Some r"
  shows "\<exists>l. kprintln t ws s = Inr (ws, s\<lparr>LSR := l, UART_TX := UART_TX s @ map ucast (crlf (unlines [t]))\<rparr>) \<and> after_tx (length (crlf (unlines ts))) l = Some r"
  using kio_print_then [OF assms(1), of "t @ [10]" "unlines ts" r ws] assms(2) by (simp add: kprintln_def unlines_def)

lemma crlf_unlines_Cons: "crlf (unlines (t # ts)) = crlf (unlines [t]) @ crlf (unlines ts)"
  using crlf_append [of "t @ [10]" "unlines ts"] by (simp add: unlines_def)

lemma banner_run:
  assumes "io_idle s" "after_tx (length (crlf (unlines (banner intro (pg s))))) (LSR s) = Some r"
  shows "kbind (show_welcome_ascii intro ws s) (\<lambda>(ws, s).
     kbind (kprintln (lit ''Total available memory: '' @ decimal (unat (available_memory (pg s) div (1024 * 1024))) @ lit '' MB'') ws s) (\<lambda>(ws, s).
     kbind (kprintln (lit ''Total usable memory: '' @ decimal (unat (total_memory (pg s) div (1024 * 1024))) @ lit '' MB'') ws s) (\<lambda>(ws, s).
     kbind (kprintln ([10] @ lit ''Welcome, to AtOS...'' @ [10]) ws s) f)))
   = f (ws, s\<lparr>LSR := r, UART_TX := UART_TX s @ map ucast (crlf (unlines (banner intro (pg s))))\<rparr>)"
proof -
  define b1 b2 b3 b4 where b: "b1 = intro" "b2 = lit ''Total available memory: '' @ decimal (unat (available_memory (pg s) div (1024 * 1024))) @ lit '' MB''"
    "b3 = lit ''Total usable memory: '' @ decimal (unat (total_memory (pg s) div (1024 * 1024))) @ lit '' MB''" "b4 = [10] @ lit ''Welcome, to AtOS...'' @ [10]"
  have ban: "banner intro (pg s) = [b1, b2, b3, b4]" by (simp add: banner_def b)
  let ?tx = "\<lambda>t. map ucast (crlf (unlines [t])) :: u32 list"
  obtain l1 where l1: "kprintln b1 ws s = Inr (ws, s\<lparr>LSR := l1, UART_TX := UART_TX s @ ?tx b1\<rparr>)" "after_tx (length (crlf (unlines [b2, b3, b4]))) l1 = Some r"
    using kprintln_step [OF assms(1) assms(2) [unfolded ban], of ws] by blast
  let ?s1 = "s\<lparr>LSR := l1, UART_TX := UART_TX s @ ?tx b1\<rparr>"
  obtain l2 where l2: "kprintln b2 ws ?s1 = Inr (ws, s\<lparr>LSR := l2, UART_TX := UART_TX s @ ?tx b1 @ ?tx b2\<rparr>)" "after_tx (length (crlf (unlines [b3, b4]))) l2 = Some r"
    using kprintln_step [of ?s1 b2 "[b3, b4]" r ws] assms(1) l1(2) by auto
  let ?s2 = "s\<lparr>LSR := l2, UART_TX := UART_TX s @ ?tx b1 @ ?tx b2\<rparr>"
  obtain l3 where l3: "kprintln b3 ws ?s2 = Inr (ws, s\<lparr>LSR := l3, UART_TX := UART_TX s @ ?tx b1 @ ?tx b2 @ ?tx b3\<rparr>)" "after_tx (length (crlf (unlines [b4]))) l3 = Some r"
    using kprintln_step [of ?s2 b3 "[b4]" r ws] assms(1) l2(2) by auto
  let ?s3 = "s\<lparr>LSR := l3, UART_TX := UART_TX s @ ?tx b1 @ ?tx b2 @ ?tx b3\<rparr>"
  have l4: "kprintln b4 ws ?s3 = Inr (ws, s\<lparr>LSR := r, UART_TX := UART_TX s @ ?tx b1 @ ?tx b2 @ ?tx b3 @ ?tx b4\<rparr>)"
    using kprintln_step [of ?s3 b4 "[]" r ws] assms(1) l3(2) by (auto simp: unlines_def crlf_def)
  have u: "map ucast (crlf (unlines [b1, b2, b3, b4])) = ?tx b1 @ ?tx b2 @ ?tx b3 @ ?tx b4"
    unfolding crlf_unlines_Cons [of b1 "[b2, b3, b4]"] crlf_unlines_Cons [of b2 "[b3, b4]"] crlf_unlines_Cons [of b3 "[b4]"] by simp
  have k: "kprintln intro = kprintln b1" by (simp only: b(1))
  have m: "lit ''Total available memory: '' @ decimal (unat (available_memory (pg ?s1) div (1024 * 1024))) @ lit '' MB'' = b2"
    "lit ''Total usable memory: '' @ decimal (unat (total_memory (pg ?s2) div (1024 * 1024))) @ lit '' MB'' = b3" by (simp_all add: b)
  show ?thesis unfolding ban show_welcome_ascii_def k l1(1) kbind_simps prod.case m l2(1) l3(1) b(4) [symmetric] l4 u ..
qed

section \<open>From reset to the first process\<close>

definition boot_memory :: "pgstate \<Rightarrow> u64 \<Rightarrow> pgstate" where
  "boot_memory g stack_top_addr = init_frames (stack_top_addr + 0x2000) (ttbr1_to_va 0x3EFFE000) g"

definition kernel_image :: "pgstate \<Rightarrow> u64 \<Rightarrow> u64 \<Rightarrow> u64 \<Rightarrow> u64 \<Rightarrow> bool" where
  "kernel_image g r a b stack_top_addr \<longleftrightarrow> kernel_tables (ram g) r a b \<and> FREE_FRAME_LIST g = None \<and> FREE_FRAME_COUNT g = 0
     \<and> page_aligned stack_top_addr \<and> 0xffffff8000000000 \<le> stack_top_addr \<and> stack_top_addr < 0xffffff803EFFC000
     \<and> ttbr1_to_va r < stack_top_addr \<and> ttbr1_to_va a < stack_top_addr \<and> ttbr1_to_va b < stack_top_addr"

definition reset_state :: "pgstate \<Rightarrow> u64 \<Rightarrow> u32 list \<Rightarrow> u32 list \<Rightarrow> u64 \<Rightarrow> u64 \<Rightarrow> kstate" where
  "reset_state g r l rx now freq = (boot_state g (ttbr1_to_va r))\<lparr>LSR := l, UART_RX := rx, cntpct := now, cntfrq := freq\<rparr>"

definition boot_frame_count :: "u64 \<Rightarrow> nat" where
  "boot_frame_count stack_top_addr = (0xffffff803EFFC000 - unat stack_top_addr) div 4096"

lemma boot_memory_spec:
  assumes "kernel_image g r a b tp"
  shows "\<exists>ps. spaces (boot_memory g tp) [r] ps \<and> kernel_tables (ram (boot_memory g tp)) r a b \<and> (\<forall>p \<in> set ps. blank (ram (boot_memory g tp)) p)
     \<and> length ps = boot_frame_count tp"
proof -
  let ?x = "tp + 0x2000" and ?y = "ttbr1_to_va 0x3EFFE000"
  have k: "kernel_tables (ram g) r a b" "FREE_FRAME_LIST g = None" "FREE_FRAME_COUNT g = 0" "page_aligned tp" "0xffffff8000000000 \<le> tp" "tp < 0xffffff803EFFC000"
    "ttbr1_to_va r < tp" "ttbr1_to_va a < tp" "ttbr1_to_va b < tp" using assms by (simp_all add: kernel_image_def)
  have u: "unat ?x = unat tp + 0x2000" using k(6) by (simp add: unat_word_ariths word_less_nat_alt)
  have y: "unat ?y = 0xffffff803EFFE000" by (simp add: ttbr1_to_va_def)
  have q: "unat tp mod 4096 = 0" using k(4) by (simp add: page_aligned_mod)
  then have "unat ?x mod 4096 = 0" unfolding u by (simp add: mod_add_left_eq [symmetric])
  then have x: "page_aligned ?x" "0xffffff8000000000 \<le> ?x" "?x \<le> ?y"
    unfolding page_aligned_mod word_le_nat_alt u y using k(5,6) by (simp_all add: word_le_nat_alt word_less_nat_alt)
  have lt: "tp \<le> ?x" using u by (simp add: word_le_nat_alt)
  note bs = boot_spaces [OF k(1-3) x less_le_trans [OF k(7) lt] less_le_trans [OF k(8) lt] less_le_trans [OF k(9) lt]]
  have "(unat ?y - unat ?x + 4095) div 4096 = boot_frame_count tp"
  proof -
    obtain n where n: "unat tp = 4096 * n" using q by (auto simp: mod_eq_0_iff_dvd elim: dvdE)
    define k' where "k' = 0xffffff803EFFC - n"
    have "n + k' = 0xffffff803EFFC" using k(6) n by (simp add: word_less_nat_alt k'_def)
    then have "0xffffff803EFFE000 - (4096 * n + 0x2000) = 4096 * k'" "0xffffff803EFFC000 - 4096 * n = 4096 * k'" by linarith+
    then show ?thesis unfolding boot_frame_count_def u y n by simp
  qed
  then show ?thesis using bs unfolding boot_memory_def by (intro exI [of _ "rev (map ttbr1_to_pa (step_by_page ?x ?y))"]) simp
qed

lemma init_args_ok: "args_fit init_args" "list_all utf8_valid init_args"
  by (simp_all add: init_args_def args_fit_def lit_def)

lemma read_init: "read_file files (lit ''init'') = Some (files ''init'')"
  by (simp add: read_file_def)

definition booted :: "(string \<Rightarrow> u8 list) \<Rightarrow> u8 list \<Rightarrow> pgstate \<Rightarrow> u64 \<Rightarrow> u64 \<Rightarrow> u32 list \<Rightarrow> u32 list \<Rightarrow> u64 \<Rightarrow> u64 \<Rightarrow> Process \<Rightarrow> StackState list \<Rightarrow> pgstate \<Rightarrow> kstate" where
  "booted files intro g r tp l rx now freq p ks g' = (reset_state g r l rx now freq)\<lparr>cpu := settle (daif_unmask_all boot_cpu),
     UART_TX := map ucast (lit ''Hello there!'' @ crlf (unlines (banner intro (boot_memory g tp)))),
     NEXT_PID := 2, KERNEL_STACKS_ALLOCATED := ks, pg := g', PROCESS_TABLE := (replicate 50 None)[0 := Some p]\<rparr>"

lemma rust_main_spec:
  assumes img: "kernel_image g r a b tp" and ok: "loadable (files ''init'')" and len: "3 * (image_pages (files ''init'') + 14) + 19 \<le> boot_frame_count tp"
    and tx: "after_tx (length (crlf (unlines (banner intro (boot_memory g tp))))) l = Some l'"
  shows "\<exists>ks g' ps stk sp t. let p = started (lit ''init'') 0 (files ''init'') init_args 1 sp stk t; s' = booted files intro g r tp l' rx now freq p ks g' in
       rust_main files intro tp ws (reset_state g r l rx now freq) d ctl = Inr (ws, s', uart_setup d, init_irq ctl)
     \<and> parse_args 3 sp (of_nat (user_stack_top (image_end (files ''init'')))) (umem g' t) = Inr init_args \<and> unat sp mod 16 = 0 \<and> image_loaded (files ''init'') t g'
     \<and> stacks_inv s' ps \<and> get_stack_top 1 s' = Inr stk \<and> spaces g' [r, t] ps"
proof -
  let ?s0 = "reset_state g r l rx now freq" and ?m = "boot_memory g tp"
  obtain ps0 where b: "spaces ?m [r] ps0" "kernel_tables (ram ?m) r a b" "\<forall>p \<in> set ps0. blank (ram ?m) p" "length ps0 = boot_frame_count tp"
    using boot_memory_spec [OF img] by blast
  then obtain t ps where ps: "ps0 = t # ps" using len by (cases ps0) auto
  have fr: "is_frame_pa r" using kernel_tablesD(1) [OF b(2)] .
  have idle0: "io_idle ?s0" "unat (ncli (cpu ?s0)) < 2 ^ 63 - 1"
    by (auto simp: io_idle_def io_quiet_def no_waiters_def kcpu_def reset_state_def boot_state_def boot_cpu_def is_irq_enabled_def KernelIO_new_def Mutex_new_def Uart_new_def in_set_conv_nth)
  let ?s1 = "raw_write (lit ''Hello there!'') (?s0\<lparr>cpu := daif_unmask_all (cpu ?s0), pg := ?m\<rparr>)"
  let ?s2 = "?s1\<lparr>cpu := settle (cpu ?s1)\<rparr>"
  have n0: "ncli (cpu ?s1) = 0" by (simp add: raw_write_def reset_state_def boot_state_def boot_cpu_def daif_unmask_all_def)
  have idle2: "io_idle ?s2"
    using kcpu_settle [OF n0]
    by (auto simp: io_idle_def io_quiet_def no_waiters_def raw_write_def reset_state_def boot_state_def KernelIO_new_def Mutex_new_def Uart_new_def in_set_conv_nth)
  have pr: "show_welcome_ascii intro ws ?s1 = show_welcome_ascii intro ws ?s2"
    unfolding show_welcome_ascii_def kprintln_def by (rule kio_print_settle [OF n0])
  define s3 where "s3 = ?s2\<lparr>LSR := l', UART_TX := UART_TX ?s2 @ map ucast (crlf (unlines (banner intro (pg ?s2))))\<rparr>"
  have tx2: "after_tx (length (crlf (unlines (banner intro (pg ?s2))))) (LSR ?s2) = Some l'"
    using tx by (simp add: raw_write_def reset_state_def)
  note run = banner_run [OF idle2 tx2, of ws, folded s3_def]
  have f3: "pg s3 = ?m" "PAGE_TABLE_KERNEL_L1 s3 = ttbr1_to_va r" "KERNEL_STACKS_ALLOCATED s3 = replicate 50 Free" "NEXT_PID s3 = 1" "PROCESS_TABLE s3 = replicate 50 None"
    by (simp_all add: s3_def raw_write_def reset_state_def boot_state_def)
  have kr: "kroot s3 = r" using f3(2) fr by simp
  have sp3: "spawnable s3 (files ''init'') [] t ps"
    using b ps ok len boot_stacks [of s3 r a b "t # ps"] f3 fr
    by (auto simp: spawnable_def get_active_stack_index_def find_index_None)
  obtain g' ks ps' stk sp i where w: "pt.first_vacant (PROCESS_TABLE s3) = Some i"
    "spawn_from_elf (lit ''init'') 0 (files ''init'') init_args s3 = Inr (Inr 1, s3\<lparr>NEXT_PID := 2, KERNEL_STACKS_ALLOCATED := ks, pg := g',
       PROCESS_TABLE := (PROCESS_TABLE s3)[i := Some (started (lit ''init'') 0 (files ''init'') init_args 1 sp stk t)]\<rparr>)"
    "parse_args (of_nat (length init_args)) sp (of_nat (user_stack_top (image_end (files ''init'')))) (umem g' t) = Inr init_args" "unat sp mod 16 = 0" "image_loaded (files ''init'') t g'"
    "stacks_inv (s3\<lparr>NEXT_PID := 2, KERNEL_STACKS_ALLOCATED := ks, pg := g', PROCESS_TABLE := (PROCESS_TABLE s3)[i := Some (started (lit ''init'') 0 (files ''init'') init_args 1 sp stk t)]\<rparr>) ps'"
    "get_stack_top 1 (s3\<lparr>NEXT_PID := 2, KERNEL_STACKS_ALLOCATED := ks, pg := g', PROCESS_TABLE := (PROCESS_TABLE s3)[i := Some (started (lit ''init'') 0 (files ''init'') init_args 1 sp stk t)]\<rparr>) = Inr stk"
    "spaces g' [r, t] ps'"
    using spawn_spec [OF sp3 init_args_ok, of "lit ''init''" 0] unfolding Let_def f3(4) kr one_add_one by (elim exE conjE) (rule that)
  have "replicate 50 (None :: Process option) = None # replicate 49 None" by (simp flip: replicate_Suc)
  then have i: "i = 0" using w(1) f3(5) by (simp add: pt.first_vacant_def)
  define p where "p = started (lit ''init'') 0 (files ''init'') init_args 1 sp stk t"
  have e: "s3\<lparr>NEXT_PID := 2, KERNEL_STACKS_ALLOCATED := ks, pg := g', PROCESS_TABLE := (PROCESS_TABLE s3)[i := Some p]\<rparr> = booted files intro g r tp l' rx now freq p ks g'"
    by (simp add: s3_def booted_def i raw_write_def reset_state_def boot_state_def)
  note w' = w(2,6,7) [folded p_def, unfolded e]
  have st: "raw_write (lit ''Hello there!'') (?s0\<lparr>cpu := daif_unmask_all (cpu ?s0)\<rparr>\<lparr>pg := init_frames (tp + 0x2000) (ttbr1_to_va 0x3EFFE000) (pg (?s0\<lparr>cpu := daif_unmask_all (cpu ?s0)\<rparr>))\<rparr>) = ?s1"
    by (simp add: boot_memory_def reset_state_def boot_state_def)
  have "rust_main files intro tp ws ?s0 d ctl = Inr (ws, booted files intro g r tp l' rx now freq p ks g', uart_setup d, init_irq ctl)"
    unfolding rust_main_def KernelIO_init_spec [OF idle0] kbind_simps prod.case Let_def st pr run
    by (simp add: run_executable_def read_init w' unwrap_def)
  then show ?thesis using w(3-5,8) w'(2,3) unfolding Let_def p_def
    by (intro exI [of _ ks] exI [of _ g'] exI [of _ ps'] exI [of _ stk] exI [of _ sp] exI [of _ t]) (simp add: init_args_def)
qed

lemma wakeup_ready:
  assumes "\<And>p. Some p \<in> set (PROCESS_TABLE s) \<Longrightarrow> state p \<noteq> Blocked"
  shows "wakeup c s = s"
proof -
  have "map (map_option (\<lambda>p. if state p = Blocked \<and> chan p = c then (set_state Ready p)\<lparr>block_reason := None, chan := 0\<rparr> else p)) (PROCESS_TABLE s) = PROCESS_TABLE s"
    by (intro map_idI) (case_tac x; auto dest: assms)
  then show ?thesis by (simp add: wakeup_def)
qed

lemma start_runs_first:
  assumes t: "PROCESS_TABLE s = (replicate 50 None)[0 := Some p]" "state p = Ready" "CURRENT_PROCESS s = 1" and l: "LSR s = v # l"
    and clock: "unat (cntfrq s) < 2 ^ 32" "unat (cntpct s) < 2 ^ 63" and c: "etype ctx = E_SYNC" "esource ctx = EL1h" "esr ctx = 0x56000000"
  shows "\<exists>cv s'. unat cv = unat (cntpct s) + unat (cntfrq s) * 9 div 1000
     \<and> s' = dispatched 0 p (s\<lparr>cpu := daif_mask_all (cpu s), LSR := l, CNTP_CVAL := cv, CNTP_CTL := CNTP_CTL s OR 1\<rparr>)
     \<and> scheduler_start files intro ticks irq ctx ws s = Inr (update_from_pctx (pctx p) ctx, ws, s') \<and> sched_inv s'"
proof -
  let ?s1 = "s\<lparr>cpu := daif_mask_all (cpu s), LSR := l\<rparr>"
  obtain cv where rt: "reset_timer ?s1 = Inr (?s1\<lparr>CNTP_CVAL := cv, CNTP_CTL := CNTP_CTL s OR 1\<rparr>)" "unat cv = unat (cntpct s) + unat (cntfrq s) * 9 div 1000"
    using reset_timer_ok [of ?s1] clock by auto
  let ?s2 = "?s1\<lparr>CNTP_CVAL := cv, CNTP_CTL := CNTP_CTL s OR 1\<rparr>"
  have nth: "PROCESS_TABLE s ! j = (if j = 0 then Some p else None)" if "j < 50" for j using t(1) that by (simp add: nth_list_update)
  have "wakeup AWAITING_UART_READ ?s1 = ?s1" by (rule wakeup_ready) (use t(1,2) in \<open>auto dest!: set_update_subset_insert [THEN subsetD]\<close>)
  then have aw: "awake_common_chans (s\<lparr>cpu := daif_mask_all (cpu s)\<rparr>) = Inr ?s1" using l by (simp add: awake_common_chans_def read_LSR_def)
  have "get_current_process ?s1 = None" using nth [of 1] t(3) by (simp add: get_current_process_def find_by_ptable_index_def MAX_PROCESSES_def)
  then have su: "suspend ctx ?s1 = Inr ?s1" by (simp add: suspend_def)
  have f2: "PROCESS_TABLE ?s2 = PROCESS_TABLE s" "CURRENT_PROCESS ?s2 = 1" using t(3) by simp_all
  have inv: "sched_inv ?s2" using f2 t nth by (auto simp: sched_inv_def in_state_def)
  have rf: "ready_from ?s2 j \<longleftrightarrow> (1 + j) mod 50 = 0" for j using f2 nth t(2) by (simp add: ready_from_def in_state_def)
  have nr: "\<not> in_state Running (PROCESS_TABLE ?s2 ! CURRENT_PROCESS ?s2)" using f2 nth [of 1] by (simp add: in_state_def)
  have "(CURRENT_PROCESS ?s2 + 49) mod 50 = 0" using f2 by simp
  moreover have "\<not> ready_from ?s2 j" if "1 \<le> j" "j < 49" for j using that unfolding rf by simp
  ultimately obtain q where q: "PROCESS_TABLE ?s2 ! 0 = Some q" "schedule_next ctx ?s2 = Inr (update_from_pctx (pctx q) ctx, dispatched 0 q ?s2)" "sched_inv (dispatched 0 q ?s2)"
    using schedule_next_ready [OF inv nr, of 49 ctx] rf [of 49] by auto
  have "q = p" using q(1) f2 nth [of 0] by simp
  moreover have "scheduler_start files intro ticks irq ctx ws s = Inr (update_from_pctx (pctx q) ctx, ws, dispatched 0 q ?s2)"
    using c aw su rt(1) q(2) by (simp add: scheduler_start_def handle_exception_el1_def was_from_user_el0_def handle_sync_exception_def)
  ultimately show ?thesis using q(3) rt(2) by (intro exI [of _ cv] exI [of _ "dispatched 0 p ?s2"]) simp
qed

section \<open>Properties\<close>


section \<open>The last messages\<close>

lemma the_end_spec:
  assumes "io_idle s" "after_tx (length (crlf (unlines ts))) (LSR s) = Some l" "unat (cntfrq s) < 2 ^ 32" "unat (cntpct s) < 2 ^ 63"
    "ts = [lit ''----------THE END-----------'', lit ''All processes have completed/terminated.'',
       lit ''There is nothing left to do. You may power off your device now.'', lit ''----------------------------'']"
  shows "\<exists>s'. the_end ws s = Inr (ws, s') \<and> UART_TX s' = UART_TX s @ map ucast (crlf (unlines ts)) \<and> \<not> bit (CNTP_CTL s') 0"
proof -
  let ?s = "s\<lparr>LSR := l, UART_TX := UART_TX s @ map ucast (crlf (unlines ts))\<rparr>"
  obtain v where "set_seconds 1 ?s = Inr (?s\<lparr>CNTP_CVAL := v\<rparr>)" using set_second_ok [of ?s] assms(3,4) by auto
  then show ?thesis using kprint_lines_spec [OF assms(1,2), of ws] unfolding the_end_def assms(5) [symmetric] by (simp add: timer_disable_def bit_simps)
qed

text \<open>A panic can only be reported when the I/O mutex is free: raised by code that holds it, the handler waits for the mutex in turn and prints nothing.\<close>

lemma panic_while_printing:
  assumes "mutex_ok s" "mlock (mutex s)"
  shows "\<exists>h. kernel_panic loc msg [] s = Inl h"
  using mx.acquire_held [OF assms] by (auto simp: kernel_panic_def kprintln_def kio_print_def kbind_def split: sum.splits)

text \<open>The dump of the registers is faithful: different values are printed differently.\<close>

lemma hex_digit_inj: "a < 16 \<Longrightarrow> b < 16 \<Longrightarrow> hex_digit a = hex_digit b \<Longrightarrow> a = b"
proof -
  assume ab: "a < 16" "b < 16" "hex_digit a = hex_digit b"
  have u: "unat (hex_digit d) = (if d < 10 then 0x30 + d else 0x57 + d)" if "d < 16" for d
    using that by (simp add: hex_digit_def unat_word_ariths unat_of_nat)
  have "(if a < 10 then 0x30 + a else 0x57 + a) = (if b < 10 then 0x30 + b else 0x57 + b)" unfolding u [OF ab(1), symmetric] u [OF ab(2), symmetric] ab(3) ..
  then show ?thesis using ab(1,2) by (simp split: if_splits)
qed

lemma hex16_inj:
  assumes "hex16 w = hex16 v"
  shows "w = v"
proof (rule bit_word_eqI)
  fix n assume n: "n < LENGTH(64)"
  let ?d = "\<lambda>w i. unat (drop_bit (4 * i) w AND (0xF :: u64))"
  have m: "(0xF :: u64) = mask 4" by (simp add: mask_eq_exp_minus_1)
  have lt: "?d w i < 16" for w i
    using word_and_le1 [of "drop_bit (4 * i) w" "0xF :: u64"] by (simp add: word_le_nat_alt)
  have "map (\<lambda>i. hex_digit (?d w i)) [0..<16] = map (\<lambda>i. hex_digit (?d v i)) [0..<16]"
    using assms unfolding hex16_def by (simp add: rev_map [symmetric] del: upt_rec_numeral)
  then have "hex_digit (?d w (n div 4)) = hex_digit (?d v (n div 4))" using n by (simp add: map_eq_conv div_less_iff_less_mult del: upt_rec_numeral)
  then have "?d w (n div 4) = ?d v (n div 4)" using hex_digit_inj lt by blast
  then have "drop_bit (4 * (n div 4)) w AND mask 4 = drop_bit (4 * (n div 4)) v AND mask 4" unfolding m by (simp only: word_unat_eq_iff)
  then have "bit (drop_bit (4 * (n div 4)) w AND mask 4) (n mod 4) = bit (drop_bit (4 * (n div 4)) v AND mask 4) (n mod 4)" by simp
  moreover have "n mod 4 < 64" by (rule less_trans [OF mod_less_divisor]) simp_all
  ultimately show "bit w n = bit v n" by (simp add: bit_simps)
qed

section \<open>A machine that boots\<close>

lemma table_written:
  assumes "is_frame_pa t" "n \<le> 512"
  shows "\<exists>m'. (\<forall>i < n. entry m' t i = es i) \<and> keeps {t} m m'"
  using assms(2)
proof (induction n)
  case 0
  then show ?case by (intro exI [of _ m]) simp
next
  case (Suc n)
  then obtain m' where m': "\<forall>i < n. entry m' t i = es i" "keeps {t} m m'" by auto
  let ?s = "set_entry t n (es n) \<lparr>ram = m', FREE_FRAME_LIST = None, FREE_FRAME_COUNT = 0, TOTAL_FRAME_COUNT = 0, ttbr0_el1 = 0\<rparr>"
  have "keeps {t} m' (ram ?s)"
    using keeps_set_entry [OF assms(1), of n "\<lparr>ram = m', FREE_FRAME_LIST = None, FREE_FRAME_COUNT = 0, TOTAL_FRAME_COUNT = 0, ttbr0_el1 = 0\<rparr>" "es n"] Suc.prems by simp
  then have "keeps {t} m (ram ?s)" using keeps_trans [OF m'(2)] by fastforce
  moreover have "\<forall>i < Suc n. entry (ram ?s) t i = es i" using m'(1) assms(1) Suc.prems by (auto simp: less_Suc_eq)
  ultimately show ?case by blast
qed

lemma demo_image: "\<exists>g. kernel_image g 0x90000 0x91000 0x92000 0xffffff8000100000"
proof -
  let ?r = "0x90000 :: u64" and ?a = "0x91000 :: u64" and ?b = "0x92000 :: u64"
  have f: "is_frame_pa ?r" "is_frame_pa ?a" "is_frame_pa ?b" by (simp_all add: is_frame_pa_def page_aligned_def ttbr1_to_pa_def)
  obtain m1 where m1: "\<forall>i < 512. entry m1 ?a i = kernel_l2_0 ! i" using table_written [OF f(2), of 512 "(!) kernel_l2_0" "\<lambda>_. 0"] by auto
  obtain m2 where m2: "\<forall>i < 512. entry m2 ?b i = kernel_l2_1 ! i" "keeps {?b} m1 m2" using table_written [OF f(3), of 512 "(!) kernel_l2_1" m1] by auto
  obtain m3 where m3: "\<forall>i < 512. entry m3 ?r i = (if i = 0 then ?a OR 3 else if i = 1 then ?b OR 3 else 0)" "keeps {?r} m2 m3"
    using table_written [OF f(1), of 512 "\<lambda>i. if i = 0 then ?a OR 3 else if i = 1 then ?b OR 3 else 0" m2] by auto
  have "entry m3 ?b i = kernel_l2_1 ! i" "entry m3 ?a i = kernel_l2_0 ! i" if "i < 512" for i
    using m1 m2 m3(2) that f keeps_entry [OF m3(2) f(3), of i] keeps_entry [OF m3(2) f(2), of i] keeps_entry [OF m2(2) f(2), of i] by simp_all
  then have "kernel_tables m3 ?r ?a ?b" using f m3(1) by (simp add: kernel_tables_def)
  then show ?thesis
    by (intro exI [of _ "\<lparr>ram = m3, FREE_FRAME_LIST = None, FREE_FRAME_COUNT = 0, TOTAL_FRAME_COUNT = 0, ttbr0_el1 = 0\<rparr>"])
      (simp add: kernel_image_def page_aligned_def ttbr1_to_va_def)
qed

lemma after_tx_idle: "after_tx n (replicate (n + 1) 0x20) = Some [0x20]"
  by (induction n) simp_all


end
