(* ===== verification/UserSys.thy ===== *)
theory UserSys
  imports Args
begin

text \<open>
  User programs as seen from the kernel: the system call wrappers of \<^verbatim>\<open>user/src/stdlib\<close> and the runtime of \<^verbatim>\<open>user/src/lib.rs\<close>. A program makes calls
  and gets replies, the values of x0 and x1 and, for a read, the bytes stored into its buffer; \<open>replies\<close> supplies them in order and \<open>calls\<close> records the calls. A
  program that needs a reply that is not there is still waiting in its last call (after \<^verbatim>\<open>svc #3\<close> it always is). A slice argument is passed by its contents.
  A formatted print is one write of the bytes it produces (the formatting machinery may split it into several). User programs are debug builds: an index out of range
  or an arithmetic overflow panics.
\<close>

datatype call = SvcTrap | SvcWrite "u8 list" | SvcRead nat | SvcExit u64 | SvcFork | SvcExec "u8 list list" | SvcWait u64
  | SvcPoll | SvcSleep u64 | SvcOsInfo | SvcPInfo

record reply =
  r0 :: u64
  r1 :: u64
  rdata :: "u8 list"

record uenv =
  replies :: "reply list"
  calls :: "call list"

datatype ustop = Waits | Upanic string | Loops

type_synonym 'a uprog = "uenv \<Rightarrow> (ustop \<times> uenv) + ('a \<times> uenv)"

definition uret :: "'a \<Rightarrow> 'a uprog" where
  "uret a e = Inr (a, e)"

definition ubind :: "'a uprog \<Rightarrow> ('a \<Rightarrow> 'b uprog) \<Rightarrow> 'b uprog" where
  "ubind m f e = (case m e of Inl x \<Rightarrow> Inl x | Inr (a, e) \<Rightarrow> f a e)"

definition upanic :: "string \<Rightarrow> 'a uprog" where
  "upanic msg e = Inl (Upanic msg, e)"

definition usys :: "call \<Rightarrow> reply uprog" where
  "usys c e = (let e = e\<lparr>calls := calls e @ [c]\<rparr> in
     case replies e of [] \<Rightarrow> Inl (Waits, e) | r # rs \<Rightarrow> Inr (r, e\<lparr>replies := rs\<rparr>))"

section \<open>The wrappers\<close>

definition trap :: "unit uprog" where
  "trap = ubind (usys SvcTrap) (\<lambda>_. uret ())"

definition sys_write :: "u8 list \<Rightarrow> unit uprog" where
  "sys_write s = ubind (usys (SvcWrite s)) (\<lambda>_. uret ())"

definition sys_readline :: "u8 list \<Rightarrow> (nat \<times> u8 list) uprog" where
  "sys_readline buf = ubind (usys (SvcRead (length buf))) (\<lambda>r.
     uret (unat (r0 r), take (length buf) (rdata r) @ drop (length (rdata r)) buf))"

definition get_p_info :: "(u64 \<times> u64) uprog" where
  "get_p_info = ubind (usys SvcPInfo) (\<lambda>r. uret (r0 r, r1 r))"

definition uexit :: "u64 \<Rightarrow> 'a uprog" where
  "uexit code =
     ubind get_p_info (\<lambda>_.
     ubind (usys (SvcExit code)) (\<lambda>_.
     ubind get_p_info (\<lambda>_. \<lambda>e. Inl (Loops, e))))"

definition ufork :: "(string + u64) uprog" where
  "ufork = ubind (usys SvcFork) (\<lambda>r. uret (if r0 r = -1 then Inl ''fork failed'' else Inr (r0 r)))"

definition uexec :: "u8 list \<Rightarrow> u8 list list \<Rightarrow> (string + unit) uprog" where
  "uexec file args =
     (if 32 < length args + 1 then uret (Inl ''too many arguments'')
      else ubind (usys (SvcExec (file # args))) (\<lambda>r. uret (if r0 r = -1 then Inl ''exec failed'' else Inr ())))"

definition uwait :: "u64 option \<Rightarrow> (string + u64 \<times> u64) uprog" where
  "uwait p = ubind (usys (SvcWait (case p of None \<Rightarrow> 0 | Some v \<Rightarrow> v))) (\<lambda>r.
     uret (if r0 r = -1 then Inl ''wait failed'' else Inr (r0 r, r1 r)))"

definition upoll_char :: "u8 uprog" where
  "upoll_char = ubind (usys SvcPoll) (\<lambda>r. uret (ucast (r0 r)))"

definition usleep :: "u64 \<Rightarrow> unit uprog" where
  "usleep ms = ubind (usys (SvcSleep ms)) (\<lambda>_. uret ())"

definition show_os_info :: "unit uprog" where
  "show_os_info = ubind (usys SvcOsInfo) (\<lambda>_. uret ())"

definition uprint :: "u8 list \<Rightarrow> unit uprog" where
  "uprint s = sys_write s"

definition uprintln :: "u8 list \<Rightarrow> unit uprog" where
  "uprintln s = uprint (s @ [0x0A])"

definition spawn :: "u8 list \<Rightarrow> u8 list list \<Rightarrow> (string + unit) uprog" where
  "spawn file args =
     ubind ufork (\<lambda>r. case r of
       Inr fc \<Rightarrow>
         if fc = 0 then uexec file args
         else ubind (uwait (Some fc)) (\<lambda>w. uret (case w of Inl e \<Rightarrow> Inl e | Inr _ \<Rightarrow> Inr ()))
     | Inl _ \<Rightarrow> uret (Inl ''fork failed''))"

definition uexpect :: "string \<Rightarrow> string + 'a \<Rightarrow> 'a uprog" where
  "uexpect msg r = (case r of Inl e \<Rightarrow> upanic msg | Inr v \<Rightarrow> uret v)"

definition prefix_slice :: "'a list \<Rightarrow> nat \<Rightarrow> 'a list uprog" where
  "prefix_slice xs n = (if length xs < n then upanic ''range end index out of range for slice'' else uret (take n xs))"

section \<open>The runtime\<close>

definition entry_start :: "unit uprog \<Rightarrow> 'a uprog" where
  "entry_start main = ubind main (\<lambda>_. uexit 0)"

definition entry_args_start :: "u64 \<Rightarrow> u64 \<Rightarrow> u64 \<Rightarrow> (nat \<Rightarrow> u8 option) \<Rightarrow> (u8 list list \<Rightarrow> unit uprog) \<Rightarrow> 'a uprog" where
  "entry_args_start argc fsp stack_bottom mem main =
     (case parse_args argc fsp stack_bottom mem of
        Inl e \<Rightarrow> upanic e
      | Inr args \<Rightarrow> ubind (main args) (\<lambda>_. uexit 0))"

section \<open>Running\<close>

lemma ubind_simps [simp]:
  "ubind (uret a) f = f a" "ubind (upanic msg) f = upanic msg" "ubind (ubind m f) g = ubind m (\<lambda>a. ubind (f a) g)"
  by (auto simp: fun_eq_iff ubind_def uret_def upanic_def split: sum.splits)

lemma ubind_if: "ubind (if b then m else m') f = (if b then ubind m f else ubind m' f)"
  by simp

lemma ubind_cong [fundef_cong]: "m = m' \<Longrightarrow> (\<And>a. f a = f' a) \<Longrightarrow> ubind m f = ubind m' f'"
  by (simp add: fun_eq_iff ubind_def split: sum.splits)

text \<open>No program gets back a reply it has used.\<close>

definition shrinks :: "'a uprog \<Rightarrow> bool" where
  "shrinks m \<longleftrightarrow> (\<forall>e a e'. m e = Inr (a, e') \<longrightarrow> length (replies e') \<le> length (replies e))"

lemma usys_shorter: "usys c e = Inr (r, e') \<Longrightarrow> length (replies e') < length (replies e)"
  by (auto simp: usys_def Let_def split: list.splits)

lemma shrinks_basic: "shrinks (uret a)" "shrinks (upanic msg)" "shrinks (usys c)" "shrinks (\<lambda>e. Inl (x, e))"
  by (auto simp: shrinks_def uret_def upanic_def intro: less_imp_le usys_shorter)

lemma shrinks_bind: "shrinks m \<Longrightarrow> (\<And>a. shrinks (f a)) \<Longrightarrow> shrinks (ubind m f)"
  unfolding shrinks_def ubind_def by (auto split: sum.splits) (meson le_trans)

lemma shrinks_if: "(b \<Longrightarrow> shrinks m) \<Longrightarrow> (\<not> b \<Longrightarrow> shrinks m') \<Longrightarrow> shrinks (if b then m else m')"
  by simp

lemma ubind_usys_shorter: "ubind (usys c) f e = Inr (a, e') \<Longrightarrow> (\<And>r. shrinks (f r)) \<Longrightarrow> length (replies e') < length (replies e)"
  by (auto simp: ubind_def shrinks_def split: sum.splits dest!: usys_shorter) (meson le_less_trans)

text \<open>A call is answered by the next reply; what the wrappers do with it is evaluated by these equations.\<close>

named_theorems urun

lemma usys_run [urun]:
  "ubind (usys c) f \<lparr>replies = r # rs, calls = cs\<rparr> = f r \<lparr>replies = rs, calls = cs @ [c]\<rparr>"
  "ubind (usys c) f \<lparr>replies = [], calls = cs\<rparr> = Inl (Waits, \<lparr>replies = [], calls = cs @ [c]\<rparr>)"
  by (simp_all add: ubind_def usys_def)

lemmas wrapper_defs [urun] = trap_def sys_write_def sys_readline_def get_p_info_def uexit_def ufork_def uexec_def uwait_def upoll_char_def usleep_def
  show_os_info_def uprint_def uprintln_def spawn_def uexpect_def prefix_slice_def entry_start_def

lemma shrinks_wrappers:
  "shrinks trap" "shrinks (sys_write s)" "shrinks (sys_readline buf)" "shrinks get_p_info" "shrinks (uexit c)" "shrinks ufork" "shrinks (uexec p as)"
  "shrinks (uwait w)" "shrinks upoll_char" "shrinks (usleep ms)" "shrinks show_os_info" "shrinks (uprint s)" "shrinks (uprintln s)" "shrinks (prefix_slice xs n)"
  by (auto simp: wrapper_defs intro!: shrinks_bind shrinks_basic)

lemmas shrinks_intros = shrinks_bind shrinks_basic shrinks_wrappers shrinks_if

lemma ubind_uret: "ubind m uret = m" "ubind m (\<lambda>_. uret ()) = m"
  by (auto simp: fun_eq_iff ubind_def uret_def split: sum.splits)

lemma uret_run [urun]: "uret a e = Inr (a, e)"
  by (simp add: uret_def)

lemma upanic_run [urun]: "upanic msg e = Inl (Upanic msg, e)"
  by (simp add: upanic_def)

end
