(* ===== verification/Programs.thy ===== *)
theory Programs
  imports UserSys
begin

text \<open>
  The small programs of \<^verbatim>\<open>user/src/bin\<close>: \<^verbatim>\<open>wc\<close>, \<^verbatim>\<open>echo\<close>, \<^verbatim>\<open>clear\<close>, \<^verbatim>\<open>info\<close> and \<^verbatim>\<open>init\<close>. Their counters are \<^verbatim>\<open>i32\<close> (the default integer type), which a buffer of
  1024 bytes cannot overflow; they are naturals here.
\<close>

section \<open>Definitions\<close>

fun wc_loop :: "u8 list \<Rightarrow> nat \<Rightarrow> nat \<Rightarrow> bool \<Rightarrow> nat \<times> nat" where
  "wc_loop [] lines words in_word = (lines, words)"
| "wc_loop (c # cs) lines words in_word =
     (let lines = (if c = 0x0A then lines + 1 else lines) in
      if is_ascii_whitespace c then wc_loop cs lines words False
      else if \<not> in_word then wc_loop cs lines (words + 1) True
      else wc_loop cs lines words in_word)"

definition wc_main :: "unit uprog" where
  "wc_main =
     ubind (sys_readline (replicate 1024 0)) (\<lambda>(n, buf).
     ubind (prefix_slice buf n) (\<lambda>bytes.
     let (lines, words) = wc_loop bytes 0 0 False in
     uprintln (decimal lines @ [0x20] @ decimal words @ [0x20] @ decimal n)))"

primrec echo_loop :: "u8 list list \<Rightarrow> nat \<Rightarrow> unit uprog" where
  "echo_loop [] i = uret ()"
| "echo_loop (arg # args) i =
     ubind (if 1 < i then uprint [0x20] else uret ()) (\<lambda>_.
     ubind (uprint arg) (\<lambda>_. echo_loop args (i + 1)))"

definition echo_main :: "u8 list list \<Rightarrow> unit uprog" where
  "echo_main args = ubind (echo_loop (drop 1 args) 1) (\<lambda>_. uprintln [])"

definition clear_main :: "unit uprog" where
  "clear_main = uprint (0x1B # lit ''[2J'' @ 0x1B # lit ''[1;1H'')"

definition info_main :: "unit uprog" where
  "info_main = show_os_info"

lemma uwait_shorter: "uwait p e = Inr (r, e') \<Longrightarrow> length (replies e') < length (replies e)"
  unfolding uwait_def by (erule ubind_usys_shorter) (rule shrinks_basic)

function init_reap :: "uenv \<Rightarrow> (ustop \<times> uenv) + (unit \<times> uenv)" where
  "init_reap e = (case uwait None e of
     Inl x \<Rightarrow> Inl x
   | Inr (Inr _, e) \<Rightarrow> init_reap e
   | Inr (Inl _, e) \<Rightarrow> uexit 0 e)"
  by pat_completeness auto

termination
  by (relation "measure (length \<circ> replies)") (auto dest: uwait_shorter)

definition init_main :: "unit uprog" where
  "init_main =
     ubind get_p_info (\<lambda>(p, _).
     ubind (if p \<noteq> 1
            then ubind (uprintln (lit ''spawning 'init' program from user space is not permitted! 'init' program is quitting...'')) (\<lambda>_. uexit 1)
            else uret ()) (\<lambda>_.
     ubind (spawn (lit ''shell'') []) (\<lambda>r.
     ubind (uexpect ''failed to spawn shell'' r) (\<lambda>_. init_reap))))"

declare init_reap.simps [simp del]

section \<open>wc\<close>

function words_of :: "u8 list \<Rightarrow> u8 list list" where
  "words_of bs = (let r = dropWhile is_ascii_whitespace bs in
     if r = [] then [] else takeWhile (\<lambda>b. \<not> is_ascii_whitespace b) r # words_of (dropWhile (\<lambda>b. \<not> is_ascii_whitespace b) r))"
  by pat_completeness auto

termination
proof (relation "measure length")
  fix bs r :: "u8 list" assume r: "r = dropWhile is_ascii_whitespace bs" "r \<noteq> []"
  have "\<not> is_ascii_whitespace (hd r)" using r hd_dropWhile by blast
  then have "length (dropWhile (\<lambda>b. \<not> is_ascii_whitespace b) r) < length r" using r(2) by (cases r) (auto simp: le_imp_less_Suc length_dropWhile_le)
  also have "length r \<le> length bs" unfolding r(1) by (rule length_dropWhile_le)
  finally show "(dropWhile (\<lambda>b. \<not> is_ascii_whitespace b) r, bs) \<in> measure length" by simp
qed simp

declare words_of.simps [simp del]

lemma words_of_simps [simp]:
  "words_of [] = []"
  "is_ascii_whitespace c \<Longrightarrow> words_of (c # cs) = words_of cs"
  "\<not> is_ascii_whitespace c \<Longrightarrow> length (words_of (c # cs)) = Suc (length (words_of (dropWhile (\<lambda>b. \<not> is_ascii_whitespace b) cs)))"
  by (simp_all add: words_of.simps [of "[]"] words_of.simps [of "c # cs"] words_of.simps [of cs] Let_def)

lemma wc_loop_spec:
  "wc_loop bs l w b = (l + count_list bs 0x0A,
     w + length (words_of (if b then dropWhile (\<lambda>c. \<not> is_ascii_whitespace c) bs else bs)))"
  by (induction bs arbitrary: l w b) (auto simp: is_ascii_whitespace_def Let_def)

text \<open>C39. \<^verbatim>\<open>wc\<close> counts: for the line it is given it prints the number of newlines, of words (maximal runs of bytes that are not white space) and of bytes.\<close>

theorem wc_correct:
  assumes "unat (r0 line) = length (rdata line)" "length (rdata line) \<le> 1024"
  shows "wc_main \<lparr>replies = line # ack # rs, calls = cs\<rparr> = Inr ((), \<lparr>replies = rs, calls = cs @ [SvcRead 1024,
     SvcWrite (decimal (count_list (rdata line) 0x0A) @ [0x20] @ decimal (length (words_of (rdata line))) @ [0x20] @ decimal (length (rdata line)) @ [0x0A])]\<rparr>)"
  using assms by (simp add: wc_main_def urun wc_loop_spec Let_def)

theorem wc_correct_witness:
  "wc_main \<lparr>replies = [\<lparr>r0 = 7, r1 = 0, rdata = lit ''a  bc '' @ [0x0A]\<rparr>, \<lparr>r0 = 0, r1 = 0, rdata = []\<rparr>], calls = []\<rparr>
     = Inr ((), \<lparr>replies = [], calls = [SvcRead 1024, SvcWrite (lit ''1 2 7'' @ [0x0A])]\<rparr>)"
proof -
  let ?l = "\<lparr>r0 = 7, r1 = 0, rdata = lit ''a  bc '' @ [0x0A]\<rparr> :: reply"
  have "count_list (rdata ?l) 0x0A = 1" "length (words_of (rdata ?l)) = 2" "length (rdata ?l) = 7"
    by (simp_all add: lit_def words_of.simps is_ascii_whitespace_def)
  then show ?thesis
    using wc_correct [of ?l "\<lparr>r0 = 0, r1 = 0, rdata = []\<rparr>" "[]" "[]"] by (simp add: decimal.simps lit_def)
qed

section \<open>echo\<close>

definition echo_calls :: "u8 list list \<Rightarrow> call list" where
  "echo_calls args =
     (case drop 1 args of [] \<Rightarrow> [] | a # as \<Rightarrow> SvcWrite a # concat (map (\<lambda>x. [SvcWrite [0x20], SvcWrite x]) as)) @ [SvcWrite [0x0A]]"

lemma uprint_run: "ubind (uprint s) f \<lparr>replies = r # rs, calls = cs\<rparr> = f () \<lparr>replies = rs, calls = cs @ [SvcWrite s]\<rparr>"
  by (simp add: urun)

lemma echo_loop_run:
  "2 \<le> i \<Longrightarrow> length rs = 2 * length as \<Longrightarrow>
   ubind (echo_loop as i) f \<lparr>replies = rs @ rest, calls = cs\<rparr> = f () \<lparr>replies = rest, calls = cs @ concat (map (\<lambda>x. [SvcWrite [0x20], SvcWrite x]) as)\<rparr>"
proof (induction "as" arbitrary: i rs cs)
  case Nil
  then show ?case by simp
next
  case (Cons a "as")
  then obtain r r' rs' where "rs = r # r' # rs'" by (cases rs; cases "tl rs") auto
  then show ?case using Cons by (simp add: uprint_run)
qed

lemma echo_run:
  assumes "length rs = length (echo_calls args)"
  shows "ubind (echo_main args) f \<lparr>replies = rs @ rest, calls = cs\<rparr> = f () \<lparr>replies = rest, calls = cs @ echo_calls args\<rparr>"
proof (cases "drop 1 args")
  case Nil
  then obtain r where "rs = [r]" using assms by (cases rs) (auto simp: echo_calls_def)
  then show ?thesis using Nil by (simp add: echo_main_def echo_calls_def uprintln_def uprint_run)
next
  case (Cons a "as")
  then obtain r rs1 where r: "rs = r # rs1" "length rs1 = 2 * length as + 1"
    using assms by (cases rs) (auto simp: echo_calls_def length_concat comp_def sum_list_triv)
  then obtain rs2 r2 where rs2: "rs1 = rs2 @ [r2]" "length rs2 = 2 * length as" by (cases rs1 rule: rev_cases) auto
  show ?thesis unfolding echo_main_def using Cons r(1) rs2
    by (simp add: uprint_run echo_loop_run [OF _ rs2(2)] uprintln_def echo_calls_def)
qed

text \<open>C19. From exec to output: \<^verbatim>\<open>echo\<close> started with the registers and the memory that the kernel's \<^verbatim>\<open>initialize_args\<close> prepared writes exactly its arguments after the first,
  separated by single spaces, then a newline, and exits with code 0.\<close>

theorem echo_end_to_end:
  assumes "owned g (ttbr0 (pctx p)) ps" "args_fit args" "list_all utf8_valid args" "4096 \<le> unat (sp_el0 (pctx p))" "unat (sp_el0 (pctx p)) \<le> 2 ^ 39"
    "\<forall>x. unat (sp_el0 (pctx p)) - 4096 \<le> x \<longrightarrow> x < unat (sp_el0 (pctx p)) \<longrightarrow> mapped (of_nat x) (ttbr0 (pctx p)) g"
    "length (regs (pctx p)) = 31" "length rs = length (echo_calls args)"
  shows "\<exists>p' g'. initialize_args args p g = (Inr p', g')
     \<and> entry_args_start (regs (pctx p') ! 0) (regs (pctx p') ! 1) (regs (pctx p') ! 2) (umem g' (ttbr0 (pctx p'))) echo_main \<lparr>replies = rs @ [ack], calls = []\<rparr>
       = (Inl (Waits, \<lparr>replies = [], calls = echo_calls args @ [SvcPInfo, SvcExit 0]\<rparr>) :: (ustop \<times> uenv) + (unit \<times> uenv))"
proof -
  obtain p' g' where i: "initialize_args args p g = (Inr p', g')"
    "parse_args (regs (pctx p') ! 0) (regs (pctx p') ! 1) (regs (pctx p') ! 2) (umem g' (ttbr0 (pctx p'))) = Inr args"
    using args_read_back [OF assms(1-7)] by blast
  then show ?thesis
    by (intro exI [of _ p'] exI [of _ g']) (simp add: entry_args_start_def echo_run [OF assms(8)] uexit_def get_p_info_def usys_run)
qed

theorem echo_end_to_end_witness:
  "\<exists>g p p' g' rs ack. initialize_args [lit ''echo'', lit ''hi'', lit ''you''] p g = (Inr p', g')
     \<and> entry_args_start (regs (pctx p') ! 0) (regs (pctx p') ! 1) (regs (pctx p') ! 2) (umem g' (ttbr0 (pctx p'))) echo_main \<lparr>replies = rs @ [ack], calls = []\<rparr>
       = (Inl (Waits, \<lparr>replies = [], calls = [SvcWrite (lit ''hi''), SvcWrite [0x20], SvcWrite (lit ''you''), SvcWrite [0x0A], SvcPInfo, SvcExit 0]\<rparr>)
           :: (ustop \<times> uenv) + (unit \<times> uenv))"
proof -
  obtain g ps where g: "owned g 0x107000 ps" "\<forall>x. 0x400000 \<le> x \<and> x < 0x401000 \<longrightarrow> mapped (of_nat x) 0x107000 g" using demo_page by blast
  let ?p = "\<lparr>pid = 1, name = [], state = Ready, block_reason = None, parent_pid = 0, pctx = ProcessContext_new 0x400000 0x401000 0 0x107000, chan = 0, exit_code = 0\<rparr>"
  let ?args = "[lit ''echo'', lit ''hi'', lit ''you'']" and ?ack = "\<lparr>r0 = 0, r1 = 0, rdata = []\<rparr> :: reply"
  have u: "unat (0x401000 :: u64) = 0x401000" by simp
  have a: "args_fit ?args" "list_all utf8_valid ?args" by (simp_all add: args_fit_def lit_def)
  have e: "echo_calls ?args = [SvcWrite (lit ''hi''), SvcWrite [0x20], SvcWrite (lit ''you''), SvcWrite [0x0A]]" by (simp add: echo_calls_def)
  have "\<forall>x. 0x401000 - 4096 \<le> x \<longrightarrow> x < 0x401000 \<longrightarrow> mapped (of_nat x) 0x107000 g" using g(2) by simp
  then obtain p' g' where "initialize_args ?args ?p g = (Inr p', g')"
    "entry_args_start (regs (pctx p') ! 0) (regs (pctx p') ! 1) (regs (pctx p') ! 2) (umem g' (ttbr0 (pctx p'))) echo_main \<lparr>replies = replicate 4 ?ack @ [?ack], calls = []\<rparr>
       = (Inl (Waits, \<lparr>replies = [], calls = echo_calls ?args @ [SvcPInfo, SvcExit 0]\<rparr>) :: (ustop \<times> uenv) + (unit \<times> uenv))"
    using echo_end_to_end [of g ?p ps ?args "replicate 4 ?ack" ?ack] g(1) a e by (auto simp: ProcessContext_new_def u)
  then show ?thesis unfolding e append.simps by blast
qed

end
