(* ===== verification/TestPrograms.thy ===== *)
theory TestPrograms
  imports Programs
begin

text \<open>
  The panic handler of the user runtime, the program \<^verbatim>\<open>help\<close> and the three programs that exercise the process calls, \<^verbatim>\<open>exectest\<close>, \<^verbatim>\<open>ptest\<close> and \<^verbatim>\<open>waittest\<close>. The handler is
  given the source location of the panic as the text \<open>loc\<close>; a message keeps only its fixed text. \<open>debug_str\<close> and \<open>debug_strs\<close> are the format \<^verbatim>\<open>{:?}\<close> on strings of ASCII
  characters. The lemmas show what each program asks of the kernel, as parent and as child of its fork.
\<close>

section \<open>Definitions\<close>

primrec uprint_lines :: "u8 list list \<Rightarrow> unit uprog" where
  "uprint_lines [] = uret ()"
| "uprint_lines (l # ls) = ubind (uprintln l) (\<lambda>_. uprint_lines ls)"

subsection \<open>Panics\<close>

definition panic_handler :: "u8 list option \<Rightarrow> string \<Rightarrow> 'a uprog" where
  "panic_handler loc msg =
     ubind (uprintln (lit ''-----------PANIC------------'')) (\<lambda>_.
     ubind (uprintln (case loc of Some l \<Rightarrow> lit ''Location: '' @ l | None \<Rightarrow> lit ''Location: Unknown location'')) (\<lambda>_.
     ubind (uprintln (lit ''Message:  '' @ lit msg)) (\<lambda>_.
     ubind (uprintln (lit ''----------------------------'')) (\<lambda>_. uexit 1))))"

definition with_handler :: "u8 list option \<Rightarrow> 'a uprog \<Rightarrow> 'a uprog" where
  "with_handler loc m e = (case m e of Inl (Upanic msg, e) \<Rightarrow> panic_handler loc msg e | r \<Rightarrow> r)"

subsection \<open>help\<close>

definition help_usage :: "u8 list list" where
  "help_usage = [
     lit ''Usage: help <command or program name>'',
     lit ''Available commands/programs:'',
     lit ''  init - The initial program that starts the shell (executed by kernel)'',
     lit ''  help - Display this help message'',
     lit ''  info - Display information about the operating system'',
     lit ''  echo - Display a line of text'',
     lit ''  clear - Clear the terminal screen'',
     lit ''  ptest - A test program for process management'',
     lit ''  waittest - A test program for waiting on child processes'',
     lit ''  exectest - A test program for executing other programs'',
     lit ''  wc - Count lines, words, and bytes in input'',
     lit ''  tetris - Play a game of Tetris on AtOS'',
     lit ''  exit - Exit the shell (implemented in shell itself)'',
     lit ''Filesystem related commands will be implemented later with filesystem itself.'',
     [0x0A] @ lit ''Available syntax for commands/programs:'',
     lit '' command [arguments] - Execute a command with optional arguments'',
     lit '' command [arguments] & - Execute a command with optional arguments in'',
     lit ''                         the background'',
     lit '' command1 [arguments] & command2 [arguments] - Execute command1 in the '',
     lit ''                                               background and command2 in'',
     lit ''                                               the foreground'',
     lit '' command1 [arguments]; command2 [arguments] - Execute command1 and then'',
     lit ''                                              command2 in sequence'',
     lit '' command1 '' @ [0x22] @ lit ''argument'' @ [0x22] @ lit '' - Execute command1 with an argument that contains'',
     lit ''                         spaces (enclosed in quotes)'']"

definition help_entries :: "(u8 list \<times> u8 list) list" where
  "help_entries = [
     (lit ''init'', lit ''[init] '' @ [0x0A] @ lit ''| The initial program that is spawned by the kernel. It spawns the shell, '' @ [0x0A] @ lit ''| and any other programs needed. Orphan processes are reparented to this '' @ [0x0A] @ lit ''| program and it reaps them continuously. ''),
     (lit ''help'', lit ''[help] '' @ [0x0A] @ lit ''| You are using this right now. It shows help information for commands and programs ''),
     (lit ''info'', lit ''[info] '' @ [0x0A] @ lit ''| Display information about the operating system. Inspired by Linux's `fastfetch`. ''),
     (lit ''echo'', lit ''[echo] '' @ [0x0A] @ lit ''| Display a line of text. Simply writes back arguments given to it. ''),
     (lit ''clear'', lit ''[clear] '' @ [0x0A] @ lit ''| Clear the terminal screen. ''),
     (lit ''ptest'', lit ''[ptest] '' @ [0x0A] @ lit ''| A test program for process management. Tests forking, execution, waiting, '' @ [0x0A] @ lit ''| and termination. It spawns `waittest` and `exectest` programs as well. ''),
     (lit ''waittest'', lit ''[waittest] '' @ [0x0A] @ lit ''| A test program for waiting on child processes. Tests the wait() syscall ''),
     (lit ''exectest'', lit ''[exectest] '' @ [0x0A] @ lit ''| A test program for executing other programs. Tests the exec() syscall ''),
     (lit ''wc'', lit ''[wc] '' @ [0x0A] @ lit ''| Count lines, words, and bytes in input. ''),
     (lit ''tetris'', lit ''[tetris] '' @ [0x0A] @ lit ''| Play a game of Tetris on AtOS! ''),
     (lit ''exit'', lit ''[exit] '' @ [0x0A] @ lit ''| Exit the shell. This command is implemented in the shell itself, not as '' @ [0x0A] @ lit ''| a separate program. '')]"

definition help_main :: "u8 list list \<Rightarrow> unit uprog" where
  "help_main args =
     (if length args < 2 then uprint_lines help_usage
      else let command = args ! 1 in
        case map_of help_entries command of
          Some t \<Rightarrow> uprintln t
        | None \<Rightarrow> uprintln (lit ''Unknown command/program: '' @ command))"

subsection \<open>exectest\<close>

definition parent_do :: "unit uprog" where
  "parent_do =
     ubind (uprintln (lit ''This is the parent process doing work!'')) (\<lambda>_.
     ubind (uprint_lines (map (\<lambda>i. lit ''parent process is working, iteration '' @ decimal i) [0..<20])) (\<lambda>_.
     uprintln (lit ''parent process is done working, it will now exit.'')))"

definition child_do :: "unit uprog" where
  "child_do =
     ubind (uprintln (lit ''This is the child process doing work!'')) (\<lambda>_.
     ubind (uprint_lines (map (\<lambda>i. lit ''child process is working, iteration '' @ decimal i) [0..<10])) (\<lambda>_.
     ubind (uprintln (lit ''child process is done working, it will now attempt exec('' @ [0x22] @ lit ''init'' @ [0x22] @ lit '')'')) (\<lambda>_.
     ubind (uexec (lit ''init'') []) (uexpect ''called `Result::unwrap()` on an `Err` value''))))"

definition exectest_main :: "unit uprog" where
  "exectest_main =
     ubind (uprintln (lit ''hello this code is running in process B!'')) (\<lambda>_.
     ubind (uprintln (lit ''Trying to fork in B!'')) (\<lambda>_.
     ubind ufork (\<lambda>r. case r of
       Inr fc \<Rightarrow> if fc = 0 then child_do else parent_do
     | Inl _ \<Rightarrow> uprintln (lit ''fork() failed!''))))"

subsection \<open>ptest\<close>

definition debug_char :: "u8 \<Rightarrow> u8 list" where
  "debug_char b =
     (if b = 0 then lit [CHR 0x5C] @ lit ''0''
      else if b = 0x09 then lit [CHR 0x5C] @ lit ''t''
      else if b = 0x0A then lit [CHR 0x5C] @ lit ''n''
      else if b = 0x0D then lit [CHR 0x5C] @ lit ''r''
      else if b = 0x22 \<or> b = 0x5C then [0x5C, b]
      else if b < 0x10 then lit [CHR 0x5C] @ lit ''u{'' @ [hex_digit (unat b)] @ lit ''}''
      else if b < 0x20 \<or> b = 0x7F then lit [CHR 0x5C] @ lit ''u{'' @ [hex_digit (unat b div 16), hex_digit (unat b mod 16)] @ lit ''}''
      else [b])"

definition debug_str :: "u8 list \<Rightarrow> u8 list" where
  "debug_str s = [0x22] @ concat (map debug_char s) @ [0x22]"

fun debug_items :: "u8 list list \<Rightarrow> u8 list" where
  "debug_items [] = []"
| "debug_items [s] = debug_str s"
| "debug_items (s # t # ss) = debug_str s @ lit '', '' @ debug_items (t # ss)"

definition debug_strs :: "u8 list list \<Rightarrow> u8 list" where
  "debug_strs ss = lit ''['' @ debug_items ss @ lit '']''"

definition ptest_main :: "u8 list list \<Rightarrow> unit uprog" where
  "ptest_main args =
     ubind (uprintln (lit ''hello this code is running in the 'ptest' program!'')) (\<lambda>_.
     ubind (uprintln (lit ''args passed to 'ptest' program: '' @ debug_strs args)) (\<lambda>_.
     let x = 1 in
     ubind (uprintln (lit ''x = '' @ decimal x)) (\<lambda>_.
     let x = x + 1 in
     ubind (uprintln (lit ''x = '' @ decimal x)) (\<lambda>_.
     ubind (uprint_lines (map (\<lambda>i. [0x27] @ lit ''ptest' program is working, iteration '' @ decimal i) [0..<20])) (\<lambda>_.
     ubind (uprintln ([0x27] @ lit ''ptest' program will now fork and wait for the child to finish.'')) (\<lambda>_.
     ubind ufork (\<lambda>r. case r of
       Inr fc \<Rightarrow>
         if fc = 0 then
           ubind (uprint_lines (map (\<lambda>i. lit ''child working '' @ decimal i) [0..<10])) (\<lambda>_.
           uprintln (lit ''child is done working, it will now exit.''))
         else
           ubind (uprintln (lit ''I'm parent, now waiting for child to finish'')) (\<lambda>_.
           ubind (uwait None) (\<lambda>w.
           ubind (case w of
               Inr (p, code) \<Rightarrow> uprintln (lit ''parent waited for child process with pid '' @ decimal (unat p)
                                  @ lit '' to finish, it exited with code '' @ decimal (unat code))
             | Inl e \<Rightarrow> uprintln (lit ''parent program failed to wait for child process: '' @ lit e)) (\<lambda>_.
           ubind (uprintln (lit ''parent will now exit.'')) (\<lambda>_.
           ubind (uprintln (lit ''before exiting, spawning process waittest for next test.'')) (\<lambda>_.
           ubind (spawn (lit ''waittest'') []) (uexpect ''called `Result::unwrap()` on an `Err` value''))))))
     | Inl _ \<Rightarrow> uprintln (lit ''fork() failed!''))))))))"

subsection \<open>waittest\<close>

definition waittest_main :: "unit uprog" where
  "waittest_main =
     ubind (uprintln (lit ''hello this code is running in the waittest program!'')) (\<lambda>_.
     let x = 1 in
     ubind (uprintln (lit ''x = '' @ decimal x)) (\<lambda>_.
     let x = x + 1 in
     ubind (uprintln (lit ''x = '' @ decimal x)) (\<lambda>_.
     ubind (uprint_lines (map (\<lambda>i. lit ''waittest program is working, iteration '' @ decimal i) [0..<20])) (\<lambda>_.
     ubind (uprintln (lit ''waittest program will now fork and wait for the child to finish.'')) (\<lambda>_.
     ubind ufork (\<lambda>r. case r of
       Inr fc \<Rightarrow>
         if fc = 0 then
           ubind (uprintln (lit ''i'm waittest child! i finished early!'')) (\<lambda>_.
           upanic ''Hi im waittest child. I just paniced here to check if my parent receives my exit code 1.'')
         else
           ubind (uprintln (lit ''I'm waittest parent, now working'')) (\<lambda>_.
           ubind (uprint_lines (map (\<lambda>i. lit ''waittest parent working '' @ decimal i) [0..<15])) (\<lambda>_.
           ubind (uwait None) (\<lambda>w.
           ubind (case w of
               Inr (p, code) \<Rightarrow> uprintln (lit ''waittest parent waited for child process with pid '' @ decimal (unat p)
                                  @ lit '' to finish, it exited with code '' @ decimal (unat code))
             | Inl e \<Rightarrow> uprintln (lit ''waittest parent program failed to wait for child process: '' @ lit e)) (\<lambda>_.
           uprintln (lit ''waittest parent will now exit.'')))))
     | Inl _ \<Rightarrow> uprintln (lit ''fork() failed!'')))))))"

section \<open>What the programs ask of the kernel\<close>

definition lines_out :: "u8 list list \<Rightarrow> call list" where
  "lines_out ls = map (\<lambda>l. SvcWrite (l @ [0x0A])) ls"

lemma uprint_lines_run:
  "length rs = length ls \<Longrightarrow>
   ubind (uprint_lines ls) f \<lparr>replies = rs @ rest, calls = cs\<rparr> = f () \<lparr>replies = rest, calls = cs @ lines_out ls\<rparr>"
  by (induction ls arbitrary: rs cs) (auto simp: urun lines_out_def length_Suc_conv)

lemma decimal_1_2: "decimal (Suc 0) = lit ''1''" "decimal 1 = lit ''1''" "decimal 2 = lit ''2''" "decimal (Suc (Suc 0)) = lit ''2''" "decimal (1 + 1) = lit ''2''"
    "lit ''x = '' @ lit ''1'' = lit ''x = 1''" "lit ''x = '' @ lit ''2'' = lit ''x = 2''"
  by (simp_all add: decimal.simps lit_def)

text \<open>Whatever program panics, its parent can be told so: the handler prints the panic and the last thing the process asks for is to exit with code 1.\<close>

lemma panic_exits_with_1:
  assumes "m e = Inl (Upanic msg, \<lparr>replies = [a1, a2, a3, a4, p], calls = cs\<rparr>)"
  shows "with_handler loc m e = Inl (Waits, \<lparr>replies = [], calls = cs
     @ lines_out [lit ''-----------PANIC------------'', case loc of Some l \<Rightarrow> lit ''Location: '' @ l | None \<Rightarrow> lit ''Location: Unknown location'',
         lit ''Message:  '' @ lit msg, lit ''----------------------------'']
     @ [SvcPInfo, SvcExit 1]\<rparr>)"
  by (simp add: with_handler_def assms panic_handler_def lines_out_def urun)

lemma handler_transparent: "(\<And>msg e'. m e \<noteq> Inl (Upanic msg, e')) \<Longrightarrow> with_handler loc m e = m e"
  by (auto simp: with_handler_def split: sum.splits ustop.splits)

definition waittest_head :: "call list" where
  "waittest_head = lines_out ([lit ''hello this code is running in the waittest program!'', lit ''x = 1'', lit ''x = 2'']
     @ map (\<lambda>i. lit ''waittest program is working, iteration '' @ decimal i) [0..<20]
     @ [lit ''waittest program will now fork and wait for the child to finish.'']) @ [SvcFork]"

lemma waittest_child:
  assumes "length rs = 20" "r0 r = 0"
  shows "with_handler loc waittest_main \<lparr>replies = a1 # a2 # a3 # rs @ [a4, r, a5, h1, h2, h3, h4, p], calls = []\<rparr>
     = Inl (Waits, \<lparr>replies = [], calls = waittest_head @ lines_out [lit ''i'm waittest child! i finished early!'',
         lit ''-----------PANIC------------'', case loc of Some l \<Rightarrow> lit ''Location: '' @ l | None \<Rightarrow> lit ''Location: Unknown location'',
         lit ''Message:  Hi im waittest child. I just paniced here to check if my parent receives my exit code 1.'', lit ''----------------------------'']
       @ [SvcPInfo, SvcExit 1]\<rparr>)"
proof -
  have l: "length rs = length (map (\<lambda>i. lit ''waittest program is working, iteration '' @ decimal i) [0..<20])" using assms(1) by simp
  have "waittest_main \<lparr>replies = a1 # a2 # a3 # rs @ [a4, r, a5, h1, h2, h3, h4, p], calls = []\<rparr>
     = Inl (Upanic ''Hi im waittest child. I just paniced here to check if my parent receives my exit code 1.'',
         \<lparr>replies = [h1, h2, h3, h4, p], calls = waittest_head @ lines_out [lit ''i'm waittest child! i finished early!'']\<rparr>)"
    using assms(2) by (simp add: waittest_main_def urun uprint_lines_run [OF l] waittest_head_def lines_out_def decimal_1_2 del: upt_rec_numeral)
  from panic_exits_with_1 [where m = waittest_main, OF this] show ?thesis by (simp add: lines_out_def lit_def)
qed

lemma waittest_parent:
  assumes "length rs = 20" "length rs' = 15" "r0 r \<noteq> 0" "r0 r \<noteq> -1" "r0 w \<noteq> -1"
  shows "waittest_main \<lparr>replies = a1 # a2 # a3 # rs @ a4 # r # a5 # rs' @ [w, a6, a7], calls = []\<rparr>
     = Inr ((), \<lparr>replies = [], calls = waittest_head
         @ lines_out (lit ''I'm waittest parent, now working'' # map (\<lambda>i. lit ''waittest parent working '' @ decimal i) [0..<15])
         @ [SvcWait 0]
         @ lines_out [lit ''waittest parent waited for child process with pid '' @ decimal (unat (r0 w)) @ lit '' to finish, it exited with code '' @ decimal (unat (r1 w)),
             lit ''waittest parent will now exit.'']\<rparr>)"
proof -
  have l: "length rs = length (map (\<lambda>i. lit ''waittest program is working, iteration '' @ decimal i) [0..<20])"
    "length rs' = length (map (\<lambda>i. lit ''waittest parent working '' @ decimal i) [0..<15])" using assms(1, 2) by simp_all
  show ?thesis
    using assms(3-5) by (simp add: waittest_main_def urun uprint_lines_run [OF l(1)] uprint_lines_run [OF l(2)] waittest_head_def lines_out_def decimal_1_2
      del: upt_rec_numeral)
qed

text \<open>The child of \<^verbatim>\<open>exectest\<close> asks to become \<^verbatim>\<open>init\<close>; when that is refused it panics.\<close>

lemma exectest_child:
  assumes "length rs = 10" "r0 r = 0"
  shows "exectest_main \<lparr>replies = a1 # a2 # r # a3 # rs @ [a4, x], calls = []\<rparr>
     = (let e = \<lparr>replies = [], calls = lines_out [lit ''hello this code is running in process B!'', lit ''Trying to fork in B!''] @ [SvcFork]
          @ lines_out (lit ''This is the child process doing work!'' # map (\<lambda>i. lit ''child process is working, iteration '' @ decimal i) [0..<10]
             @ [lit ''child process is done working, it will now attempt exec('' @ [0x22] @ lit ''init'' @ [0x22] @ lit '')''])
          @ [SvcExec [lit ''init'']]\<rparr>
        in if r0 x = -1 then Inl (Upanic ''called `Result::unwrap()` on an `Err` value'', e) else Inr ((), e))"
proof -
  have l: "length rs = length (map (\<lambda>i. lit ''child process is working, iteration '' @ decimal i) [0..<10])" using assms(1) by simp
  show ?thesis
    using assms(2) by (simp add: exectest_main_def child_do_def urun uprint_lines_run [OF l] lines_out_def Let_def del: upt_rec_numeral)
qed

lemma exectest_parent:
  assumes "length rs = 20" "r0 r \<noteq> 0" "r0 r \<noteq> -1"
  shows "exectest_main \<lparr>replies = a1 # a2 # r # a3 # rs @ [a4], calls = []\<rparr>
     = Inr ((), \<lparr>replies = [], calls = lines_out [lit ''hello this code is running in process B!'', lit ''Trying to fork in B!''] @ [SvcFork]
          @ lines_out (lit ''This is the parent process doing work!'' # map (\<lambda>i. lit ''parent process is working, iteration '' @ decimal i) [0..<20]
             @ [lit ''parent process is done working, it will now exit.''])\<rparr>)"
proof -
  have l: "length rs = length (map (\<lambda>i. lit ''parent process is working, iteration '' @ decimal i) [0..<20])" using assms(1) by simp
  show ?thesis
    using assms(2, 3) by (simp add: exectest_main_def parent_do_def urun uprint_lines_run [OF l] lines_out_def Let_def del: upt_rec_numeral)
qed

text \<open>After its child, the parent of \<^verbatim>\<open>ptest\<close> starts \<^verbatim>\<open>waittest\<close> and waits for it. (The help text says that it starts \<^verbatim>\<open>exectest\<close> too.)\<close>

definition ptest_head :: "u8 list list \<Rightarrow> call list" where
  "ptest_head args = lines_out ([lit ''hello this code is running in the 'ptest' program!'', lit ''args passed to 'ptest' program: '' @ debug_strs args, lit ''x = 1'', lit ''x = 2'']
     @ map (\<lambda>i. [0x27] @ lit ''ptest' program is working, iteration '' @ decimal i) [0..<20]
     @ [[0x27] @ lit ''ptest' program will now fork and wait for the child to finish.'']) @ [SvcFork]"

lemma ptest_parent:
  assumes "length rs = 20" "r0 r \<noteq> 0" "r0 r \<noteq> -1" "r0 w \<noteq> -1" "r0 r' \<noteq> 0" "r0 r' \<noteq> -1" "r0 w' \<noteq> -1"
  shows "ptest_main args \<lparr>replies = a1 # a2 # a3 # a4 # rs @ [a5, r, a6, w, a7, a8, a9, r', w'], calls = []\<rparr>
     = Inr ((), \<lparr>replies = [], calls = ptest_head args @ lines_out [lit ''I'm parent, now waiting for child to finish''] @ [SvcWait 0]
         @ lines_out [lit ''parent waited for child process with pid '' @ decimal (unat (r0 w)) @ lit '' to finish, it exited with code '' @ decimal (unat (r1 w)),
             lit ''parent will now exit.'', lit ''before exiting, spawning process waittest for next test.'']
         @ [SvcFork, SvcWait (r0 r')]\<rparr>)"
proof -
  have l: "length rs = length (map (\<lambda>i. 0x27 # lit ''ptest' program is working, iteration '' @ decimal i) [0..<20])" using assms(1) by simp
  show ?thesis
    using assms(2-) by (simp add: ptest_main_def urun uprint_lines_run [OF l] ptest_head_def lines_out_def decimal_1_2 del: upt_rec_numeral)
      (simp add: ubind_def urun lit_def)
qed

text \<open>\<^verbatim>\<open>help\<close> without an argument prints its usage; with one, the entry of that name or that there is none.\<close>

lemma help_usage_run:
  assumes "length args < 2" "length rs = length help_usage"
  shows "help_main args \<lparr>replies = rs, calls = []\<rparr> = Inr ((), \<lparr>replies = [], calls = lines_out help_usage\<rparr>)"
  using assms(1) uprint_lines_run [OF assms(2), of uret "[]" "[]"] by (simp add: help_main_def urun ubind_uret)

end
