(* ===== verification/Shell.thy ===== *)
theory Shell
  imports UserSys
begin

text \<open>
  The shell, \<^verbatim>\<open>user/src/bin/shell.rs\<close>: the lexer over the bytes of the input line, the parser that runs each pipeline as soon as it is complete, and the
  commands that fork, exec and wait. Positions are naturals (they are bounded by the length of the line); spans hold \<^verbatim>\<open>u8\<close> offsets.
\<close>

section \<open>Lexer\<close>

definition SHELL_MAX_ARGS :: nat where "SHELL_MAX_ARGS = 16"

definition MAX_COMMANDS :: nat where "MAX_COMMANDS = 8"

definition INPUT_SIZE :: nat where "INPUT_SIZE = 128"

record Span =
  span_start :: u8
  span_len :: u8

definition Span_empty :: Span where "Span_empty = \<lparr>span_start = 0, span_len = 0\<rparr>"

definition is_char_boundary :: "u8 list \<Rightarrow> nat \<Rightarrow> bool" where
  "is_char_boundary s i \<longleftrightarrow> i = 0 \<or> i = length s \<or> i < length s \<and> \<not> cont (s ! i)"

definition as_str :: "Span \<Rightarrow> u8 list \<Rightarrow> u8 list uprog" where
  "as_str self input =
     (let start = unat (span_start self); stop = start + unat (span_len self) in
      if start \<le> stop \<and> stop \<le> length input \<and> is_char_boundary input start \<and> is_char_boundary input stop
      then uret (take (stop - start) (drop start input))
      else upanic ''byte index is out of bounds or not a char boundary'')"

datatype Token = Word Span | Pipe | Semicolon | Background

datatype LexError = UnterminatedString

function scan :: "(u8 \<Rightarrow> bool) \<Rightarrow> u8 list \<Rightarrow> nat \<Rightarrow> nat" where
  "scan P bytes pos = (if pos < length bytes \<and> P (bytes ! pos) then scan P bytes (pos + 1) else pos)"
  by pat_completeness auto

termination
  by (relation "measure (\<lambda>(P, bytes, pos). length bytes - pos)") auto

definition in_word :: "u8 \<Rightarrow> bool" where
  "in_word b \<longleftrightarrow> \<not> (b = 0x7C \<or> b = 0x22 \<or> b = 0x3B \<or> b = 0x26) \<and> \<not> is_ascii_whitespace b"

definition next_token :: "u8 list \<Rightarrow> nat \<Rightarrow> (LexError + Token option) \<times> nat" where
  "next_token bytes pos =
     (let pos = scan is_ascii_whitespace bytes pos in
      if length bytes \<le> pos then (Inr None, pos)
      else if bytes ! pos = 0x7C then (Inr (Some Pipe), pos + 1)
      else if bytes ! pos = 0x3B then (Inr (Some Semicolon), pos + 1)
      else if bytes ! pos = 0x26 then (Inr (Some Background), pos + 1)
      else if bytes ! pos = 0x22 then
        (let start = pos + 1; pos = scan (\<lambda>b. b \<noteq> 0x22) bytes start in
         if pos = length bytes then (Inl UnterminatedString, pos)
         else (Inr (Some (Word \<lparr>span_start = of_nat start, span_len = of_nat (pos - start)\<rparr>)), pos + 1))
      else
        (let start = pos; pos = scan in_word bytes start
         in (Inr (Some (Word \<lparr>span_start = of_nat start, span_len = of_nat (pos - start)\<rparr>)), pos)))"

declare scan.simps [simp del]

lemma scan_bounds: "pos \<le> scan P bytes pos" "pos \<le> length bytes \<Longrightarrow> scan P bytes pos \<le> length bytes"
proof -
  show "pos \<le> scan P bytes pos"
    by (induction P bytes pos rule: scan.induct) (subst scan.simps, auto)
  show "pos \<le> length bytes \<Longrightarrow> scan P bytes pos \<le> length bytes"
    by (induction P bytes pos rule: scan.induct) (subst scan.simps, auto)
qed

lemma scan_step: "pos < length bytes \<Longrightarrow> P (bytes ! pos) \<Longrightarrow> pos < scan P bytes pos"
  by (subst scan.simps) (simp add: Suc_le_lessD scan_bounds(1))

lemma scan_stop: "scan P bytes pos < length bytes \<Longrightarrow> \<not> P (bytes ! scan P bytes pos)"
proof (induction P bytes pos rule: scan.induct)
  case (1 P bytes pos)
  then show ?case by (cases "pos < length bytes \<and> P (bytes ! pos)") (simp_all add: scan.simps [of P bytes pos])
qed

lemma next_token_advances:
  assumes "next_token bytes pos = (Inr (Some t), pos')"
  shows "pos < pos' \<and> pos' \<le> length bytes"
proof -
  let ?p = "scan is_ascii_whitespace bytes pos"
  have lt: "?p < length bytes" using assms by (auto simp: next_token_def Let_def split: if_splits)
  then have ws: "\<not> is_ascii_whitespace (bytes ! ?p)" by (rule scan_stop)
  have p: "pos \<le> ?p" by (rule scan_bounds)
  show ?thesis
  proof (cases "in_word (bytes ! ?p)")
    case True
    then have "pos' = scan in_word bytes ?p" using assms lt by (auto simp: next_token_def Let_def in_word_def)
    then show ?thesis using scan_step [of ?p bytes in_word, OF lt True] p scan_bounds(2) [of ?p bytes in_word] lt by simp
  next
    case False
    let ?q = "scan (\<lambda>b. b \<noteq> 0x22) bytes (?p + 1)"
    have "?p + 1 \<le> ?q" "?q \<le> length bytes" using scan_bounds(1) [of "?p + 1" "\<lambda>b. b \<noteq> 0x22" bytes] scan_bounds(2) [of "?p + 1" bytes "\<lambda>b. b \<noteq> 0x22"] lt by auto
    moreover have "pos' = ?p + 1 \<or> pos' = ?q + 1 \<and> ?q \<noteq> length bytes"
      using assms lt False ws by (auto simp: next_token_def Let_def in_word_def split: if_splits)
    ultimately show ?thesis using p lt by auto
  qed
qed

section \<open>Commands\<close>

record Command =
  argc :: nat
  argv :: "Span list"

record ExecutionPipeline =
  count :: nat
  commands :: "Command list"

definition Command_new :: Command where
  "Command_new = \<lparr>argc = 0, argv = replicate SHELL_MAX_ARGS Span_empty\<rparr>"

definition ExecutionPipeline_new :: ExecutionPipeline where
  "ExecutionPipeline_new = \<lparr>count = 0, commands = replicate MAX_COMMANDS Command_new\<rparr>"

text \<open>Reading an array element; an index out of range panics.\<close>

definition element :: "'a list \<Rightarrow> nat \<Rightarrow> 'a uprog" where
  "element xs i = (if i < length xs then uret (xs ! i) else upanic ''index out of bounds'')"

primrec strs :: "nat list \<Rightarrow> Span list \<Rightarrow> u8 list \<Rightarrow> u8 list list uprog" where
  "strs [] spans input = uret []"
| "strs (i # is) spans input =
     ubind (element spans i) (\<lambda>sp. ubind (as_str sp input) (\<lambda>s. ubind (strs is spans input) (\<lambda>ss. uret (s # ss))))"

definition execute_command :: "Command \<Rightarrow> bool \<Rightarrow> u8 list \<Rightarrow> unit uprog" where
  "execute_command command background input =
     (if argc command = 0 then uret () else
      ubind (element (argv command) 0) (\<lambda>span.
      ubind (as_str span input) (\<lambda>program.
      ubind (if program = lit ''exit'' then uexit 0 else uret ()) (\<lambda>_.
      if program \<in> set (map lit [''ls'', ''cd'', ''mkdir'', ''rmdir'', ''rm'', ''cat'', ''touch''])
      then uprintln (program @ lit '': command not found (filesystem commands will be implemented in the future)'')
      else
        ubind (strs [1..<argc command] (argv command) input) (\<lambda>args.
        ubind ufork (\<lambda>r. case r of
          Inr p \<Rightarrow>
            if p = 0 then
              ubind (uexec program args) (\<lambda>x.
              ubind (if isl x then uprintln (program @ lit '': command not found'') else uret ()) (\<lambda>_.
              uexit 1))
            else if background then uprintln (lit ''['' @ decimal (unat p) @ lit ''] '' @ program)
            else ubind (uwait (Some p)) (\<lambda>_. uret ())
        | Inl _ \<Rightarrow> uprintln (lit ''fork failed!'')))))))"

primrec for_commands :: "nat list \<Rightarrow> Command list \<Rightarrow> bool \<Rightarrow> u8 list \<Rightarrow> unit uprog" where
  "for_commands [] cs background input = uret ()"
| "for_commands (i # is) cs background input =
     ubind (element cs i) (\<lambda>c. ubind (execute_command c background input) (\<lambda>_. for_commands is cs background input))"

definition execute_pipeline :: "ExecutionPipeline \<Rightarrow> bool \<Rightarrow> u8 list \<Rightarrow> unit uprog" where
  "execute_pipeline pipeline background input = for_commands [0..<count pipeline] (commands pipeline) background input"

section \<open>Parser\<close>

datatype ParserError = Lex LexError | EmptyCommand | TooManyArguments | TooManyCommands

definition push_arg :: "Span \<Rightarrow> Command \<Rightarrow> Command uprog" where
  "push_arg sp c =
     (if argc c < length (argv c) then uret (c\<lparr>argv := (argv c)[argc c := sp], argc := argc c + 1\<rparr>)
      else upanic ''index out of bounds'')"

definition push_command :: "Command \<Rightarrow> ExecutionPipeline \<Rightarrow> ExecutionPipeline uprog" where
  "push_command c p =
     (if count p < length (commands p) then uret (p\<lparr>commands := (commands p)[count p := c], count := count p + 1\<rparr>)
      else upanic ''index out of bounds'')"

definition finish_command :: "Command \<Rightarrow> ExecutionPipeline \<Rightarrow> (ParserError + ExecutionPipeline \<times> Command) uprog" where
  "finish_command current pipeline =
     (if argc current = 0 then uret (if 0 < count pipeline then Inl EmptyCommand else Inr (pipeline, current))
      else if MAX_COMMANDS \<le> count pipeline then uret (Inl TooManyCommands)
      else ubind (push_command current pipeline) (\<lambda>pipeline. uret (Inr (pipeline, Command_new))))"

function parse_loop :: "u8 list \<Rightarrow> nat \<Rightarrow> ExecutionPipeline \<Rightarrow> Command \<Rightarrow> (ParserError + unit) uprog" where
  "parse_loop input pos pipeline current =
     (case next_token input pos of
        (Inl e, pos) \<Rightarrow> uret (Inl (Lex e))
      | (Inr (Some (Word span)), pos) \<Rightarrow>
          if SHELL_MAX_ARGS \<le> argc current then uret (Inl TooManyArguments)
          else ubind (push_arg span current) (\<lambda>current. parse_loop input pos pipeline current)
      | (Inr (Some Pipe), pos) \<Rightarrow>
          if argc current = 0 then uret (Inl EmptyCommand)
          else if MAX_COMMANDS \<le> count pipeline then uret (Inl TooManyCommands)
          else ubind (push_command current pipeline) (\<lambda>pipeline. parse_loop input pos pipeline Command_new)
      | (Inr (Some sep), pos) \<Rightarrow>
          ubind (finish_command current pipeline) (\<lambda>x. case x of
             Inl e \<Rightarrow> uret (Inl e)
           | Inr (pipeline, current) \<Rightarrow>
               if 0 < count pipeline then
                 ubind (execute_pipeline pipeline (sep = Background) input) (\<lambda>_.
                 parse_loop input pos ExecutionPipeline_new current)
               else parse_loop input pos pipeline current)
      | (Inr None, pos) \<Rightarrow>
          ubind (finish_command current pipeline) (\<lambda>x. case x of
             Inl e \<Rightarrow> uret (Inl e)
           | Inr (pipeline, _) \<Rightarrow>
               ubind (if 0 < count pipeline then execute_pipeline pipeline False input else uret ()) (\<lambda>_. uret (Inr ()))))"
  by pat_completeness auto

termination
proof (relation "measure (\<lambda>(input, pos, _). length input - pos)")
qed (auto dest!: sym [of _ "next_token _ _"] next_token_advances)

definition parse_and_run :: "u8 list \<Rightarrow> (ParserError + unit) uprog" where
  "parse_and_run input = parse_loop input 0 ExecutionPipeline_new Command_new"

declare parse_loop.simps [simp del]

section \<open>The main loop\<close>

lemma shrinks_commands: "shrinks (as_str sp input)" "shrinks (strs is sps input)" "shrinks (execute_command c b input)" "shrinks (for_commands is cs b input)"
  "shrinks (push_arg sp c)" "shrinks (push_command c p)" "shrinks (finish_command c p)"
proof -
  show a: "shrinks (as_str sp input)" for sp by (simp add: as_str_def Let_def shrinks_basic)
  have l: "shrinks (element xs i)" for xs :: "'x list" and i by (simp add: element_def shrinks_basic)
  show s: "shrinks (strs is sps input)" for "is" sps by (induction "is") (auto intro!: shrinks_intros a l)
  show e: "shrinks (execute_command c b input)" for c
    unfolding execute_command_def by (auto intro!: shrinks_intros a s l split: sum.splits)
  show "shrinks (for_commands is cs b input)" by (induction "is") (auto intro!: shrinks_intros e l)
  show "shrinks (push_arg sp c)" by (simp add: push_arg_def shrinks_basic)
  show p: "shrinks (push_command c p)" by (simp add: push_command_def shrinks_basic)
  show "shrinks (finish_command c p)" by (auto simp: finish_command_def intro!: shrinks_intros p)
qed

function tokens :: "u8 list \<Rightarrow> nat \<Rightarrow> Token list \<times> LexError option" where
  "tokens input pos = (case next_token input pos of
     (Inl e, pos) \<Rightarrow> ([], Some e)
   | (Inr None, pos) \<Rightarrow> ([], None)
   | (Inr (Some t), pos) \<Rightarrow> (let (ts, r) = tokens input pos in (t # ts, r)))"
  by pat_completeness auto

termination
  by (relation "measure (\<lambda>(input, pos). length input - pos)") (auto dest!: sym [of _ "next_token _ _"] next_token_advances)

declare tokens.simps [simp del]

fun run_tokens :: "u8 list \<Rightarrow> LexError option \<Rightarrow> Token list \<Rightarrow> ExecutionPipeline \<Rightarrow> Command \<Rightarrow> (ParserError + unit) uprog" where
  "run_tokens input r [] pipeline current =
     (case r of
        Some e \<Rightarrow> uret (Inl (Lex e))
      | None \<Rightarrow>
          ubind (finish_command current pipeline) (\<lambda>x. case x of
             Inl e \<Rightarrow> uret (Inl e)
           | Inr (pipeline, _) \<Rightarrow>
               ubind (if 0 < count pipeline then execute_pipeline pipeline False input else uret ()) (\<lambda>_. uret (Inr ()))))"
| "run_tokens input r (Word span # ts) pipeline current =
     (if SHELL_MAX_ARGS \<le> argc current then uret (Inl TooManyArguments)
      else ubind (push_arg span current) (\<lambda>current. run_tokens input r ts pipeline current))"
| "run_tokens input r (Pipe # ts) pipeline current =
     (if argc current = 0 then uret (Inl EmptyCommand)
      else if MAX_COMMANDS \<le> count pipeline then uret (Inl TooManyCommands)
      else ubind (push_command current pipeline) (\<lambda>pipeline. run_tokens input r ts pipeline Command_new))"
| "run_tokens input r (sep # ts) pipeline current =
     ubind (finish_command current pipeline) (\<lambda>x. case x of
        Inl e \<Rightarrow> uret (Inl e)
      | Inr (pipeline, current) \<Rightarrow>
          if 0 < count pipeline then
            ubind (execute_pipeline pipeline (sep = Background) input) (\<lambda>_. run_tokens input r ts ExecutionPipeline_new current)
          else run_tokens input r ts pipeline current)"

lemma parse_loop_tokens:
  "parse_loop input pos pipeline current = run_tokens input (snd (tokens input pos)) (fst (tokens input pos)) pipeline current"
proof (induction input pos arbitrary: pipeline current rule: tokens.induct)
  case (1 input pos)
  obtain r p where n: "next_token input pos = (r, p)" by force
  show ?case
  proof (cases r)
    case (Inl e)
    then show ?thesis using n by (subst parse_loop.simps, subst (1 2) tokens.simps) simp
  next
    case (Inr tok)
    show ?thesis
    proof (cases tok)
      case None
      then show ?thesis using n Inr by (subst parse_loop.simps, subst (1 2) tokens.simps) simp
    next
      case (Some t)
      have IH: "parse_loop input p = run_tokens input (snd (tokens input p)) (fst (tokens input p))" by (intro ext 1 [OF n [symmetric] Inr Some])
      have tk: "tokens input pos = (t # fst (tokens input p), snd (tokens input p))"
        using n Inr Some by (subst tokens.simps) (simp split: prod.splits)
      show ?thesis using n Inr Some unfolding tk
        by (subst parse_loop.simps) (cases t; simp add: IH cong del: if_weak_cong)
    qed
  qed
qed

lemma shrinks_run_tokens: "shrinks (run_tokens input r ts pipeline current)"
  by (induction input r ts pipeline current rule: run_tokens.induct)
    (auto intro!: shrinks_intros shrinks_commands simp: execute_pipeline_def split: option.splits sum.splits)

lemma shrinks_parse_loop: "shrinks (parse_loop input pos pipeline current)"
  unfolding parse_loop_tokens by (rule shrinks_run_tokens)

fun ParserError_debug :: "ParserError \<Rightarrow> u8 list" where
  "ParserError_debug (Lex UnterminatedString) = lit ''Lex(UnterminatedString)''"
| "ParserError_debug EmptyCommand = lit ''EmptyCommand''"
| "ParserError_debug TooManyArguments = lit ''TooManyArguments''"
| "ParserError_debug TooManyCommands = lit ''TooManyCommands''"

definition shell_step :: "u8 list \<Rightarrow> u8 list uprog" where
  "shell_step buf =
     ubind (uprint (lit ''$ '')) (\<lambda>_.
     ubind (sys_readline buf) (\<lambda>(n, buf).
     ubind (prefix_slice buf n) (\<lambda>input.
     if \<not> utf8_valid input then ubind (uprintln (lit ''invalid utf-8!'')) (\<lambda>_. uret buf)
     else
       ubind (parse_and_run input) (\<lambda>r. case r of
         Inl e \<Rightarrow> ubind (uprintln (lit ''parser error: '' @ ParserError_debug e)) (\<lambda>_. uret buf)
       | Inr _ \<Rightarrow> uret buf))))"

lemma shell_step_shorter: "shell_step buf e = Inr (b, e') \<Longrightarrow> length (replies e') < length (replies e)"
  unfolding shell_step_def uprint_def sys_write_def parse_and_run_def ubind_simps
  by (erule ubind_usys_shorter) (auto intro!: shrinks_intros shrinks_parse_loop split: sum.splits)

function shell_loop :: "u8 list \<Rightarrow> uenv \<Rightarrow> (ustop \<times> uenv) + (unit \<times> uenv)" where
  "shell_loop buf e = (case shell_step buf e of Inl x \<Rightarrow> Inl x | Inr (buf, e) \<Rightarrow> shell_loop buf e)"
  by pat_completeness auto

termination
  by (relation "measure (\<lambda>(buf, e). length (replies e))") (auto dest: shell_step_shorter)

definition shell_main :: "unit uprog" where
  "shell_main = shell_loop (replicate INPUT_SIZE 0)"

declare shell_loop.simps [simp del]

end
