(* ===== verification/ShellRun.thy ===== *)
theory ShellRun
  imports ShellSpec
begin

text \<open>
  The meaning of a command line: \<open>render_line\<close> writes down a list of pipelines of commands, each a list of words, and \<open>run_line\<close> is what should happen, told
  over the words themselves instead of spans into a buffer.
\<close>

definition plain :: "u8 list \<Rightarrow> bool" where
  "plain w \<longleftrightarrow> w \<noteq> [] \<and> list_all in_word w"

definition render_word :: "u8 list \<Rightarrow> u8 list" where
  "render_word w = (if plain w then w else 0x22 # w @ [0x22])"

definition render_command :: "u8 list list \<Rightarrow> u8 list" where
  "render_command ws = concat (map (\<lambda>w. render_word w @ [0x20]) ws)"

primrec render_pipeline :: "u8 list list list \<Rightarrow> u8 list" where
  "render_pipeline [] = []"
| "render_pipeline (c # cs) = render_command c @ (if cs = [] then [] else 0x7C # render_pipeline cs)"

definition render_line :: "(u8 list list list \<times> bool) list \<Rightarrow> u8 list" where
  "render_line l = concat (map (\<lambda>(p, background). render_pipeline p @ [if background then 0x26 else 0x3B]) l)"

definition run_words :: "u8 list list \<Rightarrow> bool \<Rightarrow> unit uprog" where
  "run_words ws background =
     (let program = hd ws; args = tl ws in
      if program = lit ''exit'' then uexit 0
      else if program \<in> set (map lit [''ls'', ''cd'', ''mkdir'', ''rmdir'', ''rm'', ''cat'', ''touch''])
      then uprintln (program @ lit '': command not found (filesystem commands will be implemented in the future)'')
      else
        ubind ufork (\<lambda>r. case r of
          Inr p \<Rightarrow>
            if p = 0 then
              ubind (uexec program args) (\<lambda>x.
              ubind (if isl x then uprintln (program @ lit '': command not found'') else uret ()) (\<lambda>_. uexit 1))
            else if background then uprintln (lit ''['' @ decimal (unat p) @ lit ''] '' @ program)
            else ubind (uwait (Some p)) (\<lambda>_. uret ())
        | Inl _ \<Rightarrow> uprintln (lit ''fork failed!'')))"

primrec run_all :: "('a \<Rightarrow> unit uprog) \<Rightarrow> 'a list \<Rightarrow> unit uprog" where
  "run_all f [] = uret ()"
| "run_all f (x # xs) = ubind (f x) (\<lambda>_. run_all f xs)"

definition run_line :: "(u8 list list list \<times> bool) list \<Rightarrow> unit uprog" where
  "run_line l = run_all (\<lambda>(p, background). run_all (\<lambda>ws. run_words ws background) p) l"

definition word_ok :: "u8 list \<Rightarrow> bool" where
  "word_ok w \<longleftrightarrow> utf8_valid w \<and> 0x22 \<notin> set w"

definition command_ok :: "u8 list list \<Rightarrow> bool" where
  "command_ok ws \<longleftrightarrow> ws \<noteq> [] \<and> length ws \<le> SHELL_MAX_ARGS \<and> list_all word_ok ws"

definition pipeline_ok :: "u8 list list list \<Rightarrow> bool" where
  "pipeline_ok p \<longleftrightarrow> p \<noteq> [] \<and> length p \<le> MAX_COMMANDS \<and> list_all command_ok p"

definition line_ok :: "(u8 list list list \<times> bool) list \<Rightarrow> bool" where
  "line_ok l \<longleftrightarrow> list_all (\<lambda>(p, _). pipeline_ok p) l \<and> length (render_line l) \<le> 255"

section \<open>One token\<close>

definition spells :: "u8 list \<Rightarrow> Span \<Rightarrow> u8 list \<Rightarrow> bool" where
  "spells input sp w \<longleftrightarrow> as_str sp input = uret w"

lemma drop_nth: "drop pos s = x # xs \<Longrightarrow> pos < length s \<and> s ! pos = x \<and> drop (pos + 1) s = xs"
  by (metis drop_eq_Nil drop_Suc Suc_eq_plus1 leI list.distinct(1) list.sel(1,3) hd_drop_conv_nth drop_Suc tl_drop)

lemma skip_space:
  assumes "drop pos s = 0x20 # xs"
  shows "tokens s pos = tokens s (pos + 1)"
proof -
  have "scan is_ascii_whitespace s pos = scan is_ascii_whitespace s (pos + 1)"
    using drop_nth [OF assms] by (subst scan.simps) (simp add: is_ascii_whitespace_def)
  then have "next_token s pos = next_token s (pos + 1)" by (simp add: next_token_def)
  then show ?thesis by (subst (1 2) tokens.simps) simp
qed

lemma no_skip: "drop pos s = x # xs \<Longrightarrow> \<not> is_ascii_whitespace x \<Longrightarrow> scan is_ascii_whitespace s pos = pos"
  using drop_nth [of pos s x xs] by (subst scan.simps) auto

lemma token_separator:
  assumes "drop pos s = x # xs" "(x, t) \<in> {(0x7C, Pipe), (0x3B, Semicolon), (0x26, Background)}"
  shows "tokens s pos = (t # fst (tokens s (pos + 1)), snd (tokens s (pos + 1)))"
proof -
  have "scan is_ascii_whitespace s pos = pos" by (rule no_skip [OF assms(1)]) (use assms(2) in \<open>auto simp: is_ascii_whitespace_def\<close>)
  then have "next_token s pos = (Inr (Some t), pos + 1)" using drop_nth [OF assms(1)] assms(2) by (auto simp: next_token_def)
  then show ?thesis by (subst tokens.simps) (simp split: prod.splits)
qed

lemma tokens_end: "tokens s (length s) = ([], None)"
  by (subst tokens.simps) (simp add: next_token_def scan.simps)

lemma takeWhile_stop: "list_all P w \<Longrightarrow> \<not> P x \<Longrightarrow> takeWhile P (w @ x # xs) = w"
  by (simp add: list_all_iff takeWhile_append2)

lemma spells_mk:
  assumes "length s \<le> 255" "drop a s = w @ x # xs" "x < 0x80" "utf8_valid w"
  shows "spells s \<lparr>span_start = of_nat a, span_len = of_nat (length w)\<rparr> w"
proof -
  have len: "a + length w < length s" using arg_cong [OF assms(2), of length] by simp
  have u: "unat (of_nat k :: u8) = k" if "k < 256" for k using that by (simp add: unat_of_nat)
  have x: "s ! (a + length w) = x" using assms(2) len by (metis nth_append_length nth_drop less_imp_le add_leD1)
  have "\<not> cont (s ! a)"
  proof (cases w)
    case Nil
    then show ?thesis using x assms(3) ascii_not_cont by simp
  next
    case (Cons b bs)
    then show ?thesis using assms(2,4) drop_nth [of a s] utf8_first by auto
  qed
  then have "is_char_boundary s a" "is_char_boundary s (a + length w)" using len x assms(3) ascii_not_cont by (auto simp: is_char_boundary_def)
  then show ?thesis using len assms(1,2) u [of a] u [of "length w"] by (simp add: spells_def as_str_def Let_def)
qed

lemma token_word:
  assumes "length s \<le> 255" "drop pos s = render_word w @ 0x20 # xs" "word_ok w"
  shows "\<exists>sp. spells s sp w \<and> tokens s pos = (Word sp # fst (tokens s (pos + length (render_word w))), snd (tokens s (pos + length (render_word w))))"
proof (cases "plain w")
  case True
  have d: "drop pos s = w @ 0x20 # xs" using assms(2) True by (simp add: render_word_def)
  obtain b bs where w: "w = b # bs" "in_word b" using True by (cases w) (auto simp: plain_def)
  have p: "pos < length s" "s ! pos = b" using drop_nth [of pos s] d w by auto
  have "scan is_ascii_whitespace s pos = pos" using no_skip [of pos s b] d w by (simp add: in_word_def)
  moreover have "takeWhile in_word (drop pos s) = w" unfolding d
    using True by (intro takeWhile_stop) (auto simp: plain_def in_word_def is_ascii_whitespace_def)
  then have "scan in_word s pos = pos + length w" using p(1) by (simp add: scan_takeWhile)
  ultimately have "next_token s pos = (Inr (Some (Word \<lparr>span_start = of_nat pos, span_len = of_nat (length w)\<rparr>)), pos + length w)"
    using p w(2) by (auto simp: next_token_def in_word_def)
  moreover have "spells s \<lparr>span_start = of_nat pos, span_len = of_nat (length w)\<rparr> w"
    using spells_mk [OF assms(1) d] assms(3) by (simp add: word_ok_def)
  ultimately show ?thesis using True by (subst tokens.simps) (auto simp: render_word_def split: prod.splits)
next
  case False
  have d: "drop pos s = 0x22 # w @ 0x22 # 0x20 # xs" using assms(2) False by (simp add: render_word_def)
  note n = drop_nth [OF d]
  have "scan is_ascii_whitespace s pos = pos" using no_skip [OF d] by (simp add: is_ascii_whitespace_def)
  moreover have "takeWhile (\<lambda>b. b \<noteq> 0x22) (drop (pos + 1) s) = w"
    using n assms(3) by (simp add: takeWhile_stop word_ok_def list_all_iff) (metis (mono_tags, lifting) takeWhile_stop list_all_iff)
  then have "scan (\<lambda>b. b \<noteq> 0x22) s (pos + 1) = pos + 1 + length w" using n by (simp add: scan_takeWhile)
  moreover have "pos + 1 + length w < length s" using arg_cong [OF d, of length] by simp
  ultimately have "next_token s pos = (Inr (Some (Word \<lparr>span_start = of_nat (pos + 1), span_len = of_nat (length w)\<rparr>)), pos + length w + 2)"
    using n by (simp add: next_token_def Let_def del: of_nat_Suc of_nat_add)
  moreover have "spells s \<lparr>span_start = of_nat (pos + 1), span_len = of_nat (length w)\<rparr> w"
    using spells_mk [OF assms(1) conjunct2 [OF conjunct2 [OF n]]] assms(3) by (simp add: word_ok_def del: of_nat_Suc of_nat_add)
  ultimately show ?thesis using False by (subst tokens.simps) (auto simp: render_word_def split: prod.splits)
qed

section \<open>Commands, pipelines and lines\<close>

lemma drop_append: "drop pos s = xs @ ys \<Longrightarrow> drop (pos + length xs) s = ys"
  by (metis append_eq_conv_conj drop_drop add.commute)

lemma tokens_command:
  assumes "length s \<le> 255"
  shows "drop pos s = render_command ws @ xs \<Longrightarrow> list_all word_ok ws \<Longrightarrow>
    \<exists>sps. list_all2 (spells s) sps ws
      \<and> tokens s pos = (map Word sps @ fst (tokens s (pos + length (render_command ws))), snd (tokens s (pos + length (render_command ws))))"
proof (induction ws arbitrary: pos)
  case Nil
  then show ?case by (simp add: render_command_def)
next
  case (Cons w ws)
  have d: "drop pos s = render_word w @ 0x20 # (render_command ws @ xs)" using Cons.prems(1) by (simp add: render_command_def)
  let ?q = "pos + length (render_word w)"
  obtain sp where sp: "spells s sp w" "tokens s pos = (Word sp # fst (tokens s ?q), snd (tokens s ?q))"
    using token_word [OF assms d] Cons.prems(2) by auto
  have dq: "drop ?q s = 0x20 # (render_command ws @ xs)" by (rule drop_append [OF d])
  have "drop (?q + 1) s = render_command ws @ xs" using drop_nth [OF dq] by simp
  from Cons.IH [OF this] Cons.prems(2) obtain sps where sps: "list_all2 (spells s) sps ws"
    "tokens s (?q + 1) = (map Word sps @ fst (tokens s (?q + 1 + length (render_command ws))), snd (tokens s (?q + 1 + length (render_command ws))))" by auto
  have e: "pos + length (render_command (w # ws)) = ?q + 1 + length (render_command ws)" by (simp add: render_command_def)
  show ?case unfolding e using sp sps skip_space [OF dq] by (intro exI [of _ "sp # sps"]) simp
qed

text \<open>What storing an argument or a command does when there is room for it.\<close>

definition with_arg :: "Span \<Rightarrow> Command \<Rightarrow> Command" where
  "with_arg sp c = c\<lparr>argv := (argv c)[argc c := sp], argc := argc c + 1\<rparr>"

definition with_command :: "Command \<Rightarrow> ExecutionPipeline \<Rightarrow> ExecutionPipeline" where
  "with_command c p = p\<lparr>commands := (commands p)[count p := c], count := count p + 1\<rparr>"

lemma push_room:
  "argc c < length (argv c) \<Longrightarrow> push_arg sp c = uret (with_arg sp c)"
  "count p < length (commands p) \<Longrightarrow> push_command c p = uret (with_command c p)"
  by (simp_all add: push_arg_def push_command_def with_arg_def with_command_def)

lemma run_args:
  "argc c + length sps \<le> SHELL_MAX_ARGS \<Longrightarrow> length (argv c) = SHELL_MAX_ARGS \<Longrightarrow>
   run_tokens s r (map Word sps @ ts) p c = run_tokens s r ts p (fold with_arg sps c)"
proof (induction sps arbitrary: c)
  case (Cons sp sps)
  then have "push_arg sp c = uret (with_arg sp c)" by (intro push_room) simp
  then show ?case using Cons by (simp add: with_arg_def)
qed simp

lemma fold_with_arg:
  "argc c + length sps \<le> length (argv c) \<Longrightarrow>
   fold with_arg sps c = c\<lparr>argc := argc c + length sps, argv := take (argc c) (argv c) @ sps @ drop (argc c + length sps) (argv c)\<rparr>"
proof (induction sps arbitrary: c)
  case Nil
  then show ?case by simp
next
  case (Cons sp sps)
  have "take (Suc (argc c)) ((argv c)[argc c := sp]) = take (argc c) (argv c) @ [sp]" using Cons.prems by (simp add: take_Suc_conv_app_nth)
  then show ?case using Cons by (simp add: with_arg_def)
qed

lemma strs_spelled:
  "list_all2 (spells s) sps ws \<Longrightarrow> strs [length xs..<length xs + length sps] (xs @ sps @ ys) s = uret ws"
proof (induction arbitrary: xs rule: list_all2_induct)
  case Nil
  then show ?case by simp
next
  case (Cons sp sps w ws)
  have "element (xs @ (sp # sps) @ ys) (length xs) = uret sp" by (simp add: element_def nth_append)
  moreover have "[length xs..<length xs + length (sp # sps)] = length xs # [length (xs @ [sp])..<length (xs @ [sp]) + length sps]"
    by (simp add: upt_rec)
  ultimately show ?case using Cons(1) Cons.IH [of "xs @ [sp]"] by (simp add: spells_def del: upt_Suc)
qed

definition command_of :: "Span list \<Rightarrow> Command" where
  "command_of sps = fold with_arg sps Command_new"

lemma command_of_sel:
  assumes "length sps \<le> SHELL_MAX_ARGS"
  shows "argc (command_of sps) = length sps" "\<exists>ys. argv (command_of sps) = sps @ ys"
  using fold_with_arg [of Command_new sps] assms by (simp_all add: command_of_def Command_new_def)

lemma uexit_bind: "ubind (uexit c) f = uexit c"
  by (auto simp: uexit_def fun_eq_iff ubind_def split: sum.splits)

lemma execute_spelled:
  assumes "list_all2 (spells s) sps ws" "ws \<noteq> []" "length ws \<le> SHELL_MAX_ARGS"
  shows "execute_command (command_of sps) b s = run_words ws b"
proof -
  have len: "length sps = length ws" using assms(1) by (rule list_all2_lengthD)
  obtain sp sps' w ws' where e: "sps = sp # sps'" "ws = w # ws'" using assms(2) len by (cases sps; cases ws) auto
  let ?c = "command_of sps"
  obtain ys where c: "argc ?c = length sps" "argv ?c = sps @ ys" using command_of_sel [of sps] assms(3) len by auto
  have sp: "as_str sp s = uret w" "strs [1..<argc ?c] (argv ?c) s = uret ws'"
    using assms(1) e c strs_spelled [of s sps' ws' "[sp]" ys] by (simp_all add: spells_def)
  have "element (argv ?c) 0 = uret sp" using c(2) e by (simp add: element_def)
  then show ?thesis using c(1) e sp by (simp add: execute_command_def run_words_def Let_def uexit_bind)
qed

definition builds :: "u8 list \<Rightarrow> ExecutionPipeline \<Rightarrow> u8 list list list \<Rightarrow> bool" where
  "builds s pl cs \<longleftrightarrow> count pl = length cs \<and> length (commands pl) = MAX_COMMANDS
     \<and> (\<forall>b. for_commands [0..<count pl] (commands pl) b s = run_all (\<lambda>ws. run_words ws b) cs)"

lemma builds_new: "builds s ExecutionPipeline_new []"
  by (simp add: builds_def ExecutionPipeline_new_def)

lemma for_commands_append: "for_commands (is @ js) cs b s = ubind (for_commands is cs b s) (\<lambda>_. for_commands js cs b s)"
  by (induction "is") simp_all

lemma for_commands_cong: "(\<And>i. i \<in> set is \<Longrightarrow> element cs i = element ds i) \<Longrightarrow> for_commands is cs b s = for_commands is ds b s"
  by (induction "is") simp_all

lemma run_all_append: "run_all f (xs @ ys) = ubind (run_all f xs) (\<lambda>_. run_all f ys)"
  by (induction xs) simp_all

lemma builds_push:
  assumes "builds s pl cs" "length cs < MAX_COMMANDS" "\<And>b. execute_command c b s = run_words ws b"
  shows "push_command c pl = uret (with_command c pl)" "builds s (with_command c pl) (cs @ [ws])"
proof -
  have p: "count pl = length cs" "length (commands pl) = MAX_COMMANDS" "for_commands [0..<length cs] (commands pl) b s = run_all (\<lambda>ws. run_words ws b) cs" for b
    using assms(1) by (auto simp: builds_def)
  show "push_command c pl = uret (with_command c pl)" using p assms(2) by (simp add: push_room)
  let ?cs = "(commands pl)[length cs := c]"
  have "for_commands [0..<length cs] ?cs b s = for_commands [0..<length cs] (commands pl) b s" for b by (rule for_commands_cong) (simp add: element_def)
  moreover have "element ?cs (length cs) = uret c" using p(2) assms(2) by (simp add: element_def)
  ultimately show "builds s (with_command c pl) (cs @ [ws])"
    using p assms(3) by (simp add: builds_def with_command_def for_commands_append run_all_append)
qed

lemma run_pipeline:
  assumes "length s \<le> 255" "(x, sep) \<in> {(0x3B, Semicolon), (0x26, Background)}"
  shows "drop pos s = render_pipeline cs @ x # xs \<Longrightarrow> cs \<noteq> [] \<Longrightarrow> list_all command_ok cs \<Longrightarrow> builds s pl ds \<Longrightarrow> length ds + length cs \<le> MAX_COMMANDS \<Longrightarrow>
    run_tokens s (snd (tokens s pos)) (fst (tokens s pos)) pl Command_new =
      ubind (run_all (\<lambda>ws. run_words ws (sep = Background)) (ds @ cs)) (\<lambda>_.
        let q = pos + length (render_pipeline cs) + 1 in run_tokens s (snd (tokens s q)) (fst (tokens s q)) ExecutionPipeline_new Command_new)"
proof (induction cs arbitrary: pos pl ds)
  case Nil
  then show ?case by simp
next
  case (Cons c cs)
  let ?q = "pos + length (render_command c)"
  have d: "drop pos s = render_command c @ ((if cs = [] then [] else 0x7C # render_pipeline cs) @ x # xs)" using Cons.prems(1) by simp
  have ok: "c \<noteq> []" "length c \<le> SHELL_MAX_ARGS" "list_all word_ok c" using Cons.prems(3) by (auto simp: command_ok_def)
  obtain sps where sps: "list_all2 (spells s) sps c" "tokens s pos = (map Word sps @ fst (tokens s ?q), snd (tokens s ?q))"
    using tokens_command [OF assms(1) d ok(3)] by blast
  have len: "length sps = length c" using sps(1) by (rule list_all2_lengthD)
  have a: "run_tokens s (snd (tokens s pos)) (fst (tokens s pos)) pl Command_new = run_tokens s (snd (tokens s ?q)) (fst (tokens s ?q)) pl (command_of sps)"
    unfolding sps(2) command_of_def using run_args [of Command_new sps] len ok(2) by (simp add: Command_new_def)
  have ac: "argc (command_of sps) \<noteq> 0" using command_of_sel(1) [of sps] len ok(1,2) by simp
  have ct: "count pl < MAX_COMMANDS" "length ds < MAX_COMMANDS" using Cons.prems(4,5) by (simp_all add: builds_def)
  note bp = builds_push [OF Cons.prems(4) ct(2) execute_spelled [OF sps(1) ok(1,2)]]
  note b = bp(2)
  show ?case
  proof (cases "cs = []")
    case True
    have "drop ?q s = x # xs" using drop_append [OF d] True by simp
    then have t: "tokens s ?q = (sep # fst (tokens s (?q + 1)), snd (tokens s (?q + 1)))" by (rule token_separator) (use assms(2) in auto)
    have "finish_command (command_of sps) pl = uret (Inr (with_command (command_of sps) pl, Command_new))" using ac ct(1) bp(1) by (simp add: finish_command_def)
    moreover have "0 < count (with_command (command_of sps) pl)" by (simp add: with_command_def)
    moreover have "execute_pipeline (with_command (command_of sps) pl) bg s = run_all (\<lambda>ws. run_words ws bg) (ds @ [c])" for bg
      using b unfolding execute_pipeline_def builds_def by blast
    ultimately show ?thesis unfolding a t using True assms(2) by (auto simp: Let_def)
  next
    case False
    have dq: "drop ?q s = 0x7C # render_pipeline cs @ x # xs" using drop_append [OF d] False by simp
    have t: "tokens s ?q = (Pipe # fst (tokens s (?q + 1)), snd (tokens s (?q + 1)))" by (rule token_separator [OF dq]) simp
    have dp: "drop (?q + 1) s = render_pipeline cs @ x # xs" using drop_nth [OF dq] by simp
    have cl: "list_all command_ok cs" "length (ds @ [c]) + length cs \<le> MAX_COMMANDS" using Cons.prems(3,5) by simp_all
    have e: "pos + length (render_pipeline (c # cs)) + 1 = ?q + 1 + length (render_pipeline cs) + 1" using False by simp
    have "run_tokens s (snd (tokens s pos)) (fst (tokens s pos)) pl Command_new
        = run_tokens s (snd (tokens s (?q + 1))) (fst (tokens s (?q + 1))) (with_command (command_of sps) pl) Command_new"
      unfolding a t using ac ct(1) bp(1) by simp
    moreover have "ds @ c # cs = (ds @ [c]) @ cs" by simp
    ultimately show ?thesis unfolding e using Cons.IH [OF dp False cl(1) b cl(2)] by (simp only:)
  qed
qed

lemma run_lines:
  assumes "length s \<le> 255"
  shows "drop pos s = render_line l \<Longrightarrow> pos \<le> length s \<Longrightarrow> list_all (\<lambda>(p, _). pipeline_ok p) l \<Longrightarrow>
    run_tokens s (snd (tokens s pos)) (fst (tokens s pos)) ExecutionPipeline_new Command_new = ubind (run_line l) (\<lambda>_. uret (Inr ()))"
proof (induction l arbitrary: pos)
  case Nil
  then have "pos = length s" by (simp add: render_line_def)
  then show ?case by (simp add: tokens_end run_line_def finish_command_def Command_new_def ExecutionPipeline_new_def)
next
  case (Cons pb l)
  obtain p bg where pb: "pb = (p, bg)" by force
  let ?sep = "if bg then Background else Semicolon" and ?x = "if bg then 0x26 else 0x3B :: u8"
  have x: "(?x, ?sep) \<in> {(0x3B, Semicolon), (0x26, Background)}" by simp
  have d: "drop pos s = render_pipeline p @ ?x # render_line l" using Cons.prems(1) pb by (simp add: render_line_def)
  have ok: "p \<noteq> []" "list_all command_ok p" "length [] + length p \<le> MAX_COMMANDS" using Cons.prems(3) pb by (auto simp: pipeline_ok_def)
  let ?q = "pos + length (render_pipeline p) + 1"
  have "drop ?q s = render_line l" "?q \<le> length s" using drop_append [OF d] drop_nth [of "pos + length (render_pipeline p)" s] by auto
  from Cons.IH [OF this] Cons.prems(3) have ih: "run_tokens s (snd (tokens s ?q)) (fst (tokens s ?q)) ExecutionPipeline_new Command_new = ubind (run_line l) (\<lambda>_. uret (Inr ()))" by simp
  show ?case using run_pipeline [OF assms x d ok(1,2) builds_new ok(3)] ih pb by (simp add: run_line_def Let_def)
qed

text \<open>C12. The shell runs what is written. Take any line of at most 255 bytes made of pipelines of at most 8 commands of at most 16 words each, the words quoted where they
  contain special characters and every pipeline ended by ; or &: parsing and running the line is exactly to run its commands in order with these words as program and
  arguments (a pipe only separates commands), in the background for &, and reports no error.\<close>

theorem shell_runs_line:
  assumes "line_ok l"
  shows "parse_and_run (render_line l) = ubind (run_line l) (\<lambda>_. uret (Inr ()))"
  unfolding parse_and_run_def parse_loop_tokens using run_lines [of "render_line l" 0 l] assms by (simp add: line_ok_def)

theorem shell_runs_line_witness:
  "parse_and_run (lit ''echo \"a b\" |wc ;ls &'') = ubind (run_line [([[lit ''echo'', lit ''a b''], [lit ''wc'']], False), ([[lit ''ls'']], True)]) (\<lambda>_. uret (Inr ()))"
proof -
  let ?l = "[([[lit ''echo'', lit ''a b''], [lit ''wc'']], False), ([[lit ''ls'']], True)]"
  have r: "render_line ?l = lit ''echo \"a b\" |wc ;ls &''"
    by (simp add: render_line_def render_command_def render_word_def plain_def in_word_def is_ascii_whitespace_def lit_def)
  have "line_ok ?l"
    unfolding line_ok_def r by (simp add: pipeline_ok_def command_ok_def word_ok_def SHELL_MAX_ARGS_def MAX_COMMANDS_def lit_def)
  from shell_runs_line [OF this] show ?thesis unfolding r .
qed

end
