(* ===== verification/Tetris.thy ===== *)
theory Tetris
  imports UserSys
begin

text \<open>
  The game of \<^verbatim>\<open>user/src/bin/tetris.rs\<close>. The board is a list of twenty rows of ten cells, a piece four rows of four. \<^verbatim>\<open>isize\<close> coordinates are integers
  (the invariant bounds them); adding to the score can overflow, which panics. A frame of the main loop draws the board, polls a key, and every few frames lets the
  piece fall.
\<close>

section \<open>Definitions\<close>

definition BOARD_WIDTH :: nat where "BOARD_WIDTH = 10"

definition BOARD_HEIGHT :: nat where "BOARD_HEIGHT = 20"

definition SHAPES :: "u8 list list list" where
  "SHAPES =
    [[[0,0,0,0], [1,1,1,1], [0,0,0,0], [0,0,0,0]],
     [[1,0,0,0], [1,1,1,0], [0,0,0,0], [0,0,0,0]],
     [[0,0,1,0], [1,1,1,0], [0,0,0,0], [0,0,0,0]],
     [[0,1,1,0], [0,1,1,0], [0,0,0,0], [0,0,0,0]],
     [[0,1,1,0], [1,1,0,0], [0,0,0,0], [0,0,0,0]],
     [[0,1,0,0], [1,1,1,0], [0,0,0,0], [0,0,0,0]],
     [[1,1,0,0], [0,1,1,0], [0,0,0,0], [0,0,0,0]]]"

record GameState =
  board :: "u8 list list"
  current_piece :: "u8 list list"
  piece_x :: int
  piece_y :: int
  score :: nat
  game_over :: bool
  rng_seed :: u32

definition next_piece_index :: "GameState \<Rightarrow> nat \<times> GameState" where
  "next_piece_index self =
     (let self = self\<lparr>rng_seed := rng_seed self * 1103515245 + 12345\<rparr>
      in (unat ((rng_seed self div 65536) mod 7), self))"

definition check_collision :: "GameState \<Rightarrow> int \<Rightarrow> int \<Rightarrow> u8 list list \<Rightarrow> bool" where
  "check_collision self next_x next_y piece =
     list_ex (\<lambda>r. list_ex (\<lambda>c.
       piece ! r ! c \<noteq> 0 \<and>
       (let board_x = next_x + int c; board_y = next_y + int r in
        board_x < 0 \<or> int BOARD_WIDTH \<le> board_x \<or> int BOARD_HEIGHT \<le> board_y
        \<or> 0 \<le> board_y \<and> board self ! nat board_y ! nat board_x \<noteq> 0)) [0..<4]) [0..<4]"

definition spawn_piece :: "GameState \<Rightarrow> GameState" where
  "spawn_piece self =
     (let (shape_idx, self) = next_piece_index self;
          self = self\<lparr>current_piece := SHAPES ! shape_idx, piece_x := int BOARD_WIDTH div 2 - 2, piece_y := 0\<rparr>
      in if check_collision self (piece_x self) (piece_y self) (current_piece self) then self\<lparr>game_over := True\<rparr> else self)"

definition GameState_new :: GameState where
  "GameState_new = spawn_piece \<lparr>board = replicate BOARD_HEIGHT (replicate BOARD_WIDTH 0), current_piece = replicate 4 (replicate 4 0),
     piece_x = 0, piece_y = 0, score = 0, game_over = False, rng_seed = 0x5EED\<rparr>"

definition rotated :: "u8 list list \<Rightarrow> u8 list list" where
  "rotated p = map (\<lambda>i. map (\<lambda>j. p ! (3 - j) ! i) [0..<4]) [0..<4]"

definition rotate_piece :: "GameState \<Rightarrow> GameState" where
  "rotate_piece self =
     (let r = rotated (current_piece self)
      in if \<not> check_collision self (piece_x self) (piece_y self) r then self\<lparr>current_piece := r\<rparr> else self)"

definition move_horizontal :: "int \<Rightarrow> GameState \<Rightarrow> GameState" where
  "move_horizontal dir self =
     (if \<not> check_collision self (piece_x self + dir) (piece_y self) (current_piece self) then self\<lparr>piece_x := piece_x self + dir\<rparr> else self)"

definition lock_cell :: "GameState \<Rightarrow> nat \<times> nat \<Rightarrow> u8 list list \<Rightarrow> u8 list list" where
  "lock_cell self rc b = (case rc of (r, c) \<Rightarrow>
     if current_piece self ! r ! c \<noteq> 0 then
       (let board_y = piece_y self + int r; board_x = piece_x self + int c in
        if 0 \<le> board_y \<and> board_y < int BOARD_HEIGHT \<and> 0 \<le> board_x \<and> board_x < int BOARD_WIDTH
        then b[nat board_y := (b ! nat board_y)[nat board_x := 1]] else b)
     else b)"

definition lock_piece :: "GameState \<Rightarrow> GameState" where
  "lock_piece self = self\<lparr>board := fold (lock_cell self) (List.product [0..<4] [0..<4]) (board self)\<rparr>"

definition row_full :: "u8 list \<Rightarrow> bool" where
  "row_full row = list_all (\<lambda>c. row ! c \<noteq> 0) [0..<BOARD_WIDTH]"

definition shift_down :: "nat \<Rightarrow> u8 list list \<Rightarrow> u8 list list" where
  "shift_down r b = (fold (\<lambda>src_r b. b[src_r := b ! (src_r - 1)]) (rev [1..<r + 1]) b)[0 := replicate BOARD_WIDTH 0]"

definition clear_row :: "nat \<Rightarrow> u8 list list \<times> nat \<Rightarrow> u8 list list \<times> nat" where
  "clear_row r bl = (case bl of (b, lines_cleared) \<Rightarrow> if row_full (b ! r) then (shift_down r b, lines_cleared + 1) else (b, lines_cleared))"

definition clear_lines :: "GameState \<Rightarrow> string + GameState" where
  "clear_lines self =
     (let (b, lines_cleared) = fold clear_row (rev [0..<BOARD_HEIGHT]) (board self, 0);
          self = self\<lparr>board := b\<rparr> in
      if 0 < lines_cleared then
        (if 2 ^ 64 \<le> score self + lines_cleared * 100 then Inl ''attempt to add with overflow''
         else Inr (self\<lparr>score := score self + lines_cleared * 100\<rparr>))
      else Inr self)"

definition game_tick :: "GameState \<Rightarrow> string + GameState" where
  "game_tick self =
     (if game_over self then Inr self
      else if \<not> check_collision self (piece_x self) (piece_y self + 1) (current_piece self)
      then Inr (self\<lparr>piece_y := piece_y self + 1\<rparr>)
      else rbind (clear_lines (lock_piece self)) (\<lambda>self. Inr (spawn_piece self)))"

definition render_cell :: "GameState \<Rightarrow> nat \<Rightarrow> nat \<Rightarrow> u8 list" where
  "render_cell self r c =
     (let piece_r = int r - piece_y self; piece_c = int c - piece_x self;
          is_piece_block = 0 \<le> piece_r \<and> piece_r < 4 \<and> 0 \<le> piece_c \<and> piece_c < 4 \<and> current_piece self ! nat piece_r ! nat piece_c \<noteq> 0 in
      if board self ! r ! c \<noteq> 0 \<or> is_piece_block then lit ''[]'' else lit ''  '')"

definition render_lines :: "GameState \<Rightarrow> u8 list list" where
  "render_lines self =
     [0x1B # lit ''[2J'' @ 0x1B # lit ''[H'', lit ''=== ATOS::TETRIS ==='' @ [0x0A],
      lit ''Score: '' @ decimal (score self) @ [0x0A], lit ''+--------------------+'' @ [0x0A]]
     @ concat (map (\<lambda>r. [lit ''|''] @ map (render_cell self r) [0..<BOARD_WIDTH] @ [lit ''|'' @ [0x0A]]) [0..<BOARD_HEIGHT])
     @ [lit ''+--------------------+'' @ [0x0A], lit ''Controls: A=Left, D=Right, W=Rotate, S=Drop, Q=Quit'' @ [0x0A]]"

primrec uprints :: "u8 list list \<Rightarrow> unit uprog" where
  "uprints [] = uret ()"
| "uprints (s # ss) = ubind (uprint s) (\<lambda>_. uprints ss)"

definition of_result :: "string + 'a \<Rightarrow> 'a uprog" where
  "of_result r = (case r of Inl e \<Rightarrow> upanic e | Inr v \<Rightarrow> uret v)"

definition press :: "u8 \<Rightarrow> GameState \<Rightarrow> string + GameState option" where
  "press input game =
     (if input = 0x61 \<or> input = 0x41 then Inr (Some (move_horizontal (-1) game))
      else if input = 0x64 \<or> input = 0x44 then Inr (Some (move_horizontal 1 game))
      else if input = 0x77 \<or> input = 0x57 then Inr (Some (rotate_piece game))
      else if input = 0x73 \<or> input = 0x53 then rbind (game_tick game) (\<lambda>g. Inr (Some g))
      else if input = 0x71 \<or> input = 0x51 then Inr None
      else Inr (Some game))"

definition drop_interval :: "nat \<Rightarrow> nat" where
  "drop_interval sc = (if sc \<le> 300 then 10 else if sc \<le> 800 then 7 else 4)"

definition tetris_frame :: "GameState \<times> nat \<times> nat \<Rightarrow> (GameState + GameState \<times> nat \<times> nat) uprog" where
  "tetris_frame st = (case st of (game, game_ticks, drop_frame_interval) \<Rightarrow>
     ubind (uprints (render_lines game)) (\<lambda>_.
     ubind upoll_char (\<lambda>input.
     ubind (of_result (press input game)) (\<lambda>k. case k of
       None \<Rightarrow> uret (Inl game)
     | Some game \<Rightarrow>
         (let game_ticks = game_ticks + 1 in
          ubind (if drop_frame_interval \<le> game_ticks
                 then ubind (of_result (game_tick game)) (\<lambda>game. uret (game, 0, drop_interval (score game)))
                 else uret (game, game_ticks, drop_frame_interval)) (\<lambda>st.
          ubind (usleep 50) (\<lambda>_. uret (Inr st))))))))"

lemma shrinks_uprints: "shrinks (uprints ss)"
  by (induction ss) (auto intro!: shrinks_intros)

lemma shrinks_of_result: "shrinks (of_result r)"
  by (auto simp: of_result_def intro!: shrinks_basic split: sum.splits)

lemma tetris_frame_shorter: "tetris_frame st e = Inr (r, e') \<Longrightarrow> length (replies e') < length (replies e)"
  unfolding tetris_frame_def render_lines_def append.simps uprints.simps uprint_def sys_write_def ubind_simps case_prod_beta
  by (erule ubind_usys_shorter) (auto intro!: shrinks_intros shrinks_uprints shrinks_of_result simp: Let_def split: option.splits)

function tetris_loop :: "GameState \<times> nat \<times> nat \<Rightarrow> uenv \<Rightarrow> (ustop \<times> uenv) + (GameState \<times> uenv)" where
  "tetris_loop st e =
     (if game_over (fst st) then Inr (fst st, e)
      else case tetris_frame st e of
        Inl x \<Rightarrow> Inl x
      | Inr (Inl game, e) \<Rightarrow> Inr (game, e)
      | Inr (Inr st, e) \<Rightarrow> tetris_loop st e)"
  by pat_completeness auto

termination
  by (relation "measure (\<lambda>(st, e). length (replies e))") (auto dest: tetris_frame_shorter)

definition tetris_main :: "unit uprog" where
  "tetris_main =
     ubind (tetris_loop (GameState_new, 0, 10)) (\<lambda>game.
     ubind (uprints [0x1B # lit ''[2J'' @ 0x1B # lit ''[H'', lit ''====================='' @ [0x0A], lit ''     GAME OVER!      '' @ [0x0A],
       lit ''  Final Score: '' @ decimal (score game) @ lit ''    '' @ [0x0A], lit ''====================='' @ [0x0A]]) (\<lambda>_.
     uexit 0))"

declare tetris_loop.simps [simp del]

end
