(* ===== verification/TetrisSpec.thy ===== *)
theory TetrisSpec
  imports Tetris
begin

text \<open>
  The rules of the game that the code keeps: the shapes of board and piece, that a falling piece never overlaps anything, that blocks are neither lost nor
  invented, and what \<^verbatim>\<open>clear_lines\<close> does exactly.
\<close>

section \<open>Clearing lines\<close>

abbreviation empty_row :: "u8 list" where
  "empty_row \<equiv> replicate BOARD_WIDTH 0"

lemma empty_row_not_full: "\<not> row_full empty_row"
  by (auto simp: row_full_def BOARD_WIDTH_def list_all_iff intro!: exI [of _ 0])

lemma shift_rows:
  "r < length b \<Longrightarrow> fold (\<lambda>src_r b. b[src_r := b ! (src_r - 1)]) (rev [1..<Suc r]) b = b ! 0 # take r b @ drop (Suc r) b"
proof (induction r arbitrary: b)
  case 0
  then show ?case by (cases b) simp_all
next
  case (Suc r)
  let ?b = "b[Suc r := b ! r]"
  have "fold (\<lambda>src_r b. b[src_r := b ! (src_r - 1)]) (rev [1..<Suc (Suc r)]) b = ?b ! 0 # take r ?b @ drop (Suc r) ?b"
    using Suc by simp
  also have "drop (Suc r) ?b = b ! r # drop (Suc (Suc r)) b" using Suc.prems by (simp add: Cons_nth_drop_Suc [symmetric])
  also have "?b ! 0 = b ! 0" by simp
  finally show ?case using Suc.prems by (simp add: take_Suc_conv_app_nth)
qed

lemma shift_down_spec: "r < length b \<Longrightarrow> shift_down r b = empty_row # take r b @ drop (Suc r) b"
  using shift_rows [of r b] by (simp add: shift_down_def)

text \<open>From the bottom up: a full row disappears, and the row that falls into its place is not looked at again.\<close>

fun sweep :: "u8 list list \<Rightarrow> u8 list list" where
  "sweep [] = []"
| "sweep [x] = (if row_full x then [] else [x])"
| "sweep (x # y # ys) = (if row_full x then y # sweep ys else x # sweep (y # ys))"

lemma sweep_snoc: "\<not> row_full z \<Longrightarrow> sweep (xs @ [z]) = sweep xs @ [z]"
proof (induction xs rule: sweep.induct)
  case (3 x y ys)
  then show ?case by simp
qed simp_all

lemma sweep_Cons: "\<not> row_full x \<Longrightarrow> sweep (x # xs) = x # sweep xs"
  by (cases xs) simp_all

lemma length_sweep: "length (sweep xs) \<le> length xs"
  by (induction xs rule: sweep.induct) auto

lemma clear_loop:
  "n \<le> length b \<Longrightarrow> fold clear_row (rev [0..<n]) (b, l) =
     (replicate (n - length (sweep (rev (take n b)))) empty_row @ rev (sweep (rev (take n b))) @ drop n b, l + (n - length (sweep (rev (take n b)))))"
proof (induction n arbitrary: b l)
  case 0
  then show ?case by simp
next
  case (Suc m)
  have t: "rev (take (Suc m) b) = b ! m # rev (take m b)" using Suc.prems by (simp add: take_Suc_conv_app_nth)
  show ?case
  proof (cases "row_full (b ! m)")
    case False
    have "sweep (b ! m # rev (take m b)) = b ! m # sweep (rev (take m b))" using sweep_Cons [OF False] by simp
    then show ?thesis using Suc.IH [of b l] Suc.prems False t by (simp add: clear_row_def Cons_nth_drop_Suc)
  next
    case full: True
    let ?b = "empty_row # take m b @ drop (Suc m) b"
    have step: "fold clear_row (rev [0..<Suc m]) (b, l) = fold clear_row (rev [0..<m]) (?b, l + 1)"
      using full Suc.prems by (simp add: clear_row_def shift_down_spec)
    show ?thesis
    proof (cases m)
      case 0
      then show ?thesis using step t full by simp
    next
      case (Suc k)
      have tk: "take m ?b = empty_row # take k b" "drop m ?b = b ! k # drop (Suc m) b"
        using Suc \<open>Suc m \<le> length b\<close> by (simp_all add: take_Cons' drop_Cons' take_Suc_conv_app_nth min_def)
      have r: "rev (take m b) = b ! k # rev (take k b)" using Suc \<open>Suc m \<le> length b\<close> by (simp add: take_Suc_conv_app_nth)
      define sw where "sw = sweep (rev (take k b))"
      have sw: "sweep (rev (empty_row # take k b)) = sw @ [empty_row]" using sweep_snoc [OF empty_row_not_full] by (simp add: sw_def)
      have "sweep (rev (take (Suc m) b)) = b ! k # sw" unfolding t r using full by (simp add: sw_def)
      moreover have "length sw \<le> k" using length_sweep [of "rev (take k b)"] Suc \<open>Suc m \<le> length b\<close> by (simp add: sw_def)
      moreover have "m \<le> length ?b" using \<open>Suc m \<le> length b\<close> by simp
      ultimately show ?thesis unfolding step Suc.IH [OF \<open>m \<le> length ?b\<close>] tk sw using Suc
        by (simp add: replicate_append_same Suc_diff_le)
    qed
  qed
qed

definition cleared :: "u8 list list \<Rightarrow> nat" where
  "cleared b = length b - length (sweep (rev b))"

definition clear_board :: "u8 list list \<Rightarrow> u8 list list" where
  "clear_board b = replicate (cleared b) empty_row @ rev (sweep (rev b))"

lemma clear_lines_spec:
  assumes "length (board g) = BOARD_HEIGHT"
  shows "clear_lines g = (if 0 < cleared (board g) \<and> 2 ^ 64 \<le> score g + cleared (board g) * 100 then Inl ''attempt to add with overflow''
     else Inr (g\<lparr>board := clear_board (board g), score := score g + cleared (board g) * 100\<rparr>))"
proof -
  have f: "fold clear_row (rev [0..<BOARD_HEIGHT]) (board g, 0) = (clear_board (board g), cleared (board g))"
    using clear_loop [of BOARD_HEIGHT "board g" 0] assms by (simp add: clear_board_def cleared_def)
  show ?thesis unfolding clear_lines_def f by (auto simp: Let_def)
qed

lemma sweep_no_adjacent:
  "(\<forall>i. Suc i < length xs \<longrightarrow> \<not> (row_full (xs ! i) \<and> row_full (xs ! Suc i))) \<Longrightarrow> sweep xs = filter (\<lambda>x. \<not> row_full x) xs"
proof (induction xs rule: sweep.induct)
  case (3 x y ys)
  have tl: "\<forall>i. Suc i < length (y # ys) \<longrightarrow> \<not> (row_full ((y # ys) ! i) \<and> row_full ((y # ys) ! Suc i))" using 3(3) by (metis Suc_less_eq length_Cons nth_Cons_Suc)
  then have tl2: "\<forall>i. Suc i < length ys \<longrightarrow> \<not> (row_full (ys ! i) \<and> row_full (ys ! Suc i))" by (metis Suc_less_eq length_Cons nth_Cons_Suc)
  have "row_full x \<Longrightarrow> \<not> row_full y" using 3(3) [rule_format, of 0] by simp
  then show ?case using 3(1) tl2 3(2) tl by auto
qed simp_all

lemma sweep_none: "\<forall>row \<in> set xs. \<not> row_full row \<Longrightarrow> sweep xs = xs"
  by (induction xs rule: sweep.induct) auto

section \<open>The shape of the game\<close>

definition filled :: "u8 list \<Rightarrow> nat" where
  "filled row = (\<Sum>c\<leftarrow>row. of_bool (c \<noteq> 0))"

definition blocks :: "u8 list list \<Rightarrow> nat" where
  "blocks b = (\<Sum>row\<leftarrow>b. filled row)"

definition wf_board :: "u8 list list \<Rightarrow> bool" where
  "wf_board b \<longleftrightarrow> length b = BOARD_HEIGHT \<and> (\<forall>row \<in> set b. length row = BOARD_WIDTH \<and> set row \<subseteq> {0, 1})"

definition wf_piece :: "u8 list list \<Rightarrow> bool" where
  "wf_piece p \<longleftrightarrow> length p = 4 \<and> (\<forall>row \<in> set p. length row = 4 \<and> set row \<subseteq> {0, 1}) \<and> blocks p = 4"

definition wf_game :: "GameState \<Rightarrow> bool" where
  "wf_game g \<longleftrightarrow> wf_board (board g) \<and> wf_piece (current_piece g)
     \<and> -3 \<le> piece_x g \<and> piece_x g \<le> 9 \<and> 0 \<le> piece_y g \<and> piece_y g \<le> 19
     \<and> (\<not> game_over g \<longrightarrow> \<not> check_collision g (piece_x g) (piece_y g) (current_piece g))
     \<and> 100 dvd score g \<and> 40 dvd 10 * blocks (board g) + score g"

lemma blocks_simps [simp]: "blocks [] = 0" "blocks (r # rs) = filled r + blocks rs" "blocks (xs @ ys) = blocks xs + blocks ys" "blocks (rev xs) = blocks xs"
  by (simp_all add: blocks_def rev_map [symmetric])

lemma filled_full: "row_full row \<Longrightarrow> length row = BOARD_WIDTH \<Longrightarrow> filled row = BOARD_WIDTH"
proof -
  assume r: "row_full row" "length row = BOARD_WIDTH"
  have "filled row = (\<Sum>c\<leftarrow>row. 1)"
    unfolding filled_def using r by (intro arg_cong [where f = sum_list] map_cong refl) (auto simp: row_full_def list_all_iff in_set_conv_nth)
  then show ?thesis using r(2) by (simp only: sum_list_triv) simp
qed

lemma filled_empty: "blocks (replicate n empty_row) = 0"
  by (induction n) (simp_all add: filled_def sum_list_replicate)

lemma sweep_blocks:
  "(\<And>row. row \<in> set b \<Longrightarrow> length row = BOARD_WIDTH) \<Longrightarrow> blocks b = blocks (sweep b) + BOARD_WIDTH * (length b - length (sweep b))"
proof (induction b rule: sweep.induct)
  case (3 x y ys)
  show ?case
  proof (cases "row_full x")
    case True
    then show ?thesis using 3(1) [OF True] 3(3) filled_full [of x] length_sweep [of ys] by (simp add: Suc_diff_le)
  next
    case False
    then show ?thesis using 3(2) [OF False] 3(3) by simp
  qed
qed (auto simp: filled_full)

lemma set_sweep: "set (sweep b) \<subseteq> set b"
  by (induction b rule: sweep.induct) auto

lemma clear_board_wf:
  assumes "wf_board b"
  shows "wf_board (clear_board b)" "blocks b = blocks (clear_board b) + 10 * cleared b" "cleared b \<le> 20"
proof -
  have b: "length b = BOARD_HEIGHT" "\<And>row. row \<in> set b \<Longrightarrow> length row = BOARD_WIDTH \<and> set row \<subseteq> {0, 1}" using assms by (auto simp: wf_board_def)
  have "cleared b + length (sweep (rev b)) = length b" using length_sweep [of "rev b"] by (simp add: cleared_def)
  then show "wf_board (clear_board b)"
    using b set_sweep [of "rev b"] by (auto simp: wf_board_def clear_board_def)
  show "blocks b = blocks (clear_board b) + 10 * cleared b"
    using sweep_blocks [of "rev b"] b(2) by (simp add: clear_board_def cleared_def filled_empty [unfolded BOARD_WIDTH_def] BOARD_WIDTH_def)
  show "cleared b \<le> 20" using b(1) by (simp add: cleared_def BOARD_HEIGHT_def)
qed

section \<open>Pieces\<close>

lemma list4: "length xs = 4 \<longleftrightarrow> (\<exists>a b c d. xs = [a, b, c, d])"
  by (auto simp: length_Suc_conv numeral_eq_Suc)

lemma upt4: "[0..<4] = [0, 1, 2, 3 :: nat]"
  by (simp add: upt_rec)

lemma wf_rotated:
  assumes "wf_piece p"
  shows "wf_piece (rotated p)"
proof -
  obtain r1 r2 r3 r4 where p: "p = [r1, r2, r3, r4]" using assms by (auto simp: wf_piece_def list4)
  then obtain a1 b1 c1 d1 a2 b2 c2 d2 a3 b3 c3 d3 a4 b4 c4 d4 where
    "r1 = [a1, b1, c1, d1]" "r2 = [a2, b2, c2, d2]" "r3 = [a3, b3, c3, d3]" "r4 = [a4, b4, c4, d4]"
    using assms by (auto simp: wf_piece_def list4)
  then show ?thesis using assms p by (simp add: wf_piece_def rotated_def upt4 filled_def ac_simps)
qed

lemma wf_shapes: "i < 7 \<Longrightarrow> wf_piece (SHAPES ! i)"
proof -
  have "list_all wf_piece SHAPES" by (simp add: SHAPES_def wf_piece_def filled_def)
  moreover have "length SHAPES = 7" by (simp add: SHAPES_def)
  ultimately show "i < 7 \<Longrightarrow> wf_piece (SHAPES ! i)" by (simp add: list_all_length)
qed

lemma collision_iff:
  "check_collision g x y p \<longleftrightarrow> (\<exists>r < 4. \<exists>c < 4. p ! r ! c \<noteq> 0 \<and> (x + int c < 0 \<or> 10 \<le> x + int c \<or> 20 \<le> y + int r
     \<or> 0 \<le> y + int r \<and> board g ! nat (y + int r) ! nat (x + int c) \<noteq> 0))"
  by (auto simp: check_collision_def list_ex_iff Let_def BOARD_WIDTH_def BOARD_HEIGHT_def Bex_def)

lemma piece_nonempty:
  assumes "wf_piece p"
  shows "\<exists>r < 4. \<exists>c < 4. p ! r ! c \<noteq> 0"
proof (rule ccontr)
  assume z: "\<not> ?thesis"
  have l: "length p = 4" "\<And>r. r < 4 \<Longrightarrow> length (p ! r) = 4" using assms by (auto simp: wf_piece_def)
  have "filled (p ! r) = 0" if "r < 4" for r
    using z l(2) [OF that] that by (auto simp: filled_def in_set_conv_nth)
  then have "blocks p = 0" using l(1) by (auto simp: blocks_def in_set_conv_nth)
  then show False using assms by (simp add: wf_piece_def)
qed

lemma no_collision_bounds:
  assumes "wf_piece p" "\<not> check_collision g x y p"
  shows "-3 \<le> x" "x \<le> 9" "y \<le> 19"
proof -
  obtain r c where rc: "r < 4" "c < 4" "p ! r ! c \<noteq> 0" using piece_nonempty [OF assms(1)] by blast
  then have "\<not> (x + int c < 0 \<or> 10 \<le> x + int c \<or> 20 \<le> y + int r)" using assms(2) unfolding collision_iff by blast
  then show "-3 \<le> x" "x \<le> 9" "y \<le> 19" using rc by auto
qed

section \<open>Locking a piece\<close>

lemma filled_set:
  "x < length row \<Longrightarrow> row ! x = 0 \<Longrightarrow> filled (row[x := 1]) = filled row + 1"
  unfolding filled_def map_update by (subst sum_list_update) auto

lemma blocks_set:
  assumes "y < length b" "x < length (b ! y)" "b ! y ! x = 0"
  shows "blocks (b[y := (b ! y)[x := 1]]) = blocks b + 1"
proof -
  have "filled (b ! y) \<le> sum_list (map filled b)" using elem_le_sum_list [of y "map filled b"] assms(1) by simp
  then show ?thesis unfolding blocks_def map_update using assms filled_set [OF assms(2,3)] by (subst sum_list_update) auto
qed

definition lands :: "GameState \<Rightarrow> (nat \<times> nat) list \<Rightarrow> u8 list list \<Rightarrow> bool" where
  "lands g rcs b \<longleftrightarrow> (\<forall>(r, c) \<in> set rcs. current_piece g ! r ! c \<noteq> 0 \<longrightarrow>
     0 \<le> piece_y g + int r \<and> piece_y g + int r < 20 \<and> 0 \<le> piece_x g + int c \<and> piece_x g + int c < 10
     \<and> b ! nat (piece_y g + int r) ! nat (piece_x g + int c) = 0)"

lemma wf_board_set:
  assumes "wf_board b" "y < 20" "x < 10"
  shows "wf_board (b[y := (b ! y)[x := 1]])"
proof -
  have "length (b ! y) = BOARD_WIDTH" "set (b ! y) \<subseteq> {0, 1}" using assms by (auto simp: wf_board_def BOARD_HEIGHT_def)
  then have "length ((b ! y)[x := 1]) = BOARD_WIDTH \<and> set ((b ! y)[x := 1]) \<subseteq> {0, 1}" using set_update_subset_insert [of "b ! y" x 1] by auto
  then show ?thesis using assms(1) set_update_subset_insert [of b y "(b ! y)[x := 1]"] by (auto simp: wf_board_def)
qed

lemma lock_fold:
  "wf_board b \<Longrightarrow> distinct rcs \<Longrightarrow> lands g rcs b \<Longrightarrow>
   wf_board (fold (lock_cell g) rcs b) \<and> blocks (fold (lock_cell g) rcs b) = blocks b + (\<Sum>(r, c)\<leftarrow>rcs. of_bool (current_piece g ! r ! c \<noteq> 0))"
proof (induction rcs arbitrary: b)
  case Nil
  then show ?case by simp
next
  case (Cons rc rcs)
  obtain r c where rc: "rc = (r, c)" by force
  show ?case
  proof (cases "current_piece g ! r ! c = 0")
    case True
    then show ?thesis using Cons rc by (simp add: lock_cell_def lands_def)
  next
    case False
    let ?y = "nat (piece_y g + int r)" and ?x = "nat (piece_x g + int c)"
    have yx: "0 \<le> piece_y g + int r" "piece_y g + int r < 20" "0 \<le> piece_x g + int c" "piece_x g + int c < 10" "b ! ?y ! ?x = 0"
      using Cons.prems(3) False rc by (auto simp: lands_def)
    let ?b = "b[?y := (b ! ?y)[?x := 1]]"
    have l: "lock_cell g rc b = ?b" using False yx rc by (simp add: lock_cell_def Let_def BOARD_HEIGHT_def BOARD_WIDTH_def)
    have len: "?y < length b" "?x < length (b ! ?y)" using Cons.prems(1) yx by (auto simp: wf_board_def BOARD_HEIGHT_def BOARD_WIDTH_def)
    have "lands g rcs ?b" unfolding lands_def
    proof (intro ballI, clarify)
      fix r' c' assume m: "(r', c') \<in> set rcs" "current_piece g ! r' ! c' \<noteq> 0"
      then have n: "0 \<le> piece_y g + int r'" "piece_y g + int r' < 20" "0 \<le> piece_x g + int c'" "piece_x g + int c' < 10"
        "b ! nat (piece_y g + int r') ! nat (piece_x g + int c') = 0" using Cons.prems(3) by (auto simp: lands_def)
      have "(r', c') \<noteq> (r, c)" using m Cons.prems(2) rc by auto
      then have "nat (piece_y g + int r') \<noteq> ?y \<or> nat (piece_x g + int c') \<noteq> ?x" using n yx by auto
      then have "?b ! nat (piece_y g + int r') ! nat (piece_x g + int c') = 0" using n(5) len by (auto simp: nth_list_update)
      then show "0 \<le> piece_y g + int r' \<and> piece_y g + int r' < 20 \<and> 0 \<le> piece_x g + int c' \<and> piece_x g + int c' < 10
          \<and> ?b ! nat (piece_y g + int r') ! nat (piece_x g + int c') = 0" using n by simp
    qed
    moreover have "wf_board ?b" using wf_board_set [OF Cons.prems(1)] yx by simp
    ultimately show ?thesis using Cons.IH [of ?b] Cons.prems(2) l blocks_set [OF len yx(5)] False rc by simp
  qed
qed

lemma lock_piece_wf:
  assumes "wf_game g" "\<not> game_over g"
  shows "wf_board (board (lock_piece g))" "blocks (board (lock_piece g)) = blocks (board g) + 4"
proof -
  have w: "wf_board (board g)" "wf_piece (current_piece g)" "\<not> check_collision g (piece_x g) (piece_y g) (current_piece g)" "0 \<le> piece_y g"
    using assms by (auto simp: wf_game_def)
  have "lands g (List.product [0..<4] [0..<4]) (board g)"
    using w(3,4) unfolding collision_iff lands_def by (fastforce simp: not_le)
  note f = lock_fold [OF w(1) _ this]
  obtain r1 r2 r3 r4 where p: "current_piece g = [r1, r2, r3, r4]" using w(2) by (auto simp: wf_piece_def list4)
  then obtain a1 b1 c1 d1 a2 b2 c2 d2 a3 b3 c3 d3 a4 b4 c4 d4 where
    "r1 = [a1, b1, c1, d1]" "r2 = [a2, b2, c2, d2]" "r3 = [a3, b3, c3, d3]" "r4 = [a4, b4, c4, d4]"
    using w(2) by (auto simp: wf_piece_def list4)
  then have "(\<Sum>(r, c)\<leftarrow>List.product [0..<4] [0..<4]. of_bool (current_piece g ! r ! c \<noteq> 0)) = blocks (current_piece g)"
    using p by (simp add: upt4 filled_def)
  then show "wf_board (board (lock_piece g))" "blocks (board (lock_piece g)) = blocks (board g) + 4"
    using f w(2) by (simp_all add: lock_piece_def distinct_product wf_piece_def)
qed

text \<open>The cell of the board in row \<open>y\<close> and column \<open>x\<close> is covered by the falling piece.\<close>

definition covers :: "GameState \<Rightarrow> nat \<Rightarrow> nat \<Rightarrow> bool" where
  "covers g y x \<longleftrightarrow> (\<exists>r < 4. \<exists>c < 4. current_piece g ! r ! c \<noteq> 0 \<and> piece_y g + int r = int y \<and> piece_x g + int c = int x)"

lemma lock_one:
  assumes "wf_board b"
  shows "wf_board (lock_cell g (r, c) b)"
    "y < 20 \<Longrightarrow> x < 10 \<Longrightarrow> lock_cell g (r, c) b ! y ! x \<noteq> 0 \<longleftrightarrow>
       b ! y ! x \<noteq> 0 \<or> current_piece g ! r ! c \<noteq> 0 \<and> piece_y g + int r = int y \<and> piece_x g + int c = int x"
proof -
  have "length b = 20" "\<And>y. y < 20 \<Longrightarrow> length (b ! y) = 10" using assms by (auto simp: wf_board_def BOARD_HEIGHT_def BOARD_WIDTH_def)
  then show "wf_board (lock_cell g (r, c) b)"
    "y < 20 \<Longrightarrow> x < 10 \<Longrightarrow> lock_cell g (r, c) b ! y ! x \<noteq> 0 \<longleftrightarrow>
       b ! y ! x \<noteq> 0 \<or> current_piece g ! r ! c \<noteq> 0 \<and> piece_y g + int r = int y \<and> piece_x g + int c = int x"
    using assms wf_board_set [OF assms] by (auto simp: lock_cell_def Let_def BOARD_HEIGHT_def BOARD_WIDTH_def nth_list_update split: if_split_asm)
qed

lemma lock_cells:
  "wf_board b \<Longrightarrow> y < 20 \<Longrightarrow> x < 10 \<Longrightarrow> fold (lock_cell g) rcs b ! y ! x \<noteq> 0 \<longleftrightarrow>
     b ! y ! x \<noteq> 0 \<or> (\<exists>(r, c) \<in> set rcs. current_piece g ! r ! c \<noteq> 0 \<and> piece_y g + int r = int y \<and> piece_x g + int c = int x)"
proof (induction rcs arbitrary: b)
  case (Cons rc rcs)
  obtain r c where "rc = (r, c)" by force
  then show ?case using Cons.IH [OF lock_one(1) [OF Cons.prems(1)]] lock_one(2) [OF Cons.prems] Cons.prems(2,3) by auto
qed simp

lemma lock_piece_cells:
  assumes "wf_board (board g)" "y < 20" "x < 10"
  shows "board (lock_piece g) ! y ! x \<noteq> 0 \<longleftrightarrow> board g ! y ! x \<noteq> 0 \<or> covers g y x"
proof -
  have "(\<exists>(r, c) \<in> set (List.product [0..<4] [0..<4]). current_piece g ! r ! c \<noteq> 0 \<and> piece_y g + int r = int y \<and> piece_x g + int c = int x) \<longleftrightarrow> covers g y x"
    unfolding covers_def by (auto simp: Bex_def)
  then show ?thesis using lock_cells [OF assms, of g "List.product [0..<4] [0..<4]"] by (simp add: lock_piece_def)
qed

text \<open>A tick when the piece cannot fall: its cells become blocks of the board, full rows go, and the next piece appears.\<close>

lemma tick_lands:
  assumes "wf_game g" "\<not> game_over g" "check_collision g (piece_x g) (piece_y g + 1) (current_piece g)" "game_tick g = Inr g'"
  shows "g' = spawn_piece ((lock_piece g)\<lparr>board := clear_board (board (lock_piece g)), score := score g + cleared (board (lock_piece g)) * 100\<rparr>)"
    "board g' = clear_board (board (lock_piece g))" "score g' = score g + 100 * cleared (board (lock_piece g))"
    "blocks (board g') + 10 * cleared (board (lock_piece g)) = blocks (board g) + 4"
proof -
  note l = lock_piece_wf [OF assms(1,2)]
  have sc: "score (lock_piece g) = score g" by (simp add: lock_piece_def)
  show g': "g' = spawn_piece ((lock_piece g)\<lparr>board := clear_board (board (lock_piece g)), score := score g + cleared (board (lock_piece g)) * 100\<rparr>)"
    using assms(2-4) clear_lines_spec [of "lock_piece g"] l(1) sc by (auto simp: game_tick_def wf_board_def split: if_splits)
  have sp: "board (spawn_piece h) = board h" "score (spawn_piece h) = score h" for h by (simp_all add: spawn_piece_def next_piece_index_def Let_def)
  then show b: "board g' = clear_board (board (lock_piece g))" "score g' = score g + 100 * cleared (board (lock_piece g))" unfolding g' by simp_all
  show "blocks (board g') + 10 * cleared (board (lock_piece g)) = blocks (board g) + 4" unfolding b(1) using clear_board_wf(2) [OF l(1)] l(2) by simp
qed

section \<open>Properties\<close>

lemma spawn_wf:
  assumes "wf_board (board g)" "100 dvd score g" "40 dvd 10 * blocks (board g) + score g" "\<not> game_over g"
  shows "wf_game (spawn_piece g)"
proof -
  let ?s = "rng_seed g * 1103515245 + 12345"
  have "unat (?s div 65536 mod 7) < 7" by (simp add: unat_mod)
  then have "wf_piece (SHAPES ! unat (?s div 65536 mod 7))" by (rule wf_shapes)
  then show ?thesis using assms by (simp add: wf_game_def spawn_piece_def next_piece_index_def Let_def BOARD_WIDTH_def check_collision_def)
qed

lemma check_collision_board: "check_collision (g\<lparr>piece_x := a, piece_y := b, current_piece := p\<rparr>) = check_collision g"
  by (simp add: fun_eq_iff check_collision_def)

lemma moves_wf:
  assumes "wf_game g"
  shows "wf_game (move_horizontal d g)" "wf_game (rotate_piece g)"
proof -
  have w: "wf_piece (current_piece g)" using assms by (simp add: wf_game_def)
  show "wf_game (move_horizontal d g)"
    using assms no_collision_bounds [OF w, of g "piece_x g + d" "piece_y g"] by (auto simp: wf_game_def move_horizontal_def check_collision_def)
  show "wf_game (rotate_piece g)"
    using assms wf_rotated [OF w] by (auto simp: wf_game_def rotate_piece_def Let_def check_collision_def)
qed

lemma tick_wf:
  assumes "wf_game g" "game_tick g = Inr g'"
  shows "wf_game g'"
proof (cases "game_over g \<or> \<not> check_collision g (piece_x g) (piece_y g + 1) (current_piece g)")
  case True
  have "wf_piece (current_piece g)" using assms(1) by (simp add: wf_game_def)
  then show ?thesis
    using True assms no_collision_bounds [of "current_piece g" g "piece_x g" "piece_y g + 1"]
    by (auto simp: wf_game_def game_tick_def check_collision_def split: if_splits)
next
  case False
  have go: "\<not> game_over g" and co: "check_collision g (piece_x g) (piece_y g + 1) (current_piece g)" using False by simp_all
  let ?b = "board (lock_piece g)"
  let ?h = "(lock_piece g)\<lparr>board := clear_board ?b, score := score g + cleared ?b * 100\<rparr>"
  note t = tick_lands [OF assms(1) go co assms(2)]
  have d: "100 dvd score g" "40 dvd (10 * blocks (board g) + score g) + 40" using assms(1) by (simp_all add: wf_game_def)
  have "10 * blocks (board ?h) + score ?h = (10 * blocks (board g) + score g) + 40" using t(2-4) by simp
  then have "40 dvd 10 * blocks (board ?h) + score ?h" using d(2) by (simp only:)
  moreover have "100 dvd score ?h" using d(1) by simp
  moreover have "\<not> game_over ?h" using go by (simp add: lock_piece_def)
  moreover have "wf_board (board ?h)" using clear_board_wf(1) [OF lock_piece_wf(1) [OF assms(1) go]] by simp
  ultimately show ?thesis unfolding t(1) by (intro spawn_wf)
qed

inductive reachable :: "GameState \<Rightarrow> bool" where
  start: "reachable GameState_new"
| shift: "reachable g \<Longrightarrow> d = -1 \<or> d = 1 \<Longrightarrow> reachable (move_horizontal d g)"
| turn: "reachable g \<Longrightarrow> reachable (rotate_piece g)"
| tick: "reachable g \<Longrightarrow> game_tick g = Inr g' \<Longrightarrow> reachable g'"

lemma new_wf: "wf_game GameState_new"
  unfolding GameState_new_def by (rule spawn_wf) (auto simp: wf_board_def filled_empty)

text \<open>C27. Every state of a game is well formed: the board keeps its twenty rows of ten cells that are 0 or 1, the piece is four blocks in its four by four frame, inside
  the range where no index and no coordinate can go wrong, and until the game is over it overlaps neither the walls nor locked blocks. A tick lets the piece fall by
  one row and changes nothing else, as long as it can fall. When it has landed, exactly its cells become blocks of the board, which is then cleared of full rows as
  \<^verbatim>\<open>clear_lines\<close> does it, and blocks are conserved: with \<open>k\<close> rows cleared the board has four blocks more and ten times \<open>k\<close> less, and the score grows by a
  hundred times \<open>k\<close>. A step can only fail when the score does not fit into 64 bits.\<close>

theorem tetris_well_formed:
  assumes "reachable g"
  shows "wf_game g \<and> (score g + 2000 < 2 ^ 64 \<longrightarrow> (\<exists>g'. game_tick g = Inr g'))
     \<and> (\<forall>g'. \<not> game_over g \<and> game_tick g = Inr g' \<longrightarrow>
          (if \<not> check_collision g (piece_x g) (piece_y g + 1) (current_piece g) then g' = g\<lparr>piece_y := piece_y g + 1\<rparr>
           else (\<exists>b k. wf_board b \<and> (\<forall>y < 20. \<forall>x < 10. b ! y ! x \<noteq> 0 \<longleftrightarrow> board g ! y ! x \<noteq> 0 \<or> covers g y x)
                 \<and> board g' = clear_board b \<and> k = cleared b
                 \<and> blocks (board g') + 10 * k = blocks (board g) + 4 \<and> score g' = score g + 100 * k)))"
proof -
  have w: "wf_game g" using assms by (induction rule: reachable.induct) (auto intro: new_wf moves_wf tick_wf)
  moreover have "\<exists>g'. game_tick g = Inr g'" if "score g + 2000 < 2 ^ 64"
  proof (cases "game_over g")
    case False
    note l = lock_piece_wf(1) [OF w False]
    have "clear_lines (lock_piece g) = Inr ((lock_piece g)\<lparr>board := clear_board (board (lock_piece g)), score := score g + cleared (board (lock_piece g)) * 100\<rparr>)"
      using clear_lines_spec [of "lock_piece g"] l clear_board_wf(3) [OF l] that by (simp add: wf_board_def lock_piece_def)
    then show ?thesis by (simp add: game_tick_def)
  qed (simp add: game_tick_def)
  moreover have "g' = g\<lparr>piece_y := piece_y g + 1\<rparr>"
    if "\<not> game_over g" "game_tick g = Inr g'" "\<not> check_collision g (piece_x g) (piece_y g + 1) (current_piece g)" for g'
    using that by (simp add: game_tick_def)
  moreover have "\<exists>b k. wf_board b \<and> (\<forall>y < 20. \<forall>x < 10. b ! y ! x \<noteq> 0 \<longleftrightarrow> board g ! y ! x \<noteq> 0 \<or> covers g y x)
       \<and> board g' = clear_board b \<and> k = cleared b \<and> blocks (board g') + 10 * k = blocks (board g) + 4 \<and> score g' = score g + 100 * k"
    if g: "\<not> game_over g" "game_tick g = Inr g'" "check_collision g (piece_x g) (piece_y g + 1) (current_piece g)" for g'
  proof (intro exI conjI)
    show "\<forall>y < 20. \<forall>x < 10. board (lock_piece g) ! y ! x \<noteq> 0 \<longleftrightarrow> board g ! y ! x \<noteq> 0 \<or> covers g y x"
      using lock_piece_cells w by (simp add: wf_game_def)
  qed (use tick_lands [OF w g(1,3,2)] lock_piece_wf(1) [OF w g(1)] in simp_all)
  ultimately show ?thesis by (simp only: if_split) blast
qed

theorem tetris_well_formed_witness: "wf_game GameState_new \<and> (\<exists>g'. game_tick GameState_new = Inr g')"
proof -
  have "score GameState_new = 0" by (simp add: GameState_new_def spawn_piece_def next_piece_index_def Let_def)
  then show ?thesis using tetris_well_formed [OF start] by simp
qed

text \<open>C28. \<^verbatim>\<open>clear_lines\<close> on a board without two full rows on top of each other removes exactly the full rows, lets the rest fall in order, fills up with empty rows at the top
  and scores a hundred for each.\<close>

theorem clear_lines_correct:
  assumes "length (board g) = BOARD_HEIGHT" "score g + 2000 < 2 ^ 64"
    "\<forall>i. Suc i < BOARD_HEIGHT \<longrightarrow> \<not> (row_full (board g ! i) \<and> row_full (board g ! Suc i))"
  shows "let k = length (filter row_full (board g)) in
     clear_lines g = Inr (g\<lparr>board := replicate k empty_row @ filter (\<lambda>row. \<not> row_full row) (board g), score := score g + k * 100\<rparr>)"
proof -
  let ?b = "board g"
  have "\<forall>i. Suc i < length (rev ?b) \<longrightarrow> \<not> (row_full (rev ?b ! i) \<and> row_full (rev ?b ! Suc i))"
  proof (intro allI impI)
    fix i assume i: "Suc i < length (rev ?b)"
    then have "Suc (length ?b - Suc (Suc i)) < BOARD_HEIGHT" "Suc (length ?b - Suc (Suc i)) = length ?b - Suc i" using assms(1) by auto
    then show "\<not> (row_full (rev ?b ! i) \<and> row_full (rev ?b ! Suc i))" using assms(3) i by (metis rev_nth Suc_lessD length_rev)
  qed
  then have s: "sweep (rev ?b) = rev (filter (\<lambda>row. \<not> row_full row) ?b)" by (simp add: sweep_no_adjacent rev_filter)
  then have c: "cleared ?b = length (filter row_full ?b)" using sum_length_filter_compl [of row_full ?b] by (simp add: cleared_def)
  have "cleared ?b \<le> 20" using assms(1) by (simp add: cleared_def BOARD_HEIGHT_def)
  then show ?thesis using clear_lines_spec [OF assms(1)] assms(2) c s by (simp add: clear_board_def)
qed

theorem clear_lines_correct_witness:
  "let b = replicate 18 empty_row @ [replicate 10 1, empty_row]; g = GameState_new\<lparr>board := b, score := 0\<rparr> in
     clear_lines g = Inr (g\<lparr>board := replicate 20 empty_row, score := 100\<rparr>)"
proof -
  let ?b = "replicate 18 empty_row @ [replicate 10 1, empty_row]"
  let ?g = "GameState_new\<lparr>board := ?b, score := 0\<rparr>"
  have f: "\<not> row_full empty_row" "row_full (replicate 10 1)" using empty_row_not_full by (simp_all add: row_full_def BOARD_WIDTH_def list_all_iff)
  have "\<forall>i. Suc i < BOARD_HEIGHT \<longrightarrow> \<not> (row_full (board ?g ! i) \<and> row_full (board ?g ! Suc i))"
    using f(1) by (auto simp: nth_append nth_Cons' BOARD_HEIGHT_def)
  moreover have "replicate 18 e @ [e] = replicate 19 e" for e :: "u8 list" by (simp add: replicate_append_same flip: replicate_Suc)
  moreover have "e # replicate 19 e = replicate 20 e" for e :: "u8 list" by (simp flip: replicate_Suc)
  ultimately show ?thesis
    using clear_lines_correct [of ?g] f by (simp add: BOARD_HEIGHT_def Let_def)
qed

text \<open>Two full rows on top of each other: only one of them goes.\<close>

lemma clear_lines_adjacent:
  assumes "length (board g) = BOARD_HEIGHT" "score g + 2000 < 2 ^ 64" "board g = upper @ [f, f']" "row_full f" "row_full f'" "\<forall>row \<in> set upper. \<not> row_full row"
  shows "\<exists>g'. clear_lines g = Inr g' \<and> row_full (last (board g')) \<and> score g' = score g + 100"
proof -
  have "sweep (rev upper) = rev upper" using assms(6) by (intro sweep_none) simp
  then have "sweep (rev (board g)) = f # rev upper" using assms(3,5) by simp
  then have "clear_board (board g) = empty_row # upper @ [f]" "cleared (board g) = 1" using assms(3) by (simp_all add: clear_board_def cleared_def)
  then show ?thesis using clear_lines_spec [OF assms(1)] assms(2,4) by simp
qed

end
