(* ===== verification/Spec2Isabelle.thy ===== *)
theory Spec2Isabelle
  imports Boot Fork ExitWait TestPrograms ShellRun TetrisSpec
begin

text \<open>
  AtOS is an operating system for the Raspberry Pi 3 in Rust: a kernel with paged memory, processes, a round-robin scheduler, a serial console and ten system calls
  (\<^verbatim>\<open>src/src/main.rs\<close>, \<^verbatim>\<open>src/src/kernel\<close>), and the user programs it runs (\<^verbatim>\<open>src/src/user\<close>). This development models both as executable
  definitions, one per function of the source and with its name, and proves what they do, from the free list of frames to a command line typed into the shell.

  \<^bold>\<open>How the parts work together.\<close> \<^verbatim>\<open>_rust_main\<close> initialises the console, the timer and the frame allocator, creates process 1 from the image of \<^verbatim>\<open>init\<close> and
  executes \<^verbatim>\<open>svc #0\<close>. Every exception, whether a system call, a timer interrupt or a process that suspends itself in the kernel, enters \<^verbatim>\<open>handle_exception_el1\<close> with the
  registers of the interrupted code, and returns with those of the code to resume, which \<^verbatim>\<open>Scheduler::schedule_next\<close> may have replaced. System calls act on the process table,
  on the address spaces over the common pool of frames, and on the console, whose mutex puts a process to sleep when it is taken.

  \<^bold>\<open>Theories.\<close>

  \<^item> \<open>Prelude\<close>: machine integers as words, the ends of kernel code that does not return (\<open>halt\<close>), the sequencing of code that may end so (\<open>kbind\<close>), the combinators
    that \<^verbatim>\<open>for\<close> loops become, generic lemmas.
  \<^item> \<open>Memory\<close>: byte-addressed RAM as seen through the kernel's linear map, loads and stores, \<^verbatim>\<open>ttbr1_to_va!\<close> and \<^verbatim>\<open>ttbr1_to_pa!\<close>.
  \<^item> \<open>FrameAlloc\<close>: the free list of \<^verbatim>\<open>paging.rs\<close> with its links in memory. It refines a stack of frames; the contract is the locale \<open>frame_pool\<close>,
    interpreted as \<open>fp\<close>.
  \<^item> \<open>PageTable\<close>, \<open>PageTree\<close>, \<open>PageAlloc\<close>, \<open>PageSpec\<close>, \<open>PageFree\<close>, \<open>PageDup\<close>, \<open>Paging\<close>, \<open>PageRange\<close>: the translation
    tables of \<^verbatim>\<open>paging.rs\<close>. \<open>PageTable\<close> has the code; \<open>tree_frames\<close> lists the frames a table reaches, \<open>owned\<close> says that they and the free frames are apart;
    the others prove the contracts of mapping, unmapping, freeing and duplicating, success and roll-back, and of several pages in a row.
  \<^item> \<open>KernelMap\<close>, \<open>KernelTables\<close>: the tables of 2 MB blocks and the translation registers that are computed at compile time; a walk through them gives the physical
    address back. In memory they form the root table to which kernel stacks are added.
  \<^item> \<open>SlotTable\<close>: the locale \<open>slot_table\<close> of an array that is scanned for a key or for the first vacant slot; \<open>ks\<close> interprets it for the kernel stacks,
    \<open>pt\<close> for the process table.
  \<^item> \<open>Locks\<close>: \<^verbatim>\<open>interrupts.rs\<close>, \<^verbatim>\<open>spinlock.rs\<close> and \<^verbatim>\<open>Cpu\<close> of \<^verbatim>\<open>processes.rs\<close>; nesting of \<^verbatim>\<open>push_off\<close> and \<^verbatim>\<open>pop_off\<close> as a step relation, and
    the locale \<open>exclusive_lock\<close>, interpreted for spinlocks (\<open>spin\<close>) and, in \<open>Console\<close>, for the mutex (\<open>mx\<close>).
  \<^item> \<open>KState\<close>: processes, contexts, and \<open>kstate\<close>, one record with the statics of all modules, the memory and the device registers.
  \<^item> \<open>KernelStack\<close>, \<open>StackCopy\<close>: \<^verbatim>\<open>kernelstack.rs\<close>; allocation and deferred release, the runs of both (\<open>stack_run\<close>) and the
    separation they keep, with a guard page below each stack, and copying for \<^verbatim>\<open>fork\<close>.
  \<^item> \<open>UserMem\<close>, \<open>AddressSpaces\<close>: the memory of a process as the partial function \<open>umem\<close> of its virtual addresses; many address spaces over one pool (\<open>spaces\<close>),
    the paging operations as steps, and isolation for every run of them.
  \<^item> \<open>LoadElf\<close>, \<open>ElfSpec\<close>: \<^verbatim>\<open>elf.rs\<close> and the loader of \<^verbatim>\<open>paging.rs\<close>; what a loaded image is (\<open>image_loaded\<close>).
  \<^item> \<open>Text\<close>, \<open>Args\<close>: strings as bytes; the arguments that \<^verbatim>\<open>initialize_args\<close> lays out on the new stack and \<^verbatim>\<open>parse_args!\<close> reads back.
  \<^item> \<open>Timer\<close>, \<open>Scheduler\<close>: \<^verbatim>\<open>timer.rs\<close> and \<^verbatim>\<open>scheduler.rs\<close>; deadlines without overflow, round-robin order and fairness, one running process at most, idling until
    input arrives, and when the system has ended.
  \<^item> \<open>Processes\<close>, \<open>Spawn\<close>: \<^verbatim>\<open>processes.rs\<close>, that is creation from an image, \<^verbatim>\<open>fork\<close>, \<^verbatim>\<open>exec\<close>, \<^verbatim>\<open>terminate\<close>; the first process end to end.
  \<^item> \<open>KernelIo\<close>, \<open>Console\<close>, \<open>Devices\<close>: \<^verbatim>\<open>mutex.rs\<close>, \<^verbatim>\<open>peripherals.rs\<close>, \<^verbatim>\<open>arch/registers.rs\<close>, \<^verbatim>\<open>io.rs\<close>; printing and line editing as functions of bytes,
    also while the process sleeps between keys, mutual exclusion, and the order of the writes that configure the device.
  \<^item> \<open>Syscalls\<close>, \<open>Exceptions\<close>: \<^verbatim>\<open>syscalls.rs\<close>, \<^verbatim>\<open>filesystem.rs\<close>, \<^verbatim>\<open>exceptions.rs\<close>, all calls and handlers.
  \<^item> \<open>Fork\<close>, \<open>Exec\<close>, \<open>ExitWait\<close>, \<open>Preempt\<close>, \<open>Boot\<close>: the calls end to end, over all components below them. A child is an independent copy of its parent; a
    process runs the program and reads the arguments given to \<^verbatim>\<open>exec\<close>; \<^verbatim>\<open>exit\<close> and \<^verbatim>\<open>wait\<close> meet in either order; a preempted process resumes with the context it had; boot reaches
    \<^verbatim>\<open>init\<close> in user mode with the invariants of scheduler, kernel stacks and address spaces established. \<open>Boot\<close> also has \<^verbatim>\<open>the_end\<close>, the panic handler and the register dump.
  \<^item> \<open>UserSys\<close>, \<open>Programs\<close>, \<open>TestPrograms\<close>: the wrappers and the runtime of user programs, and the programs \<^verbatim>\<open>wc\<close>, \<^verbatim>\<open>echo\<close>, \<^verbatim>\<open>clear\<close>, \<^verbatim>\<open>info\<close>, \<^verbatim>\<open>init\<close>,
    \<^verbatim>\<open>help\<close>, \<^verbatim>\<open>exectest\<close>, \<^verbatim>\<open>ptest\<close>, \<^verbatim>\<open>waittest\<close>, as the sequence of calls each makes for the replies it gets. The rules that run them are collected in \<open>urun\<close>.
  \<^item> \<open>Shell\<close>, \<open>ShellSpec\<close>, \<open>ShellRun\<close>: lexer, parser and execution of \<^verbatim>\<open>shell.rs\<close>; no input makes it panic, and a written command line is run as written.
  \<^item> \<open>Tetris\<close>, \<open>TetrisSpec\<close>: \<^verbatim>\<open>tetris.rs\<close>; the rules of the game as invariants of its reachable states.

  \<^bold>\<open>Conventions.\<close> The kernel is a release build: its arithmetic is that of words and wraps, and the checked operations of the source are written out. User programs are debug
  builds: overflow and an index out of range panic (in the shell \<open>element\<close>, \<open>push_arg\<close> and \<open>push_command\<close>). An abnormal end is a value of \<open>halt\<close>: a panic with
  the fixed part of its message, an exception that is not handled, \<^verbatim>\<open>the_end\<close>, or a wait that does not end. What the kernel prints on the way into the first three is in
  \<open>Boot\<close>. A failed compare-and-exchange spins forever, because there is one CPU and its holder cannot run. A formatted print is the list of bytes it produces.

  \<^bold>\<open>Parameters.\<close> What the sources do not contain is an argument of the definitions: \<open>files\<close>, the compiled programs included in the kernel image; \<open>intro\<close>, the generated
  banner; \<open>stack_top_addr\<close>, a linker symbol; \<open>loc\<close>, the place of a panic; and the values read from the hardware: \<open>LSR\<close> and \<open>UART_RX\<close> in the state, \<open>ticks\<close>,
  \<open>irq\<close>, \<open>ctl\<close>. \<open>ws\<close> is what happens while a process sleeps inside the kernel, \<open>replies\<close> what the kernel answers to a user program.

  \<^bold>\<open>Loops and fuel.\<close> Loops over arrays are structural. Loops that poll a device or sleep recurse on the readings or wake-ups supplied, and the theorems give the readings under
  which they end: for input \<open>wait_key\<close> and \<open>line_io\<close> of \<open>Console\<close> follow the polling, one list of readings after each wake-up. The loop over the pages of a segment has fuel \<open>2 ^ 52\<close>, the number of pages of the address space; \<open>ElfSpec\<close> shows that a well-formed file
  ends it long before. User programs that loop forever recurse on the replies.

  \<^bold>\<open>Assumptions of the end-to-end theorems.\<close> They start from states in which the I/O locks are free, and no interrupt falls between the instructions of one handler, as the vectors mask
  them; in \<open>Boot\<close> none arrives before the first \<^verbatim>\<open>svc #0\<close>, when the timer is not yet enabled. Programs are loaded from well-formed ELF files without a zero-filled part that
  starts inside a page (\<open>loadable\<close>). While a process waits for a key, no other process uses the console or its memory (\<open>resumes\<close>). A block descriptor is not a table
  entry for the paging code (\<open>is_valid\<close> asks for both low bits), so the kernel's root table is a tree of three frames. Caches and the translation buffer have no state here:
  the maintenance instructions are omitted.

  \<^bold>\<open>Not modelled.\<close> The assembly of \<^verbatim>\<open>entry.S\<close> and \<^verbatim>\<open>exceptions.s\<close>, whose effect is the initial memory image \<open>kernel_image\<close> and the exception context that the handlers receive;
  \<^verbatim>\<open>build.rs\<close>, which runs commands and writes files; debug output, switched off by constants, with the \<^verbatim>\<open>fmt::Debug\<close> instances behind it; \<^verbatim>\<open>get_current_el\<close> of \<^verbatim>\<open>utils.rs\<close>, which nothing
  calls; the commented-out loaders at the end of \<^verbatim>\<open>processes.rs\<close>; and the empty program templates.

  \<^bold>\<open>Deviations found.\<close> The model keeps them as the code has them. Among them: the loader clears uninitialised data at the wrong address when it does not begin on a page boundary
  (in \<open>UserMem\<close>); the user stack is placed just above the image (in \<open>ElfSpec\<close>), where the README puts it at the end of the user region; \<^verbatim>\<open>clear_lines\<close> leaves one of two adjacent full rows (\<open>clear_lines_adjacent\<close>); a fork that runs out of memory panics the kernel
  (in \<open>Fork\<close>); a long sleep wraps around (\<open>sleep_wraps\<close>); a panic raised while the console is in use is never printed (\<open>panic_while_printing\<close>).
\<close>

end
